(* ===== verification/Prelude.thy ===== *)
theory Prelude
  imports Main "HOL-Library.Word"
begin

unbundle bit_operations_syntax

text \<open>
  Shared types, constants and lemmas.  The program is built for a 32-bit little-endian ARM
  (\<^verbatim>\<open>src/src/make.sh\<close>), so \<open>uint32_t\<close>, \<open>size_t\<close>, \<open>uintptr_t\<close> and every pointer are 32-bit
  words.  The constants are those of \<^verbatim>\<open>src/src/common.h\<close>.  The rest of the theory is generic:
  alignment and page frames of addresses, loops over index ranges, and the contract of a store
  that is read and written by address, with the range-fill lemma every table loop uses.
\<close>

type_synonym u8 = "8 word"
type_synonym u16 = "16 word"
type_synonym u32 = "32 word"

named_theorems frame_simps \<open>what an operation leaves unchanged\<close>
named_theorems outcome_simps \<open>evaluation of outcomes and locks\<close>

subsection \<open>Constants of common.h\<close>

abbreviation SUPERSECTION_SIZE :: u32 where "SUPERSECTION_SIZE \<equiv> 0x1000000"
abbreviation SECTION_SIZE :: u32 where "SECTION_SIZE \<equiv> 0x100000"
abbreviation PAGE_SIZE :: u32 where "PAGE_SIZE \<equiv> 0x1000"

definition PAGES_IN_SECTION :: u32 where
  "PAGES_IN_SECTION = SECTION_SIZE div PAGE_SIZE"

record MemRange =
  range_start :: u32
  range_size :: u32

text \<open>
  \<open>Result<T>\<close>: a success flag and, on success, a value.  The value of a failure is
  uninitialised in the code and never read, so a failure carries none here.
\<close>

datatype 'a Result = Success 'a | Failure

fun is_success :: "'a Result \<Rightarrow> bool" where
  "is_success (Success _) = True"
| "is_success Failure = False"

fun result_value :: "'a Result \<Rightarrow> 'a option" where
  "result_value (Success v) = Some v"
| "result_value Failure = None"

lemma is_success_iff: "is_success r \<longleftrightarrow> (\<exists>v. r = Success v)"
  by (cases r) auto

subsection \<open>Words as numbers\<close>

lemma unat_of_nat32 [simp]: "n < 2 ^ 32 \<Longrightarrow> unat (of_nat n :: u32) = n"
  by (simp add: unat_of_nat take_bit_nat_eq_self)

lemma unat_add32: "unat a + unat b < 2 ^ 32 \<Longrightarrow> unat (a + b :: u32) = unat a + unat b"
  by (simp add: unat_word_ariths)

lemma unat_mult32: "unat a * unat b < 2 ^ 32 \<Longrightarrow> unat (a * b :: u32) = unat a * unat b"
  by (simp add: unat_word_ariths)

lemma unat_div32: "unat (a div b :: u32) = unat a div unat b"
  by (simp add: unat_div)

lemma unat_lt32: "unat (a :: u32) < 2 ^ 32"
  using unsigned_less [of a] by simp

lemma unat_lt32_num [simp]: "unat (a :: u32) < 4294967296"
  using unat_lt32 [of a] by simp

lemma word_eq_iff_unat32: "(a :: u32) = b \<longleftrightarrow> unat a = unat b"
  by (auto intro: unsigned_word_eqI)

lemma unat_Suc32: "s < e \<Longrightarrow> unat (s + 1 :: u32) = unat s + 1"
  using unat_lt32 [of e] by (subst unat_add32) (auto simp: word_less_nat_alt simp del: unat_lt32_num)

lemma of_nat_eq_iff32:
  "m < 2 ^ 32 \<Longrightarrow> n < 2 ^ 32 \<Longrightarrow> (of_nat m :: u32) = of_nat n \<longleftrightarrow> m = n"
  by (metis unat_of_nat32)

lemma unat_drop_bit32: "unat (drop_bit n a :: u32) = unat a div 2 ^ n"
  by (metis drop_bit_eq_div unat_drop_bit_eq)

lemma unat_and_mask: "unat (a AND mask n :: u32) = unat a mod 2 ^ n"
  by (metis take_bit_eq_mask take_bit_eq_mod unsigned_take_bit_eq)

lemma lt_20_32: "a < b \<Longrightarrow> b < 2 ^ 20 \<Longrightarrow> a < 2 ^ 32" for a b :: nat
  by simp

lemma in_image_upt: "x \<in> f ` set [0..<n] \<longleftrightarrow> (\<exists>i < n. x = f i)"
  by auto

subsection \<open>Alignment and page frames\<close>

definition aligned :: "nat \<Rightarrow> u32 \<Rightarrow> bool" where
  "aligned k a \<longleftrightarrow> unat a mod 2 ^ k = 0"

lemma aligned_0 [simp]: "aligned k 0"
  by (simp add: aligned_def)

lemma aligned_mono: "aligned k a \<Longrightarrow> l \<le> k \<Longrightarrow> aligned l a"
  unfolding aligned_def
  by (metis dvd_imp_mod_0 le_imp_power_dvd mod_0_imp_dvd dvd_trans)

lemma aligned_add:
  assumes "aligned k a" "aligned k b" "k \<le> 32"
  shows "aligned k (a + b)"
proof -
  have "(2::nat) ^ k dvd 2 ^ 32" using assms(3) by (rule le_imp_power_dvd)
  then have "unat (a + b) mod 2 ^ k = (unat a + unat b) mod 2 ^ k"
    by (simp add: unat_word_ariths mod_mod_cancel)
  then show ?thesis
    using assms(1,2) unfolding aligned_def by (metis add.right_neutral mod_add_eq mod_0)
qed

lemma aligned_mult:
  assumes "aligned k a" "k \<le> 32"
  shows "aligned k (a * b)"
proof -
  have "(2::nat) ^ k dvd 2 ^ 32" using assms(2) by (rule le_imp_power_dvd)
  then have "unat (a * b) mod 2 ^ k = (unat a * unat b) mod 2 ^ k"
    by (simp add: unat_word_ariths mod_mod_cancel)
  then show ?thesis
    using assms(1) unfolding aligned_def by (metis mod_mult_left_eq mod_0 mult_0)
qed

lemma aligned_no_wrap:
  assumes "aligned k a" "j < 2 ^ k" "k \<le> 32"
  shows "unat a + j < 2 ^ 32"
proof -
  have dvd: "(2::nat) ^ k dvd 2 ^ 32" using assms(3) by (rule le_imp_power_dvd)
  obtain q where q: "unat a = 2 ^ k * q" using assms(1) unfolding aligned_def by auto
  obtain r where r: "(2::nat) ^ 32 = 2 ^ k * r" using dvd by (auto elim: dvdE)
  have "2 ^ k * q < 2 ^ k * r" using unat_lt32 [of a] unfolding q r .
  then have "Suc q \<le> r" by simp
  then have "2 ^ k * Suc q \<le> 2 ^ k * r" by (rule mult_le_mono2)
  then show ?thesis using assms(2) unfolding q r by simp
qed

lemma unat_aligned_add:
  assumes "aligned k a" "j < 2 ^ k" "k \<le> 32"
  shows "unat (a + of_nat j) = unat a + j"
proof -
  have "unat a + j < 2 ^ 32" using assms by (rule aligned_no_wrap)
  moreover have "j < 2 ^ 32" using calculation by simp
  ultimately show ?thesis by (simp add: unat_add32)
qed

text \<open>The page frame an address lies in.\<close>

definition frame :: "u32 \<Rightarrow> nat" where
  "frame a = unat a div 4096"

lemma frame_less: "frame a < 2 ^ 20"
  using unat_lt32 [of a] by (simp add: frame_def div_less_iff_less_mult)

lemma frame_aligned_add:
  assumes "aligned 12 a" "j < 4096"
  shows "frame (a + of_nat j) = frame a"
proof -
  have "unat (a + of_nat j) = unat a + j"
    using assms by (intro unat_aligned_add [of 12]) simp_all
  moreover obtain q where "unat a = 4096 * q"
    using assms(1) unfolding aligned_def by auto
  ultimately show ?thesis using assms(2) by (simp add: frame_def)
qed

lemma frame_aligned_add_word:
  "aligned 2 a \<Longrightarrow> j < 4 \<Longrightarrow> frame (a + of_nat j) = frame a"
proof -
  assume a: "aligned 2 a" and j: "j < 4"
  have "unat (a + of_nat j) = unat a + j"
    using a j by (intro unat_aligned_add [of 2]) simp_all
  moreover obtain q where "unat a = 4 * q"
    using a unfolding aligned_def by auto
  moreover have "(4 * q + j) div 4096 = (4 * q) div 4096"
  proof -
    have "(4 * q + j) div 4 div 1024 = (4 * q) div 4 div 1024" using j by simp
    then show ?thesis by (simp only: div_mult2_eq [symmetric]) simp
  qed
  ultimately show ?thesis by (simp add: frame_def)
qed

subsection \<open>Bit masks of the descriptors\<close>

lemma not_masks: 
  "(0xfffff000 :: u32) = NOT (mask 12)" "(0xfff00000 :: u32) = NOT (mask 20)"
  "(0xff000000 :: u32) = NOT (mask 24)" "(0xfffffc00 :: u32) = NOT (mask 10)" "(0xffffc000 :: u32) = NOT (mask 14)"
  by (simp_all add: mask_eq_exp_minus_1 eq_neg_iff_add_eq_0)

lemma masks: 
  "(0x3 :: u32) = mask 2" "(0x7 :: u32) = mask 3" "(0xfff :: u32) = mask 12" "(0xfffff :: u32) = mask 20"
  "(0xffffff :: u32) = mask 24" "(0xff :: u32) = mask 8"
  by (simp_all add: mask_eq_exp_minus_1)

lemma and_not_mask_eq: "x AND NOT (mask n) = x - (x AND mask n)" for x :: u32
proof -
  have "(x AND NOT (mask n)) AND (x AND mask n) = 0"
    by (rule bit_word_eqI) (simp add: bit_simps)
  then have "(x AND NOT (mask n)) + (x AND mask n) = (x AND NOT (mask n)) OR (x AND mask n)"
    by (rule disjunctive_add_eq_or)
  also have "\<dots> = x" by (rule bit_word_eqI) (auto simp: bit_simps)
  finally show ?thesis by (simp add: eq_diff_eq)
qed

lemma unat_and_not_mask: "unat (x AND NOT (mask n) :: u32) = unat x div 2 ^ n * 2 ^ n"
proof -
  have "x AND NOT (mask n) = x - (x AND mask n)" by (rule and_not_mask_eq)
  moreover have "x AND mask n \<le> x" by (simp add: word_and_le2)
  ultimately have "unat (x AND NOT (mask n)) = unat x - unat x mod 2 ^ n"
    by (simp add: unat_sub unat_and_mask)
  then show ?thesis by (simp add: minus_mod_eq_div_mult)
qed

lemma aligned_iff_mask: "aligned n x \<longleftrightarrow> x AND mask n = 0"
  by (metis aligned_def unat_0 unat_and_mask unat_eq_zero)

lemma aligned_and_not_mask: "aligned n (x AND NOT (mask n))"
  by (simp add: aligned_def unat_and_not_mask)

lemma aligned_and_id: "aligned n x \<Longrightarrow> x AND NOT (mask n) = x"
  by (simp add: aligned_iff_mask and_not_mask_eq)

lemma or_disj_add: "x AND y = 0 \<Longrightarrow> x OR y = x + y" for x y :: u32
  by (simp add: disjunctive_add_eq_or)

end
