(* ===== verification/Memory.thy ===== *)
theory Memory
  imports Prelude
begin

unbundle bit_operations_syntax

text \<open>
  Physical memory as the code sees it through its pointers: a byte for every 32-bit address, words
  little-endian.  On top of it the byte routines of \<^verbatim>\<open>src/src/utility.cc\<close> (\<open>memcpy\<close>, \<open>memset\<close>,
  \<open>strlen\<close>) and the loops over \<open>uint32_t\<close> arrays that the page tables use.  The locale
  \<open>addressed_store\<close> is the contract of such a memory; bytes and aligned words are its instances.
\<close>

type_synonym memory = "u32 \<Rightarrow> u8"

subsection \<open>Words in memory\<close>

definition load32 :: "memory \<Rightarrow> u32 \<Rightarrow> u32" where
  "load32 m a = ucast (m a) OR push_bit 8 (ucast (m (a + 1)))
     OR push_bit 16 (ucast (m (a + 2))) OR push_bit 24 (ucast (m (a + 3)))"

definition store32 :: "u32 \<Rightarrow> u32 \<Rightarrow> memory \<Rightarrow> memory" where
  "store32 a v m = m(a := ucast v, a + 1 := ucast (drop_bit 8 v),
     a + 2 := ucast (drop_bit 16 v), a + 3 := ucast (drop_bit 24 v))"

definition load16 :: "memory \<Rightarrow> u32 \<Rightarrow> u16" where
  "load16 m a = ucast (m a) OR push_bit 8 (ucast (m (a + 1)))"

definition load8 :: "memory \<Rightarrow> u32 \<Rightarrow> u8" where
  "load8 m a = m a"

definition store8 :: "u32 \<Rightarrow> u8 \<Rightarrow> memory \<Rightarrow> memory" where
  "store8 a v m = m(a := v)"

lemma load32_store32_same [simp]: "load32 (store32 a v m) a = v"
proof -
  have "load32 (store32 a v m) a = ucast (ucast v :: u8)
      OR push_bit 8 (ucast (ucast (drop_bit 8 v) :: u8))
      OR push_bit 16 (ucast (ucast (drop_bit 16 v) :: u8))
      OR push_bit 24 (ucast (ucast (drop_bit 24 v) :: u8))"
    by (simp add: load32_def store32_def)
  also have "\<dots> = v"
  proof (rule bit_word_eqI)
    fix n assume "n < LENGTH(32)"
    then consider "n < 8" | "8 \<le> n" "n < 16" | "16 \<le> n" "n < 24" | "24 \<le> n" "n < 32"
      by fastforce
    then show "bit (ucast (ucast v :: u8)
      OR push_bit 8 (ucast (ucast (drop_bit 8 v) :: u8))
      OR push_bit 16 (ucast (ucast (drop_bit 16 v) :: u8))
      OR push_bit 24 (ucast (ucast (drop_bit 24 v) :: u8)) :: u32) n = bit v n"
      by cases (auto simp: bit_simps)
  qed
  finally show ?thesis .
qed

lemma store32_byte_other:
  "b \<notin> {a, a + 1, a + 2, a + 3} \<Longrightarrow> store32 a v m b = m b"
  by (auto simp: store32_def)

lemma load32_cong:
  "(\<And>k. k < 4 \<Longrightarrow> m (a + of_nat k) = m' (a + of_nat k)) \<Longrightarrow> load32 m a = load32 m' a"
proof -
  assume eq: "\<And>k. k < 4 \<Longrightarrow> m (a + of_nat k) = m' (a + of_nat k)"
  show ?thesis using eq [of 0] eq [of 1] eq [of 2] eq [of 3] by (simp add: load32_def)
qed

lemma aligned_bytes_apart:
  assumes "aligned 2 a" "aligned 2 b" "a \<noteq> b" "j < 4" "k < 4"
  shows "a + of_nat j \<noteq> b + of_nat k"
proof
  assume eq: "a + of_nat j = b + of_nat k"
  have "unat (a + of_nat j) = unat a + j" "unat (b + of_nat k) = unat b + k"
    using assms by (auto intro: unat_aligned_add [of 2])
  with eq have s: "unat a + j = unat b + k" by simp
  have "unat a mod 4 = 0" "unat b mod 4 = 0" using assms(1,2) by (auto simp: aligned_def)
  then have "unat a = unat b" using s assms(4,5) by presburger
  then show False using assms(3) by (simp add: word_eq_iff_unat32)
qed

lemma store32_aligned_byte:
  assumes "aligned 2 a" "aligned 2 b" "a \<noteq> b" "k < 4"
  shows "store32 a v m (b + of_nat k) = m (b + of_nat k)"
proof (rule store32_byte_other)
  have "b + of_nat k \<noteq> a + of_nat j" if "j < 4" for j
    using aligned_bytes_apart [of b a k j] assms that by auto
  from this [of 0] this [of 1] this [of 2] this [of 3]
  show "b + of_nat k \<notin> {a, a + 1, a + 2, a + 3}" by simp
qed

lemma load32_store32_other:
  "aligned 2 a \<Longrightarrow> aligned 2 b \<Longrightarrow> a \<noteq> b \<Longrightarrow> load32 (store32 a v m) b = load32 m b"
  by (rule load32_cong) (rule store32_aligned_byte)

lemma store32_other_frame:
  assumes "aligned 2 a" "frame b \<noteq> frame a"
  shows "store32 a v m b = m b"
proof (rule store32_byte_other)
  have "b \<noteq> a + of_nat j" if "j < 4" for j
    using frame_aligned_add_word [OF assms(1) that] assms(2) by auto
  from this [of 0] this [of 1] this [of 2] this [of 3]
  show "b \<notin> {a, a + 1, a + 2, a + 3}" by simp
qed

subsection \<open>The contract of a store, and array loops over it\<close>

text \<open>
  What the loops rely on: a write is read back, and leaves every other cell alone.  \<open>ok\<close> says which
  addresses name whole cells (for words, the aligned ones).
\<close>

locale addressed_store =
  fixes get :: "'m \<Rightarrow> 'a \<Rightarrow> 'v"
    and put :: "'a \<Rightarrow> 'v \<Rightarrow> 'm \<Rightarrow> 'm"
    and ok :: "'a \<Rightarrow> bool"
  assumes get_put_same: "get (put a v m) a = v"
    and get_put_other: "ok a \<Longrightarrow> ok b \<Longrightarrow> a \<noteq> b \<Longrightarrow> get (put a v m) b = get m b"
begin

lemma get_put:
  "ok a \<Longrightarrow> ok b \<Longrightarrow> get (put a v m) b = (if a = b then v else get m b)"
  by (simp add: get_put_same get_put_other)

lemma get_fill:
  assumes "ok b" and "\<forall>i \<in> set is. ok (f i)"
  shows "get (fold (\<lambda>i. put (f i) v) is m) b = (if b \<in> f ` set is then v else get m b)"
  using assms(2) by (induction "is" arbitrary: m) (auto simp: get_put assms(1))

lemma get_fold_other:
  assumes "ok b" and "\<forall>i \<in> set is. ok (f i)" and "b \<notin> f ` set is"
  shows "get (fold (\<lambda>i. put (f i) (g i)) is m) b = get m b"
  using assms(2,3) by (induction "is" arbitrary: m) (auto simp: get_put assms(1))

end

interpretation words: addressed_store load32 store32 "aligned 2"
  by unfold_locales (simp_all add: load32_store32_other)

interpretation bytes: addressed_store load8 store8 "\<lambda>_. True"
  by unfold_locales (simp_all add: load8_def store8_def)

text \<open>The address of element \<open>i\<close> of a \<open>uint32_t\<close> array, as C's pointer arithmetic gives it.\<close>

definition slot :: "u32 \<Rightarrow> nat \<Rightarrow> u32" where
  "slot base i = base + 4 * of_nat i"

lemma aligned_4: "aligned 2 (4 * x)"
  using aligned_mult [of 2 4 x] by (simp add: aligned_def)

lemma aligned_slot [simp]: "aligned 2 base \<Longrightarrow> aligned 2 (slot base i)"
  by (simp add: slot_def aligned_add aligned_4)

lemma unat_4_of_nat: "i < 2 ^ 30 \<Longrightarrow> unat (4 * of_nat i :: u32) = 4 * i"
  by (subst unat_mult32) auto

lemma slot_inj: "i < 2 ^ 30 \<Longrightarrow> j < 2 ^ 30 \<Longrightarrow> slot base i = slot base j \<longleftrightarrow> i = j"
  by (metis slot_def add_left_cancel mult_left_cancel unat_4_of_nat zero_neq_numeral)

lemma unat_slot:
  "i < 2 ^ 30 \<Longrightarrow> unat base + 4 * i < 2 ^ 32 \<Longrightarrow> unat (slot base i) = unat base + 4 * i"
  unfolding slot_def by (subst unat_add32) (simp_all add: unat_4_of_nat)

lemma frame_slot:
  assumes "aligned 12 base" "i < 2 ^ 30" "unat base + 4 * i < 2 ^ 32"
  shows "frame (slot base i) = frame base + i div 1024"
proof -
  obtain q where q: "unat base = 4096 * q" using assms(1) unfolding aligned_def by auto
  have "unat (slot base i) = unat base + 4 * i" using assms by (simp add: unat_slot)
  then show ?thesis unfolding frame_def q by simp
qed

text \<open>\<open>for (i = a; i < b; i++) table[i] = v;\<close>\<close>

definition fill_words :: "u32 \<Rightarrow> nat \<Rightarrow> nat \<Rightarrow> u32 \<Rightarrow> memory \<Rightarrow> memory" where
  "fill_words base a b v m = fold (\<lambda>i. store32 (slot base i) v) [a..<b] m"

lemma load32_fill_words:
  assumes "aligned 2 base" "b \<le> 2 ^ 30" "j < 2 ^ 30"
  shows "load32 (fill_words base a b v m) (slot base j)
    = (if a \<le> j \<and> j < b then v else load32 m (slot base j))"
proof -
  have "slot base j \<in> slot base ` set [a..<b] \<longleftrightarrow> a \<le> j \<and> j < b"
    using assms(2,3) by (auto simp: slot_inj)
  then show ?thesis
    unfolding fill_words_def using assms(1)
    by (subst words.get_fill) simp_all
qed

lemma load32_fill_words_other:
  assumes "aligned 2 base" "aligned 2 c" "\<And>i. a \<le> i \<Longrightarrow> i < b \<Longrightarrow> c \<noteq> slot base i"
  shows "load32 (fill_words base a b v m) c = load32 m c"
proof -
  have "c \<notin> slot base ` set [a..<b]"
  proof
    assume "c \<in> slot base ` set [a..<b]"
    then obtain i where "a \<le> i" "i < b" "c = slot base i" by auto
    then show False using assms(3) by blast
  qed
  then show ?thesis
    unfolding fill_words_def using assms(1,2) by (subst words.get_fill) simp_all
qed

lemma fill_words_other_frame:
  assumes "aligned 2 base" "\<And>i. a \<le> i \<Longrightarrow> i < b \<Longrightarrow> frame c \<noteq> frame (slot base i)"
  shows "fill_words base a b v m c = m c"
proof -
  have "fold (\<lambda>i. store32 (slot base i) v) is m c = m c"
    if "\<forall>i \<in> set is. frame c \<noteq> frame (slot base i)" for "is" m
    using that by (induction "is" arbitrary: m) (simp_all add: store32_other_frame assms(1))
  then show ?thesis unfolding fill_words_def using assms(2) by simp
qed

subsection \<open>utility.cc: memcpy, memset, strlen\<close>

fun memcpy_loop :: "nat \<Rightarrow> u32 \<Rightarrow> u32 \<Rightarrow> memory \<Rightarrow> memory" where
  "memcpy_loop 0 a b m = m"
| "memcpy_loop (Suc count) a b m = memcpy_loop count (a + 1) (b + 1) (store8 a (load8 m b) m)"

definition memcpy :: "u32 \<Rightarrow> u32 \<Rightarrow> u32 \<Rightarrow> memory \<Rightarrow> memory" where
  "memcpy dest src count m = memcpy_loop (unat count) dest src m"

fun memset_loop :: "nat \<Rightarrow> u32 \<Rightarrow> u8 \<Rightarrow> memory \<Rightarrow> memory" where
  "memset_loop 0 a ch m = m"
| "memset_loop (Suc count) a ch m = memset_loop count (a + 1) ch (store8 a ch m)"

definition memset :: "u32 \<Rightarrow> u8 \<Rightarrow> u32 \<Rightarrow> memory \<Rightarrow> memory" where
  "memset dest ch count m = memset_loop (unat count) dest ch m"

text \<open>\<open>strlen\<close> scans for a NUL byte; in a memory without one it does not return (\<open>None\<close>).\<close>

partial_function (option) strlen_from :: "memory \<Rightarrow> u32 \<Rightarrow> u32 \<Rightarrow> u32 option" where
  "strlen_from m str ret =
     (if load8 m (str + ret) \<noteq> 0 then strlen_from m str (ret + 1) else Some ret)"

definition strlen :: "memory \<Rightarrow> u32 \<Rightarrow> u32 option" where
  "strlen m str = strlen_from m str 0"


lemma unat_minus_1: "x \<noteq> 0 \<Longrightarrow> unat (x - 1 :: u32) = unat x - 1"
  by (rule unat_minus_one)

lemma unat_max: "unat (- 1 :: u32) = 2 ^ 32 - 1"
  by (simp add: unsigned_minus_1_eq_mask mask_eq_exp_minus_1)

lemma memset_loop_apply:
  "n \<le> 2 ^ 32 \<Longrightarrow> memset_loop n a ch m b = (if unat (b - a) < n then ch else m b)"
proof (induction n arbitrary: a m)
  case (Suc n)
  have IH: "memset_loop (Suc n) a ch m b
      = (if unat (b - a - 1) < n then ch else store8 a ch m b)"
    using Suc.IH [of "a + 1" "store8 a ch m"] Suc.prems by (simp add: diff_diff_eq)
  show ?case
  proof (cases "b = a")
    case True
    then show ?thesis using IH Suc.prems by (simp add: unat_max store8_def)
  next
    case False
    then have "unat (b - a - 1) = unat (b - a) - 1" "0 < unat (b - a)"
      by (simp_all add: unat_minus_1 unat_gt_0)
    then show ?thesis using IH False by (auto simp: store8_def)
  qed
qed simp

lemma memset_apply: "memset dest ch count m b = (if unat (b - dest) < unat count then ch else m b)"
  using less_imp_le [OF unat_lt32 [of count]] unfolding memset_def by (rule memset_loop_apply)

lemma memcpy_loop_apply:
  "n \<le> 2 ^ 32 \<Longrightarrow> a = b \<or> n \<le> unat (a - b) \<Longrightarrow>
   memcpy_loop n a b m c = (if unat (c - a) < n then m (b + (c - a)) else m c)"
proof (induction n arbitrary: a b m)
  case (Suc n)
  let ?m = "store8 a (load8 m b) m"
  have IH: "memcpy_loop (Suc n) a b m c
      = (if unat (c - a - 1) < n then ?m (b + (c - a)) else ?m c)"
  proof -
    have "c - (a + 1) = c - a - 1" "b + 1 + (c - a - 1) = b + (c - a)" by simp_all
    moreover have "a + 1 = b + 1 \<or> n \<le> unat (a + 1 - (b + 1))" "n \<le> 2 ^ 32"
      using Suc.prems by auto
    ultimately show ?thesis
      using Suc.IH [of "a + 1" "b + 1" ?m] by (simp only: memcpy_loop.simps)
  qed
  show ?case
  proof (cases "c = a")
    case True
    then show ?thesis using IH Suc.prems by (simp add: unat_max store8_def load8_def)
  next
    case False
    then have d: "unat (c - a - 1) = unat (c - a) - 1" "0 < unat (c - a)"
      by (simp_all add: unat_minus_1 unat_gt_0)
    have "b + (c - a) \<noteq> a" if "unat (c - a) < Suc n"
    proof
      assume "b + (c - a) = a"
      then have "c - a = a - b" by (simp add: algebra_simps)
      with Suc.prems(2) that False show False by auto
    qed
    then show ?thesis using IH False d by (auto simp: store8_def)
  qed
qed simp

lemma strlen_from_found:
  "m (str + ret + of_nat d) = 0 \<Longrightarrow> \<forall>k < d. m (str + ret + of_nat k) \<noteq> 0 \<Longrightarrow>
   strlen_from m str ret = Some (ret + of_nat d)"
proof (induction d arbitrary: ret)
  case 0
  then show ?case by (simp add: strlen_from.simps load8_def)
next
  case (Suc d)
  have "m (str + ret) \<noteq> 0" using Suc.prems(2) by force
  moreover have "strlen_from m str (ret + 1) = Some (ret + 1 + of_nat d)"
  proof (rule Suc.IH)
    show "m (str + (ret + 1) + of_nat d) = 0"
      using Suc.prems(1) by (simp add: algebra_simps)
    show "\<forall>k < d. m (str + (ret + 1) + of_nat k) \<noteq> 0"
    proof (intro allI impI)
      fix k assume "k < d"
      then show "m (str + (ret + 1) + of_nat k) \<noteq> 0"
        using Suc.prems(2) [rule_format, of "Suc k"] by (simp add: algebra_simps)
    qed
  qed
  ultimately show ?case by (simp add: strlen_from.simps [of m str ret] load8_def algebra_simps)
qed

lemma strlen_from_sound: "strlen_from m str ret = Some n \<Longrightarrow> m (str + n) = 0"
proof (rule strlen_from.raw_induct [where P = "\<lambda>m str ret n. m (str + n) = 0"])
  fix f m str ret n
  assume IH: "\<And>m str ret n. f m str ret = Some n \<Longrightarrow> m (str + n) = 0"
    and eq: "(if load8 m (str + ret) \<noteq> 0 then f m str (ret + 1) else Some ret) = Some n"
  show "m (str + n) = 0"
    using eq IH by (cases "load8 m (str + ret) = 0") (auto simp: load8_def)
qed

text \<open>A NUL exists somewhere exactly when \<open>strlen\<close> returns, and then it returns the first.\<close>

lemma strlen_first:
  assumes "m (str + of_nat k) = 0"
  obtains n where "n \<le> k" "strlen m str = Some (of_nat n)" "m (str + of_nat n) = 0"
    "\<forall>j < n. m (str + of_nat j) \<noteq> 0"
proof -
  define n where "n = (LEAST n. m (str + of_nat n) = 0)"
  have z: "m (str + of_nat n) = 0" unfolding n_def using assms by (rule LeastI)
  have nz: "\<forall>j < n. m (str + of_nat j) \<noteq> 0" unfolding n_def using not_less_Least by blast
  have "n \<le> k" unfolding n_def using assms by (rule Least_le)
  moreover have "strlen m str = Some (of_nat n)"
    unfolding strlen_def using strlen_from_found [of m str 0 n] z nz by simp
  ultimately show thesis using z nz that by blast
qed

lemma strlen_None_iff: "strlen m str = None \<longleftrightarrow> (\<forall>a. m a \<noteq> 0)"
proof
  assume none: "strlen m str = None"
  show "\<forall>a. m a \<noteq> 0"
  proof (intro allI notI)
    fix a assume "m a = 0"
    then have "m (str + of_nat (unat (a - str))) = 0" by simp
    then obtain n where "strlen m str = Some (of_nat n)" by (rule strlen_first)
    then show False using none by simp
  qed
next
  assume "\<forall>a. m a \<noteq> 0"
  then show "strlen m str = None"
    unfolding strlen_def using strlen_from_sound [of m str 0] by (cases "strlen_from m str 0") auto
qed

end
