(* ===== verification/Uart.thy ===== *)
theory Uart
  imports Memory
begin

unbundle bit_operations_syntax

text \<open>
  The serial console: \<^verbatim>\<open>src/src/mmio.cc\<close> and \<^verbatim>\<open>src/src/uart.cc\<close>.  Device registers are not memory:
  an access is an event, and a run is the trace of its events.  What a register read returns is the
  device's business, so the device is a parameter: a function from the trace so far and a register
  to the value read.  The formatting routines compute the bytes they pass to \<open>uart_putc\<close>, in order;
  \<open>uart_send\<close> is the sequence of \<open>uart_putc\<close> calls.  Polling a busy flag may never end, so it is a
  partial function, with \<open>None\<close> for "never returns".
\<close>

subsection \<open>mmio.cc\<close>

datatype mmio_event =
    MmioWrite u32 u32
  | MmioRead u32 u32
  | Delay nat

type_synonym trace = "mmio_event list"
type_synonym device = "trace \<Rightarrow> u32 \<Rightarrow> u32"

definition mmio_write :: "u32 \<Rightarrow> u32 \<Rightarrow> trace \<Rightarrow> trace" where
  "mmio_write reg data tr = tr @ [MmioWrite reg data]"

definition mmio_read :: "device \<Rightarrow> u32 \<Rightarrow> trace \<Rightarrow> u32 \<times> trace" where
  "mmio_read dev reg tr = (let v = dev tr reg in (v, tr @ [MmioRead reg v]))"

text \<open>The busy wait of utility.cc touches no state; the trace records where it stands.\<close>

definition delay :: "nat \<Rightarrow> trace \<Rightarrow> trace" where
  "delay count tr = tr @ [Delay count]"

subsection \<open>Registers and initialisation\<close>

abbreviation GPIO_BASE :: u32 where "GPIO_BASE \<equiv> 0x20200000"
abbreviation GPPUD :: u32 where "GPPUD \<equiv> GPIO_BASE + 0x94"
abbreviation GPPUDCLK0 :: u32 where "GPPUDCLK0 \<equiv> GPIO_BASE + 0x98"
abbreviation UART0_BASE :: u32 where "UART0_BASE \<equiv> 0x20201000"
abbreviation UART0_DR :: u32 where "UART0_DR \<equiv> UART0_BASE + 0x00"
abbreviation UART0_FR :: u32 where "UART0_FR \<equiv> UART0_BASE + 0x18"
abbreviation UART0_IBRD :: u32 where "UART0_IBRD \<equiv> UART0_BASE + 0x24"
abbreviation UART0_FBRD :: u32 where "UART0_FBRD \<equiv> UART0_BASE + 0x28"
abbreviation UART0_LCRH :: u32 where "UART0_LCRH \<equiv> UART0_BASE + 0x2C"
abbreviation UART0_CR :: u32 where "UART0_CR \<equiv> UART0_BASE + 0x30"
abbreviation UART0_IMSC :: u32 where "UART0_IMSC \<equiv> UART0_BASE + 0x38"
abbreviation UART0_ICR :: u32 where "UART0_ICR \<equiv> UART0_BASE + 0x44"

definition bit_of :: "nat \<Rightarrow> u32" where
  "bit_of n = push_bit n 1"

definition uart_init :: "trace \<Rightarrow> trace" where
  "uart_init tr0 =
    (let tr = mmio_write UART0_CR 0x00000000 tr0;
         tr = mmio_write GPPUD 0x00000000 tr;
         tr = delay 150 tr;
         tr = mmio_write GPPUDCLK0 (bit_of 14 OR bit_of 15) tr;
         tr = delay 150 tr;
         tr = mmio_write GPPUDCLK0 0x00000000 tr;
         tr = mmio_write UART0_ICR 0x7FF tr;
         tr = mmio_write UART0_IBRD 1 tr;
         tr = mmio_write UART0_FBRD 40 tr;
         tr = mmio_write UART0_LCRH (bit_of 4 OR bit_of 5 OR bit_of 6) tr;
         tr = mmio_write UART0_IMSC (bit_of 1 OR bit_of 4 OR bit_of 5 OR bit_of 6 OR
                bit_of 7 OR bit_of 8 OR bit_of 9 OR bit_of 10) tr
     in mmio_write UART0_CR (bit_of 0 OR bit_of 8 OR bit_of 9) tr)"

subsection \<open>Sending and receiving bytes\<close>

text \<open>\<open>while (mmio_read(UART0_FR) & busy) { }\<close>\<close>

partial_function (option) uart_wait :: "device \<Rightarrow> u32 \<Rightarrow> trace \<Rightarrow> trace option" where
  "uart_wait dev busy tr =
     (let (v, tr') = mmio_read dev UART0_FR tr
      in if v AND busy \<noteq> 0 then uart_wait dev busy tr' else Some tr')"

definition uart_putc :: "device \<Rightarrow> u8 \<Rightarrow> trace \<Rightarrow> trace option" where
  "uart_putc dev byte tr =
     (case uart_wait dev (bit_of 5) tr of None \<Rightarrow> None
      | Some tr' \<Rightarrow> Some (mmio_write UART0_DR (ucast byte) tr'))"

definition uart_getc :: "device \<Rightarrow> trace \<Rightarrow> (u8 \<times> trace) option" where
  "uart_getc dev tr =
     (case uart_wait dev (bit_of 4) tr of None \<Rightarrow> None
      | Some tr' \<Rightarrow> (let (v, tr'') = mmio_read dev UART0_DR tr' in Some (ucast v, tr'')))"

fun uart_send :: "device \<Rightarrow> u8 list \<Rightarrow> trace \<Rightarrow> trace option" where
  "uart_send dev [] tr = Some tr"
| "uart_send dev (b # bs) tr =
     (case uart_putc dev b tr of None \<Rightarrow> None | Some tr' \<Rightarrow> uart_send dev bs tr')"

definition buffer_bytes :: "memory \<Rightarrow> u32 \<Rightarrow> u32 \<Rightarrow> u8 list" where
  "buffer_bytes m buffer sz = map (\<lambda>i. load8 m (buffer + of_nat i)) [0..<unat sz]"

definition uart_write :: "device \<Rightarrow> memory \<Rightarrow> u32 \<Rightarrow> u32 \<Rightarrow> trace \<Rightarrow> trace option" where
  "uart_write dev m buffer sz tr = uart_send dev (buffer_bytes m buffer sz) tr"

definition uart_puts :: "device \<Rightarrow> memory \<Rightarrow> u32 \<Rightarrow> trace \<Rightarrow> trace option" where
  "uart_puts dev m str tr =
     (case strlen m str of None \<Rightarrow> None | Some n \<Rightarrow> uart_write dev m str n tr)"

subsection \<open>Formatting\<close>

definition hexnibble_byte :: "u8 \<Rightarrow> u8" where
  "hexnibble_byte cx = (if cx < 10 then of_char CHR ''0'' + cx else of_char CHR ''a'' + cx - 10)"

definition puthex_bytes :: "u32 \<Rightarrow> u8 list" where
  "puthex_bytes x = [of_char CHR ''0'', of_char CHR ''x''] @
     map (\<lambda>i. hexnibble_byte (ucast (drop_bit (push_bit 2 (7 - i)) x AND 0xf))) [0..<8]"

function putdec_loop :: "u32 \<Rightarrow> u32 \<Rightarrow> bool \<Rightarrow> u8 list" where
  "putdec_loop x md anything_printed =
     (if md > 0 then
        (let digit = x div md;
             x' = x - digit * md
         in if digit = 0 \<and> \<not> anything_printed then putdec_loop x' (md div 10) anything_printed
            else (ucast digit + of_char CHR ''0'') # putdec_loop x' (md div 10) True)
      else if \<not> anything_printed then [of_char CHR ''0''] else [])"
  by pat_completeness auto
termination
  by (relation "measure (\<lambda>(x, md, p). unat md)") (auto simp: unat_div32 word_less_nat_alt)

declare putdec_loop.simps [simp del]

definition putdec_bytes :: "u32 \<Rightarrow> u8 list" where
  "putdec_bytes x = putdec_loop x 1000000000 False"

definition putline_bytes :: "u8 list" where
  "putline_bytes = [13, 10]"

definition uart_puthex :: "device \<Rightarrow> u32 \<Rightarrow> trace \<Rightarrow> trace option" where
  "uart_puthex dev x tr = uart_send dev (puthex_bytes x) tr"

definition uart_putdec :: "device \<Rightarrow> u32 \<Rightarrow> trace \<Rightarrow> trace option" where
  "uart_putdec dev x tr = uart_send dev (putdec_bytes x) tr"

definition uart_putline :: "device \<Rightarrow> trace \<Rightarrow> trace option" where
  "uart_putline dev tr = uart_send dev putline_bytes tr"

text \<open>
  \<open>uart_hexdump\<close>: one row is the loop over \<open>i\<close>; it ends the dump (\<open>None\<close>) when \<open>start\<close> reaches
  \<open>end\<close>, or hands the next \<open>start\<close> to the next row.
\<close>

fun hexdump_row :: "memory \<Rightarrow> u32 \<Rightarrow> nat \<Rightarrow> u32 \<Rightarrow> u8 list \<times> u32 option" where
  "hexdump_row m stop 0 start = (putline_bytes, Some start)"
| "hexdump_row m stop (Suc n) start =
     (let byte = load8 m start;
          bs = [of_char CHR '' '', hexnibble_byte (drop_bit 4 byte), hexnibble_byte (byte AND 0xf)]
      in if start + 1 \<ge> stop then (bs @ putline_bytes, None)
         else (let (bs', r) = hexdump_row m stop n (start + 1) in (bs @ bs', r)))"

lemma hexdump_row_progress:
  "hexdump_row m e n s = (bs, Some s') \<Longrightarrow> 0 < n \<Longrightarrow>
   s' < e \<and> (s < e \<longrightarrow> s < s')"
proof (induction n arbitrary: s bs)
  case (Suc n)
  have lt: "s + 1 < e"
    using Suc.prems by (auto simp: Let_def not_le split: if_splits)
  then obtain bs' where r: "hexdump_row m e n (s + 1) = (bs', Some s')"
    using Suc.prems by (auto simp: Let_def not_le split: if_splits prod.splits)
  have inc: "s < s + 1" if "s < e"
    using unat_Suc32 [OF that] by (simp add: word_less_nat_alt)
  show ?case
  proof (cases n)
    case 0
    then show ?thesis using r lt inc by auto
  next
    case (Suc k)
    then show ?thesis using Suc.IH [OF r] lt inc by auto
  qed
qed simp


definition hexdump_measure :: "u32 \<Rightarrow> u32 \<Rightarrow> nat" where
  "hexdump_measure e s = (if s < e then unat e - unat s else 2 ^ 32)"

lemma hexdump_row_measure:
  assumes "(bs, Some s') = hexdump_row m e 16 s"
  shows "hexdump_measure e s' < hexdump_measure e s"
proof -
  have "s' < e" "s < e \<longrightarrow> s < s'"
    using hexdump_row_progress [OF assms [symmetric]] by auto
  then show ?thesis
    using le_less_trans [OF diff_le_self unat_lt32 [of e], of "unat s'"]
    by (auto simp: hexdump_measure_def word_less_nat_alt)
qed

function hexdump_bytes :: "memory \<Rightarrow> u32 \<Rightarrow> u32 \<Rightarrow> u8 list" where
  "hexdump_bytes m stop start =
     puthex_bytes start @
     (case hexdump_row m stop 16 start of
        (bs, None) \<Rightarrow> bs
      | (bs, Some start') \<Rightarrow> bs @ hexdump_bytes m stop start')"
  by pat_completeness auto
termination
  by (relation "measure (\<lambda>(m, e, s). hexdump_measure e s)", simp)
    (auto simp only: in_measure prod.case intro: hexdump_row_measure)

declare hexdump_bytes.simps [simp del]

definition uart_hexdump :: "device \<Rightarrow> memory \<Rightarrow> u32 \<Rightarrow> u32 \<Rightarrow> trace \<Rightarrow> trace option" where
  "uart_hexdump dev m start sz tr = uart_send dev (hexdump_bytes m (start + sz) start) tr"

subsection \<open>What is sent\<close>

text \<open>The bytes a trace has put on the line: the writes to the data register.\<close>

fun sent :: "trace \<Rightarrow> u8 list" where
  "sent [] = []"
| "sent (MmioWrite reg data # tr) = (if reg = UART0_DR then ucast data # sent tr else sent tr)"
| "sent (_ # tr) = sent tr"

lemma sent_append [simp]: "sent (tr @ tr') = sent tr @ sent tr'"
  by (induction tr rule: sent.induct) auto

text \<open>The bytes read from the data register.\<close>

fun received :: "trace \<Rightarrow> u8 list" where
  "received [] = []"
| "received (MmioRead reg v # tr) = (if reg = UART0_DR then [ucast v] else []) @ received tr"
| "received (_ # tr) = received tr"

lemma received_append [simp]: "received (tr @ tr') = received tr @ received tr'"
  by (induction tr rule: received.induct) auto

lemma received_init [simp]: "received (uart_init tr) = received tr"
  by (simp add: uart_init_def mmio_write_def delay_def Let_def)

lemma uart_wait_reads:
  assumes "uart_wait dev busy tr = Some tr'"
  shows "\<exists>rs. tr' = tr @ rs \<and> sent rs = [] \<and> received rs = []"
proof (rule uart_wait.raw_induct
    [where P = "\<lambda>dev busy tr tr'. \<exists>rs. tr' = tr @ rs \<and> sent rs = [] \<and> received rs = []", OF _ assms])
  fix f dev busy tr tr'
  assume IH: "\<And>dev busy tr tr'. f dev busy tr = Some tr' \<Longrightarrow> \<exists>rs. tr' = tr @ rs \<and> sent rs = [] \<and> received rs = []"
    and eq: "(let (v, tr'') = mmio_read dev UART0_FR tr
       in if v AND busy \<noteq> 0 then f dev busy tr'' else Some tr'') = Some tr'"
  let ?t = "tr @ [MmioRead UART0_FR (dev tr UART0_FR)]"
  show "\<exists>rs. tr' = tr @ rs \<and> sent rs = [] \<and> received rs = []"
  proof (cases "dev tr UART0_FR AND busy = 0")
    case True
    then show ?thesis using eq by (auto simp: mmio_read_def Let_def)
  next
    case False
    then have "f dev busy ?t = Some tr'" using eq by (simp add: mmio_read_def Let_def)
    from IH [OF this] obtain rs where "tr' = ?t @ rs" "sent rs = []" "received rs = []" by blast
    then show ?thesis by (intro exI [of _ "MmioRead UART0_FR (dev tr UART0_FR) # rs"]) simp
  qed
qed

lemma ucast_ucast_8_32 [simp]: "ucast (ucast (b :: u8) :: u32) = b"
  by (rule bit_word_eqI) (simp add: bit_simps)

lemma sent_uart_putc: "uart_putc dev b tr = Some tr' \<Longrightarrow> sent tr' = sent tr @ [b]"
  by (auto simp: uart_putc_def mmio_write_def ucast_ucast_8_32 dest!: uart_wait_reads split: option.splits)

text \<open>
  \<open>busy_polls dev busy n tr\<close>: after \<open>tr\<close>, at most \<open>n\<close> polls of the flag register see the busy bit
  clear.  A device is responsive when, after any trace, some number of polls is enough.
\<close>

fun busy_polls :: "device \<Rightarrow> u32 \<Rightarrow> nat \<Rightarrow> trace \<Rightarrow> bool" where
  "busy_polls dev busy 0 tr = False"
| "busy_polls dev busy (Suc n) tr =
     (dev tr UART0_FR AND busy = 0 \<or> busy_polls dev busy n (tr @ [MmioRead UART0_FR (dev tr UART0_FR)]))"

definition responsive :: "device \<Rightarrow> u32 \<Rightarrow> bool" where
  "responsive dev busy \<longleftrightarrow> (\<forall>tr. \<exists>n. busy_polls dev busy n tr)"

lemma uart_wait_returns: "busy_polls dev busy n tr \<Longrightarrow> \<exists>tr'. uart_wait dev busy tr = Some tr'"
proof (induction n arbitrary: tr)
  case (Suc n)
  let ?v = "dev tr UART0_FR"
  show ?case
  proof (cases "?v AND busy = 0")
    case True
    then show ?thesis by (subst uart_wait.simps) (simp add: mmio_read_def Let_def)
  next
    case False
    then have "busy_polls dev busy n (tr @ [MmioRead UART0_FR ?v])" using Suc.prems by simp
    from Suc.IH [OF this] False show ?thesis
      by (subst uart_wait.simps) (simp add: mmio_read_def Let_def)
  qed
qed simp

lemma uart_putc_returns:
  assumes "responsive dev (bit_of 5)"
  shows "\<exists>tr'. uart_putc dev b tr = Some tr'"
proof -
  obtain n where "busy_polls dev (bit_of 5) n tr" using assms by (auto simp: responsive_def)
  then obtain tr' where "uart_wait dev (bit_of 5) tr = Some tr'"
    using uart_wait_returns by blast
  then show ?thesis by (simp add: uart_putc_def)
qed

lemma uart_getc_returns:
  assumes "responsive dev (bit_of 4)"
  obtains b tr' where "uart_getc dev tr = Some (b, tr')"
proof -
  obtain n where "busy_polls dev (bit_of 4) n tr" using assms by (auto simp: responsive_def)
  then obtain tr' where "uart_wait dev (bit_of 4) tr = Some tr'" using uart_wait_returns by blast
  then show thesis using that by (simp add: uart_getc_def mmio_read_def Let_def)
qed

lemma received_uart_getc:
  "uart_getc dev tr = Some (b, tr') \<Longrightarrow> received tr' = received tr @ [b] \<and> sent tr' = sent tr"
  by (auto simp: uart_getc_def mmio_read_def Let_def dest!: uart_wait_reads split: option.splits)

text \<open>
  The contract of a byte sink: accepting a byte appends it to what has been sent.  The client
  lemma is about any sequence of bytes.
\<close>

locale byte_sink =
  fixes put_byte :: "u8 \<Rightarrow> 's \<Rightarrow> 's option"
    and put_bytes :: "u8 list \<Rightarrow> 's \<Rightarrow> 's option"
    and out :: "'s \<Rightarrow> u8 list"
  assumes put_byte_out: "put_byte b s = Some s' \<Longrightarrow> out s' = out s @ [b]"
    and put_bytes_Nil: "put_bytes [] s = Some s"
    and put_bytes_Cons: "put_bytes (b # bs) s = Option.bind (put_byte b s) (put_bytes bs)"
begin

lemma put_bytes_out: "put_bytes bs s = Some s' \<Longrightarrow> out s' = out s @ bs"
proof (induction bs arbitrary: s)
  case (Cons b bs)
  then obtain t where "put_byte b s = Some t" "put_bytes bs t = Some s'"
    by (auto simp: put_bytes_Cons bind_eq_Some_conv)
  then show ?case using Cons.IH [of t] put_byte_out [of b s t] by simp
qed (simp add: put_bytes_Nil)

lemma put_bytes_append: "put_bytes (bs @ cs) s = Option.bind (put_bytes bs s) (put_bytes cs)"
proof (induction bs arbitrary: s)
  case (Cons b bs)
  then show ?case by (cases "put_byte b s") (simp_all add: put_bytes_Cons)
qed (simp add: put_bytes_Nil)

lemma put_bytes_total: "(\<And>b s. \<exists>s'. put_byte b s = Some s') \<Longrightarrow> \<exists>s'. put_bytes bs s = Some s'"
proof (induction bs arbitrary: s)
  case (Cons b bs)
  then obtain t where "put_byte b s = Some t" by blast
  then show ?case using Cons.IH [OF Cons.prems, of t] by (simp add: put_bytes_Cons)
qed (simp add: put_bytes_Nil)

end

interpretation uart: byte_sink "uart_putc dev" "uart_send dev" sent for dev
proof
  fix b bs s s'
  show "uart_putc dev b s = Some s' \<Longrightarrow> sent s' = sent s @ [b]" by (rule sent_uart_putc)
  show "uart_send dev [] s = Some s" by simp
  show "uart_send dev (b # bs) s = Option.bind (uart_putc dev b s) (uart_send dev bs)"
    by (simp split: option.splits)
qed


subsection \<open>Reading the printed numbers back\<close>

definition hex_value :: "u8 \<Rightarrow> nat" where
  "hex_value b = (if b < 97 then unat b - 48 else unat b - 87)"

definition parse_hex :: "u8 list \<Rightarrow> nat" where
  "parse_hex bs = foldl (\<lambda>a b. 16 * a + hex_value b) 0 bs"

definition parse_dec :: "nat \<Rightarrow> u8 list \<Rightarrow> nat" where
  "parse_dec a bs = foldl (\<lambda>a b. 10 * a + (unat b - 48)) a bs"

lemma hex_value_hexnibble: "n < 16 \<Longrightarrow> hex_value (hexnibble_byte n) = unat n"
proof -
  assume "n < 16"
  then have "unat n < 16" by (simp add: word_less_nat_alt)
  then consider "unat n < 10" | "10 \<le> unat n" "unat n < 16" by linarith
  then show ?thesis
  proof cases
    case 1
    then have "unat (48 + n) = 48 + unat n" by (simp add: unat_word_ariths)
    then show ?thesis using 1
      by (simp add: hex_value_def hexnibble_byte_def word_less_nat_alt)
  next
    case 2
    have "n \<ge> 10" using 2 by (simp add: word_le_nat_alt)
    moreover have "unat (97 + n - 10) = 87 + unat n"
    proof -
      have "97 + n - 10 = 87 + n" by simp
      then show ?thesis using 2 by (simp add: unat_word_ariths)
    qed
    ultimately show ?thesis using 2
      by (simp add: hex_value_def hexnibble_byte_def word_less_nat_alt)
  qed
qed


lemma hex_digits:
  fixes X :: nat
  assumes "j \<le> n"
  shows "foldl (\<lambda>a i. 16 * a + X div 16 ^ (n - Suc i) mod 16) 0 [0..<j] = X div 16 ^ (n - j) mod 16 ^ j"
  using assms
proof (induction j)
  case (Suc j)
  define Y where "Y = X div 16 ^ (n - Suc j)"
  have "n - j = Suc (n - Suc j)" using Suc.prems by simp
  then have Y: "X div 16 ^ (n - j) = Y div 16"
    unfolding Y_def by (metis div_mult2_eq power_Suc2)
  have "16 * (Y div 16 mod 16 ^ j) + Y mod 16 = Y mod 16 ^ Suc j"
    by (simp add: mod_mult2_eq)
  then show ?case using Suc Y by (simp add: Y_def)
qed simp

lemma hex_digit_value:
  "hex_value (hexnibble_byte (ucast (drop_bit k x AND 0xf :: u32))) = unat x div 2 ^ k mod 16"
proof -
  have m: "(0xf :: u32) = mask 4" by (simp add: mask_eq_exp_minus_1)
  have u: "unat (drop_bit k x AND 0xf) = unat x div 2 ^ k mod 16"
    unfolding m unat_and_mask by (simp add: unat_drop_bit32)
  have "unat (ucast (drop_bit k x AND 0xf) :: u8) = unat (drop_bit k x AND 0xf)"
    using u by (simp add: unsigned_ucast_eq take_bit_nat_eq_self)
  then show ?thesis
    using u by (subst hex_value_hexnibble) (simp_all add: word_less_nat_alt)
qed

lemma foldl_map': "foldl f a (map g xs) = foldl (\<lambda>a x. f a (g x)) a xs"
  by (induction xs arbitrary: a) auto

lemma parse_puthex: "parse_hex (drop 2 (puthex_bytes x)) = unat x"
proof -
  have "parse_hex (drop 2 (puthex_bytes x))
      = foldl (\<lambda>a i. 16 * a + unat x div 16 ^ (8 - Suc i) mod 16) 0 [0..<8]"
    unfolding parse_hex_def puthex_bytes_def
    by (simp add: foldl_map' hex_digit_value hex_digit_value [of 0, simplified] unat_drop_bit32 upt_rec push_bit_eq_mult)
  also have "\<dots> = unat x div 16 ^ (8 - 8) mod 16 ^ 8" by (rule hex_digits) simp
  also have "\<dots> = unat x" by simp
  finally show ?thesis .
qed

lemma length_puthex: "length (puthex_bytes x) = 10"
  by (simp add: puthex_bytes_def)

lemma unat_pow10: "k < 10 \<Longrightarrow> unat (10 ^ k :: u32) = 10 ^ k"
proof -
  assume "k < 10"
  then have "k \<in> {0,1,2,3,4,5,6,7,8,9}" by auto
  then show ?thesis by auto
qed

lemma pow10_div10: "Suc k < 10 \<Longrightarrow> (10 ^ Suc k :: u32) div 10 = 10 ^ k"
proof -
  assume k: "Suc k < 10"
  have "unat ((10 ^ Suc k :: u32) div 10) = 10 ^ Suc k div 10"
    using unat_pow10 [OF k] by (simp add: unat_div32 del: power_Suc)
  then have "unat ((10 ^ Suc k :: u32) div 10) = unat (10 ^ k :: u32)"
    using unat_pow10 [of k] k by simp
  then show ?thesis by (simp only: word_eq_iff_unat32)
qed

lemma putdec_step:
  fixes x :: u32
  assumes "k < 10"
  shows "unat (x div 10 ^ k) = unat x div 10 ^ k"
    and "unat (x - x div 10 ^ k * 10 ^ k) = unat x mod 10 ^ k"
    and "(10 ^ k :: u32) > 0"
proof -
  show "unat (x div 10 ^ k) = unat x div 10 ^ k" using assms by (simp add: unat_div32 unat_pow10)
  have "x - x div 10 ^ k * 10 ^ k = x mod 10 ^ k" by (rule minus_div_mult_eq_mod)
  then show "unat (x - x div 10 ^ k * 10 ^ k) = unat x mod 10 ^ k"
    using assms by (simp add: unat_mod unat_pow10)
  show "(10 ^ k :: u32) > 0" using assms by (simp add: word_less_nat_alt unat_pow10)
qed

lemma digit_byte_value:
  "unat d < 10 \<Longrightarrow> unat (ucast (d :: u32) + of_char CHR ''0'' :: u8) - 48 = unat d"
proof -
  assume d: "unat d < 10"
  then have "unat (ucast d :: u8) = unat d" by (simp add: unsigned_ucast_eq take_bit_nat_eq_self)
  then have "unat (ucast d + 48 :: u8) = unat d + 48" using d by (simp add: unat_word_ariths)
  then show ?thesis by simp
qed


lemma putdec_loop_printed:
  "k < 10 \<Longrightarrow> unat x < 10 ^ Suc k \<Longrightarrow>
   parse_dec a (putdec_loop x (10 ^ k) True) = a * 10 ^ Suc k + unat x"
proof (induction k arbitrary: x a)
  case 0
  then show ?case
    using digit_byte_value [of x]
    by (simp add: putdec_loop.simps [of x 1] putdec_loop.simps [of _ 0] parse_dec_def Let_def)
next
  case (Suc k)
  define d where "d = x div 10 ^ Suc k"
  define x' where "x' = x - d * 10 ^ Suc k"
  have d: "unat d = unat x div 10 ^ Suc k" and x': "unat x' = unat x mod 10 ^ Suc k"
    and pos: "(10 ^ Suc k :: u32) > 0"
    unfolding d_def x'_def using putdec_step [OF Suc.prems(1)] by blast+
  have "unat d < 10"
    unfolding d using Suc.prems(2) by (simp add: less_mult_imp_div_less mult.commute)
  then have b: "unat (ucast d + of_char CHR ''0'' :: u8) - 48 = unat d" by (rule digit_byte_value)
  have "putdec_loop x (10 ^ Suc k) True
      = (ucast d + of_char CHR ''0'') # putdec_loop x' (10 ^ k) True"
    using pos pow10_div10 [OF Suc.prems(1)]
    by (subst putdec_loop.simps) (simp add: d_def x'_def Let_def del: power_Suc)
  then have "parse_dec a (putdec_loop x (10 ^ Suc k) True)
      = parse_dec (10 * a + unat d) (putdec_loop x' (10 ^ k) True)"
    using b by (simp add: parse_dec_def)
  also have "\<dots> = (10 * a + unat d) * 10 ^ Suc k + unat x'"
    using Suc.prems(1) x' by (intro Suc.IH) simp_all
  also have "\<dots> = a * 10 ^ Suc (Suc k) + unat x"
  proof -
    have "a * 10 ^ Suc (Suc k) + unat x
        = 10 * a * 10 ^ Suc k + (unat x div 10 ^ Suc k * 10 ^ Suc k + unat x mod 10 ^ Suc k)"
      by (simp only: div_mult_mod_eq) simp
    then show ?thesis unfolding d x' by (simp only: add_mult_distrib add.assoc)
  qed
  finally show ?case .
qed

lemma putdec_loop_unprinted:
  "k < 10 \<Longrightarrow> unat x < 10 ^ Suc k \<Longrightarrow>
   parse_dec 0 (putdec_loop x (10 ^ k) False) = unat x \<and>
   putdec_loop x (10 ^ k) False \<noteq> [] \<and>
   (x \<noteq> 0 \<longrightarrow> hd (putdec_loop x (10 ^ k) False) \<noteq> of_char CHR ''0'')"
proof (induction k arbitrary: x)
  case 0
  then show ?case
    using digit_byte_value [of x]
    by (auto simp: putdec_loop.simps [of x 1] putdec_loop.simps [of _ 0] parse_dec_def Let_def
        word_eq_iff_unat32)
next
  case (Suc k)
  define d where "d = x div 10 ^ Suc k"
  define x' where "x' = x - d * 10 ^ Suc k"
  have d: "unat d = unat x div 10 ^ Suc k" and x': "unat x' = unat x mod 10 ^ Suc k"
    and pos: "(10 ^ Suc k :: u32) > 0"
    unfolding d_def x'_def using putdec_step [OF Suc.prems(1)] by blast+
  have d10: "unat d < 10"
    unfolding d using Suc.prems(2) by (simp add: less_mult_imp_div_less mult.commute)
  show ?case
  proof (cases "d = 0")
    case True
    then have "x' = x" by (simp add: x'_def)
    moreover have "putdec_loop x (10 ^ Suc k) False = putdec_loop x' (10 ^ k) False"
      using pos pow10_div10 [OF Suc.prems(1)] True
      by (subst putdec_loop.simps) (simp add: d_def x'_def Let_def del: power_Suc)
    moreover have "unat x < 10 ^ Suc k"
      using True d by (simp add: div_eq_0_iff del: power_Suc)
    ultimately show ?thesis using Suc.IH [of x] Suc.prems(1) by simp
  next
    case False
    have eq: "putdec_loop x (10 ^ Suc k) False
        = (ucast d + of_char CHR ''0'') # putdec_loop x' (10 ^ k) True"
      using pos pow10_div10 [OF Suc.prems(1)] False
      by (subst putdec_loop.simps) (simp add: d_def x'_def Let_def del: power_Suc)
    have b: "unat (ucast d + of_char CHR ''0'' :: u8) - 48 = unat d" using d10 by (rule digit_byte_value)
    then have "parse_dec 0 (putdec_loop x (10 ^ Suc k) False)
        = parse_dec (unat d) (putdec_loop x' (10 ^ k) True)"
      unfolding eq by (simp add: parse_dec_def)
    also have "\<dots> = unat d * 10 ^ Suc k + unat x'"
      using Suc.prems(1) x' by (intro putdec_loop_printed) simp_all
    also have "\<dots> = unat x" unfolding d x' by (rule div_mult_mod_eq)
    finally have "parse_dec 0 (putdec_loop x (10 ^ Suc k) False) = unat x" .
    moreover have "ucast d + of_char CHR ''0'' \<noteq> (of_char CHR ''0'' :: u8)"
      using b False by (auto simp: word_eq_iff_unat32)
    ultimately show ?thesis unfolding eq by simp
  qed
qed

lemma putdec_correct:
  "parse_dec 0 (putdec_bytes x) = unat x"
  "x \<noteq> 0 \<Longrightarrow> hd (putdec_bytes x) \<noteq> of_char CHR ''0''"
proof -
  have lt: "unat x < 10 ^ Suc 9" using unat_lt32 [of x] by (simp del: unat_lt32_num)
  show "parse_dec 0 (putdec_bytes x) = unat x"
    "x \<noteq> 0 \<Longrightarrow> hd (putdec_bytes x) \<noteq> of_char CHR ''0''"
    using putdec_loop_unprinted [OF _ lt] by (simp_all add: putdec_bytes_def)
qed

lemma putdec_zero: "putdec_bytes 0 = [of_char CHR ''0'']"
  by (simp add: putdec_bytes_def putdec_loop.simps)

end
