(* ===== verification/Spinlock.thy ===== *)
theory Spinlock
  imports Prelude
begin

text \<open>
  \<^verbatim>\<open>src/src/spinlock.h\<close> and \<^verbatim>\<open>src/src/spinlock.cc\<close>: an atomic flag that \<open>acquire\<close> spins on and the
  destructor of the returned \<open>HeldLockDummy\<close> clears.  Contexts (the kernel and its exception
  handlers, or several cores) are numbered; a step is one atomic access to the flag by one of them.
\<close>

text \<open>\<open>std::atomic_flag::test_and_set\<close>: the old value, and the flag set.\<close>

definition test_and_set :: "bool \<Rightarrow> bool \<times> bool" where
  "test_and_set flag = (flag, True)"

definition clear :: "bool \<Rightarrow> bool" where
  "clear flag = False"

datatype lock_pc = Outside | Spinning | Holding

record lock_sys =
  flag :: bool
  lock_pcs :: "nat \<Rightarrow> lock_pc"

definition lock_init :: lock_sys where
  "lock_init = \<lparr>flag = False, lock_pcs = (\<lambda>_. Outside)\<rparr>"

text \<open>
  \<open>call\<close> enters \<open>acquire\<close>; \<open>attempt\<close> is one evaluation of the loop condition, which leaves the loop
  when the old value was clear; \<open>release\<close> is \<open>~HeldLockDummy\<close>.
\<close>

definition spin_once :: "lock_sys \<Rightarrow> nat \<Rightarrow> lock_sys" where
  "spin_once s i =
     (let (old, new) = test_and_set (flag s)
      in s\<lparr>flag := new, lock_pcs := (lock_pcs s)(i := if old then Spinning else Holding)\<rparr>)"

definition release_lock :: "lock_sys \<Rightarrow> nat \<Rightarrow> lock_sys" where
  "release_lock s i = s\<lparr>flag := clear (flag s), lock_pcs := (lock_pcs s)(i := Outside)\<rparr>"

inductive lock_step :: "lock_sys \<Rightarrow> lock_sys \<Rightarrow> bool" where
  call: "lock_pcs s i = Outside \<Longrightarrow> lock_step s (s\<lparr>lock_pcs := (lock_pcs s)(i := Spinning)\<rparr>)"
| attempt: "lock_pcs s i = Spinning \<Longrightarrow> lock_step s (spin_once s i)"
| release: "lock_pcs s i = Holding \<Longrightarrow> lock_step s (release_lock s i)"

inductive_cases lock_stepE: "lock_step s t"

inductive lock_reachable :: "lock_sys \<Rightarrow> bool" where
  init: "lock_reachable lock_init"
| step: "lock_reachable s \<Longrightarrow> lock_step s t \<Longrightarrow> lock_reachable t"

definition lock_inv :: "lock_sys \<Rightarrow> bool" where
  "lock_inv s \<longleftrightarrow> (\<forall>i j. lock_pcs s i = Holding \<longrightarrow> lock_pcs s j = Holding \<longrightarrow> i = j) \<and>
     (flag s \<longleftrightarrow> (\<exists>i. lock_pcs s i = Holding))"

lemma lock_inv_init: "lock_inv lock_init"
  by (simp add: lock_inv_def lock_init_def)

text \<open>A failed attempt changes nothing.\<close>

lemma spin_once_taken: "flag s \<Longrightarrow> lock_pcs s i = Spinning \<Longrightarrow> spin_once s i = s"
  by (simp add: spin_once_def test_and_set_def fun_upd_idem)

lemma lock_inv_attempt:
  assumes "lock_inv s" "lock_pcs s i = Spinning"
  shows "lock_inv (spin_once s i)"
proof (cases "flag s")
  case True
  then show ?thesis using assms by (simp add: spin_once_taken)
next
  case False
  then have "\<forall>j. lock_pcs s j \<noteq> Holding" using assms(1) by (auto simp: lock_inv_def)
  with False show ?thesis by (simp add: lock_inv_def spin_once_def test_and_set_def)
qed

lemma lock_inv_release: "lock_inv s \<Longrightarrow> lock_pcs s i = Holding \<Longrightarrow> lock_inv (release_lock s i)"
  by (auto simp: lock_inv_def release_lock_def clear_def)

lemma lock_inv_call:
  assumes "lock_inv s" "lock_pcs s i = Outside"
  shows "lock_inv (s\<lparr>lock_pcs := (lock_pcs s)(i := Spinning)\<rparr>)"
proof -
  have "((lock_pcs s)(i := Spinning)) j = Holding \<longleftrightarrow> lock_pcs s j = Holding" for j
    using assms(2) by simp
  then show ?thesis using assms(1) unfolding lock_inv_def by simp
qed

lemma lock_step_inv: "lock_step s t \<Longrightarrow> lock_inv s \<Longrightarrow> lock_inv t"
  by (auto elim!: lock_stepE intro: lock_inv_call lock_inv_attempt lock_inv_release)

lemma lock_reachable_inv: "lock_reachable s \<Longrightarrow> lock_inv s"
  by (induction rule: lock_reachable.induct) (auto intro: lock_inv_init lock_step_inv)

end
