(* ===== verification/Kernel.thy ===== *)
theory Kernel
  imports Uart Spinlock
begin

text \<open>
  The state the kernel objects share, and how an operation on it ends.  Panics are
  \<^verbatim>\<open>src/src/panic.h\<close> and \<^verbatim>\<open>src/src/panic.cc\<close>.  Operations are functions from the state to an outcome:
  a result with the new state, a panic, spinning forever, or undefined behaviour (the code would
  dereference an uninitialised pointer).  Diagnostics go to the console, here
  the list of bytes printed so far; theory \<open>Uart\<close> shows that sending bytes on a responsive device
  does put exactly these bytes on the line.
\<close>

subsection \<open>panic.h, panic.cc\<close>

datatype PanicCodes =
    OutOfMemory
  | InvalidParameter
  | IncompatibleParameter
  | AddRefToUnallocatedPage
  | ReleaseUnallocatedPage
  | TooManyReferences
  | NoMemory
  | NonZeroBase
  | AssertionFailure
  | PureVirtualFunctionCall
  | AllocationInNonReferenceCountedTable

fun panic_number :: "PanicCodes \<Rightarrow> u32" where
  "panic_number OutOfMemory = 0"
| "panic_number InvalidParameter = 1"
| "panic_number IncompatibleParameter = 2"
| "panic_number AddRefToUnallocatedPage = 3"
| "panic_number ReleaseUnallocatedPage = 4"
| "panic_number TooManyReferences = 5"
| "panic_number NoMemory = 6"
| "panic_number NonZeroBase = 7"
| "panic_number AssertionFailure = 8"
| "panic_number PureVirtualFunctionCall = 9"
| "panic_number AllocationInNonReferenceCountedTable = 10"

fun panic_msg :: "PanicCodes \<Rightarrow> string" where
  "panic_msg OutOfMemory = ''Out of memory''"
| "panic_msg InvalidParameter = ''Invalid parameter''"
| "panic_msg IncompatibleParameter = ''Incompatible parameter''"
| "panic_msg AddRefToUnallocatedPage = ''Attempted to add a reference to an unallocated page''"
| "panic_msg ReleaseUnallocatedPage = ''Attempted to release an unallocated page''"
| "panic_msg TooManyReferences = ''Attempted to exceed maximum reference count''"
| "panic_msg NoMemory = ''No memory ATAG found''"
| "panic_msg NonZeroBase = ''System RAM not based at address 0''"
| "panic_msg AssertionFailure = ''Assertion failure''"
| "panic_msg PureVirtualFunctionCall = ''Error calling pure virtual function''"
| "panic_msg AllocationInNonReferenceCountedTable =
     ''Allocation in non-reference-counted page table''"

definition bytes_of :: "string \<Rightarrow> u8 list" where
  "bytes_of str = map of_char str"

definition line_of :: "string \<Rightarrow> u8 list" where
  "line_of str = bytes_of str @ putline_bytes"

definition panic_bytes :: "PanicCodes \<Rightarrow> u8 list" where
  "panic_bytes code = line_of ''Kernel Panic'' @ puthex_bytes (panic_number code) @
     bytes_of '': '' @ line_of (panic_msg code)"

subsection \<open>Outcomes\<close>

datatype ('s, 'a) outcome =
    Ok 'a 's
  | Panic PanicCodes 's
  | Spin
  | Undef

fun bind_ok :: "('s, 'a) outcome \<Rightarrow> ('a \<Rightarrow> 's \<Rightarrow> ('s, 'b) outcome) \<Rightarrow> ('s, 'b) outcome" where
  "bind_ok (Ok r s) f = f r s"
| "bind_ok (Panic c s) f = Panic c s"
| "bind_ok Spin f = Spin"
| "bind_ok Undef f = Undef"

fun_cases bind_ok_OkE: "bind_ok m f = Ok r s"

lemma bind_ok_eq_Ok [outcome_simps]:
  "bind_ok m f = Ok r s \<longleftrightarrow> (\<exists>r' s'. m = Ok r' s' \<and> f r' s' = Ok r s)"
  by (cases m) auto

text \<open>\<open>for (x : xs) body(x)\<close>, where the body may end the run.\<close>

fun for_each :: "('i \<Rightarrow> 's \<Rightarrow> ('s, unit) outcome) \<Rightarrow> 'i list \<Rightarrow> 's \<Rightarrow> ('s, unit) outcome" where
  "for_each body [] s = Ok () s"
| "for_each body (x # xs) s = bind_ok (body x s) (\<lambda>_. for_each body xs)"

lemma for_each_append:
  "for_each body (xs @ ys) s = bind_ok (for_each body xs s) (\<lambda>_. for_each body ys)"
proof (induction xs arbitrary: s)
  case (Cons x xs)
  then show ?case by (cases "body x s") simp_all
qed simp

text \<open>An invariant of the body is an invariant of the loop.\<close>

lemma for_each_inv:
  assumes "for_each body xs s = Ok u s'" "P s"
    and "\<And>x s s'. x \<in> set xs \<Longrightarrow> P s \<Longrightarrow> body x s = Ok () s' \<Longrightarrow> P s'"
  shows "P s'"
  using assms
proof (induction xs arbitrary: s)
  case (Cons x xs)
  then obtain t where "body x s = Ok () t" "for_each body xs t = Ok u s'"
    by (auto simp: bind_ok_eq_Ok)
  then show ?case using Cons.IH [of t] Cons.prems(2,3) by (metis list.set_intros)
qed simp

text \<open>The same loop when the body may make the function return \<open>false\<close>.\<close>

fun while_ok :: "('i \<Rightarrow> 's \<Rightarrow> ('s, bool) outcome) \<Rightarrow> 'i list \<Rightarrow> 's \<Rightarrow> ('s, bool) outcome" where
  "while_ok body [] s = Ok True s"
| "while_ok body (x # xs) s =
     bind_ok (body x s) (\<lambda>success. if success then while_ok body xs else Ok False)"

lemma while_ok_append:
  "while_ok body (xs @ ys) s =
     bind_ok (while_ok body xs s) (\<lambda>success. if success then while_ok body ys else Ok False)"
proof (induction xs arbitrary: s)
  case (Cons x xs)
  then show ?case by (cases "body x s") simp_all
qed simp

subsection \<open>State\<close>

text \<open>
  \<open>class PageAlloc\<close>, with the four function-level statics of \<open>PageAlloc::alloc\<close>.  There is one
  allocator; every page table holds a reference to it.
\<close>

record page_allocator =
  refcount_table :: u32
  num_pages :: u32
  allocated_pages :: u32
  next_alloc_1 :: u32
  next_alloc_4 :: u32
  next_alloc_256 :: u32
  next_alloc_4096 :: u32

text \<open>The spinlock of the allocator, and the one of the page table rooted at an address.\<close>

datatype lock_id = PageAllocLock | PageTableLock u32

record kstate =
  mem :: memory
  console :: "u8 list"
  palloc :: page_allocator
  held :: "lock_id \<Rightarrow> bool"

definition emit :: "u8 list \<Rightarrow> kstate \<Rightarrow> kstate" where
  "emit bs s = s\<lparr>console := console s @ bs\<rparr>"

definition panic :: "PanicCodes \<Rightarrow> kstate \<Rightarrow> (kstate, 'a) outcome" where
  "panic code s = Panic code (emit (panic_bytes code) s)"

text \<open>\<open>__cxa_pure_virtual\<close> in \<^verbatim>\<open>src/src/utility.cc\<close>, which a call of a pure virtual function reaches.\<close>

definition cxa_pure_virtual :: "kstate \<Rightarrow> (kstate, unit) outcome" where
  "cxa_pure_virtual = panic PureVirtualFunctionCall"

lemma emit_simps [simp]:
  "mem (emit bs s) = mem s" "palloc (emit bs s) = palloc s" "held (emit bs s) = held s"
  "console (emit bs s) = console s @ bs"
  by (simp_all add: emit_def)

lemma panic_not_Ok [simp]: "panic c s \<noteq> Ok r s'" "Ok r s' \<noteq> panic c s" "panic c s \<noteq> Spin" "panic c s \<noteq> Undef"
  by (simp_all add: panic_def)

lemma bind_ok_panic [simp]: "bind_ok (panic c s) f = panic c s"
  by (simp add: panic_def)

text \<open>
  \<open>auto lock = spinlock_cs.acquire();\<close> to the end of the scope.  On one core nobody else clears a
  flag that is set, so acquiring a held lock spins forever; a panic never leaves the scope.
\<close>

definition with_lock ::
  "lock_id \<Rightarrow> (kstate \<Rightarrow> (kstate, 'a) outcome) \<Rightarrow> kstate \<Rightarrow> (kstate, 'a) outcome" where
  "with_lock l body s =
     (if held s l then Spin
      else bind_ok (body (s\<lparr>held := (held s)(l := True)\<rparr>))
             (\<lambda>r s'. Ok r (s'\<lparr>held := (held s')(l := False)\<rparr>)))"

lemma with_lock_free [outcome_simps]:
  "\<not> held s l \<Longrightarrow> with_lock l body s =
     bind_ok (body (s\<lparr>held := (held s)(l := True)\<rparr>)) (\<lambda>r s'. Ok r (s'\<lparr>held := (held s')(l := False)\<rparr>))"
  by (simp add: with_lock_def)

lemma with_lock_Ok:
  "with_lock l body s = Ok r s' \<longleftrightarrow>
   \<not> held s l \<and> (\<exists>t. body (s\<lparr>held := (held s)(l := True)\<rparr>) = Ok r t \<and>
      s' = t\<lparr>held := (held t)(l := False)\<rparr>)"
  by (auto simp: with_lock_def bind_ok_eq_Ok)

end
