(* ===== verification/Page_Alloc.thy ===== *)
theory Page_Alloc
  imports Kernel
begin

unbundle bit_operations_syntax

text \<open>
  \<^verbatim>\<open>src/src/page_alloc.h\<close> and \<^verbatim>\<open>src/src/page_alloc.cc\<close>: the physical page allocator.  A table of
  8-bit reference counts, one per page of RAM, lies in memory right after the loaded image; the
  object holds its address, the number of pages and a running count of used pages.
\<close>

subsection \<open>The table\<close>

definition refcount :: "kstate \<Rightarrow> u32 \<Rightarrow> u8" where
  "refcount s p = load8 (mem s) (refcount_table (palloc s) + p)"

definition set_refcount :: "u32 \<Rightarrow> u8 \<Rightarrow> kstate \<Rightarrow> kstate" where
  "set_refcount p v s = s\<lparr>mem := store8 (refcount_table (palloc s) + p) v (mem s)\<rparr>"

definition add_allocated :: "u32 \<Rightarrow> kstate \<Rightarrow> kstate" where
  "add_allocated k s = s\<lparr>palloc := (palloc s)\<lparr>allocated_pages := allocated_pages (palloc s) + k\<rparr>\<rparr>"

subsection \<open>Construction\<close>

definition init_entry :: "u32 \<Rightarrow> nat \<Rightarrow> kstate \<Rightarrow> kstate" where
  "init_entry first_free_page i s =
     (if of_nat i < first_free_page then add_allocated 1 (set_refcount (of_nat i) 1 s)
      else set_refcount (of_nat i) 0 s)"

text \<open>The constructor up to its loop: the members, and the progress it reports.\<close>

definition pages_used_for_table :: "u32 \<Rightarrow> u32" where
  "pages_used_for_table n = (n * 1 + PAGE_SIZE - 1) div PAGE_SIZE"

definition init_members :: "u32 \<Rightarrow> u32 \<Rightarrow> kstate \<Rightarrow> kstate" where
  "init_members total_memory table_location s0 =
    (let s = emit (line_of ''Initialising page allocator'') s0;
         s = s\<lparr>palloc := (palloc s)\<lparr>refcount_table := table_location, allocated_pages := 0\<rparr>,
               held := (held s)(PageAllocLock := False)\<rparr>;
         s = emit (bytes_of ''refcount_table = '' @ puthex_bytes table_location @ putline_bytes) s;
         n = total_memory div PAGE_SIZE;
         s = s\<lparr>palloc := (palloc s)\<lparr>num_pages := n\<rparr>\<rparr>;
         s = emit (bytes_of ''num_pages = '' @ puthex_bytes n @ putline_bytes) s
     in emit (bytes_of ''pages_used_for_table = '' @ puthex_bytes (pages_used_for_table n)
           @ putline_bytes) s)"

definition PageAlloc :: "u32 \<Rightarrow> u32 \<Rightarrow> kstate \<Rightarrow> kstate" where
  "PageAlloc total_memory table_location s0 =
    (let s = init_members total_memory table_location s0;
         n = num_pages (palloc s);
         first_free_page = table_location div PAGE_SIZE + pages_used_for_table n;
         s = fold (init_entry first_free_page) [0..<unat n] s
     in emit (bytes_of ''allocated_pages = '' @ puthex_bytes (allocated_pages (palloc s))
           @ putline_bytes @ putline_bytes) s)"

subsection \<open>Statistics\<close>

record MemStats =
  totalmem :: u32
  freemem :: u32
  usedmem :: u32

definition get_mem_stats :: "kstate \<Rightarrow> (kstate, MemStats) outcome" where
  "get_mem_stats = with_lock PageAllocLock (\<lambda>s.
     (let ram = num_pages (palloc s) * PAGE_SIZE;
          used = allocated_pages (palloc s) * PAGE_SIZE
      in Ok \<lparr>totalmem = ram, freemem = ram - used, usedmem = used\<rparr> s))"

subsection \<open>Allocation\<close>

definition next_alloc :: "u32 \<Rightarrow> page_allocator \<Rightarrow> u32" where
  "next_alloc sz pa = (if sz = 1 then next_alloc_1 pa else if sz = 4 then next_alloc_4 pa
     else if sz = 256 then next_alloc_256 pa else next_alloc_4096 pa)"

definition set_next_alloc :: "u32 \<Rightarrow> u32 \<Rightarrow> kstate \<Rightarrow> kstate" where
  "set_next_alloc sz entry s =
     s\<lparr>palloc := (if sz = 1 then (palloc s)\<lparr>next_alloc_1 := entry\<rparr>
        else if sz = 4 then (palloc s)\<lparr>next_alloc_4 := entry\<rparr>
        else if sz = 256 then (palloc s)\<lparr>next_alloc_256 := entry\<rparr>
        else (palloc s)\<lparr>next_alloc_4096 := entry\<rparr>)\<rparr>"

definition all_refcounts_zero :: "kstate \<Rightarrow> u32 \<Rightarrow> u32 \<Rightarrow> bool" where
  "all_refcounts_zero s entry sz = list_all (\<lambda>i. refcount s (entry + of_nat i) = 0) [0..<unat sz]"

definition claim :: "u32 \<Rightarrow> u32 \<Rightarrow> kstate \<Rightarrow> kstate" where
  "claim entry sz s =
     add_allocated sz (fold (\<lambda>i. set_refcount (entry + of_nat i) 1) [0..<unat sz] s)"

text \<open>
  The scan.  The check \<open>entry == next_alloc\<close> comes before the loop condition, and the loop goes on
  while \<open>retval\<close> is 0, so also after claiming a block at page 0.  \<open>None\<close>: the loop does not end.
\<close>

partial_function (option) alloc_loop ::
  "u32 \<Rightarrow> u32 \<Rightarrow> u32 \<Rightarrow> kstate \<Rightarrow> (kstate, u32 \<times> u32) outcome option" where
  "alloc_loop sz start entry s =
    (let free = all_refcounts_zero s entry sz;
         s1 = if free then claim entry sz s else s;
         retval = if free then entry * PAGE_SIZE else 0;
         entry1 = entry + sz;
         entry2 = if entry1 \<ge> num_pages (palloc s) then entry1 - num_pages (palloc s) else entry1
     in if entry2 = start then Some (panic OutOfMemory s1)
        else if retval = 0 then alloc_loop sz start entry2 s1
        else Some (Ok (retval, entry2) s1))"

definition alloc_locked :: "u32 \<Rightarrow> kstate \<Rightarrow> (kstate, u32) outcome" where
  "alloc_locked sz s =
     (case alloc_loop sz (next_alloc sz (palloc s)) (next_alloc sz (palloc s)) s of
        None \<Rightarrow> Spin
      | Some r \<Rightarrow> bind_ok r (\<lambda>(retval, entry) s.
          (let s = set_next_alloc sz entry s
           in Ok retval (s\<lparr>mem := memset retval 0xcc PAGE_SIZE (mem s)\<rparr>))))"

definition alloc :: "u32 \<Rightarrow> kstate \<Rightarrow> (kstate, u32) outcome" where
  "alloc sz s =
     (if sz \<noteq> 1 \<and> sz \<noteq> 4 \<and> sz \<noteq> 256 \<and> sz \<noteq> 4096 then panic IncompatibleParameter s
      else with_lock PageAllocLock (alloc_locked sz) s)"

subsection \<open>Reference counts\<close>

definition ref_acquire :: "u32 \<Rightarrow> kstate \<Rightarrow> (kstate, u32) outcome" where
  "ref_acquire page = with_lock PageAllocLock (\<lambda>s.
     (let page_ix = page div PAGE_SIZE
      in if page_ix > num_pages (palloc s) then Ok 0 s
         else if refcount s page_ix = 0 then panic AddRefToUnallocatedPage s
         else (let v = refcount s page_ix + 1 in Ok (ucast v) (set_refcount page_ix v s))))"

definition ref_release :: "u32 \<Rightarrow> kstate \<Rightarrow> (kstate, u32) outcome" where
  "ref_release page = with_lock PageAllocLock (\<lambda>s.
     (let page_ix = page div PAGE_SIZE
      in if page_ix > num_pages (palloc s) then Ok 0 s
         else if refcount s page_ix = 0 then panic ReleaseUnallocatedPage s
         else (let v = refcount s page_ix - 1;
                   s1 = set_refcount page_ix v s
               in Ok (ucast v) (if v = 0 then add_allocated (- 1) s1 else s1))))"

definition ref_acquire_range :: "u32 \<Rightarrow> u32 \<Rightarrow> kstate \<Rightarrow> (kstate, unit) outcome" where
  "ref_acquire_range page sz =
     for_each (\<lambda>i s. bind_ok (ref_acquire (page + of_nat i * PAGE_SIZE) s) (\<lambda>_. Ok ())) [0..<unat sz]"

definition ref_release_range :: "u32 \<Rightarrow> u32 \<Rightarrow> kstate \<Rightarrow> (kstate, unit) outcome" where
  "ref_release_range page sz =
     for_each (\<lambda>i s. bind_ok (ref_release (page + of_nat i * PAGE_SIZE) s) (\<lambda>_. Ok ())) [0..<unat sz]"

end
