(* ===== verification/Page_Table.thy ===== *)
theory Page_Table
  imports Page_Alloc
begin

unbundle bit_operations_syntax

text \<open>
  \<^verbatim>\<open>src/src/pagetable.h\<close> and \<^verbatim>\<open>src/src/pagetable.cc\<close>: ARMv6 two-level page tables, built in
  physical memory and reached through identity-mapped pointers.  A descriptor is a 32-bit word; of
  the "translation fault" descriptors (low bits 00), bit 2 tells a reserved unit from a free one.
\<close>

datatype AllocationGranularity = GPage | GSection | GSupersection

datatype UnitState = UFree | UReserved | UCommitted

text \<open>
  The object.  Its members never change after construction; its spinlock is
  \<open>PageTableLock\<close> of the table's address.
\<close>

record PageTable =
  first_level_table :: u32
  first_level_num_entries :: u32
  reference_counted :: bool

abbreviation FIRST_LEVEL_SUPERVISOR_ENTRIES :: u32 where
  "FIRST_LEVEL_SUPERVISOR_ENTRIES \<equiv> 0x1000"

abbreviation FIRST_LEVEL_USER_ENTRIES :: u32 where
  "FIRST_LEVEL_USER_ENTRIES \<equiv> 0x800"

abbreviation SECOND_LEVEL_ENTRIES :: u32 where
  "SECOND_LEVEL_ENTRIES \<equiv> 0x100"

definition SUPERVISOR_DOMAIN :: u32 where
  [simp]: "SUPERVISOR_DOMAIN = 0"

definition get_allocation_pages :: "AllocationGranularity \<Rightarrow> u32" where
  "get_allocation_pages g = (case g of GPage \<Rightarrow> 1 | GSection \<Rightarrow> 256 | GSupersection \<Rightarrow> 4096)"

definition get_num_allocation_units :: "u32 \<Rightarrow> AllocationGranularity \<Rightarrow> u32" where
  "get_num_allocation_units bytes g =
    (case g of
       GPage \<Rightarrow> bytes div PAGE_SIZE + (if bytes AND (PAGE_SIZE - 1) \<noteq> 0 then 1 else 0)
     | GSection \<Rightarrow> bytes div SECTION_SIZE + (if bytes AND (SECTION_SIZE - 1) \<noteq> 0 then 1 else 0)
     | GSupersection \<Rightarrow>
         bytes div SUPERSECTION_SIZE + (if bytes AND (SUPERSECTION_SIZE - 1) \<noteq> 0 then 1 else 0))"

subsection \<open>Memory access\<close>

definition ld :: "kstate \<Rightarrow> u32 \<Rightarrow> u32" where
  "ld s a = load32 (mem s) a"

definition st :: "u32 \<Rightarrow> u32 \<Rightarrow> kstate \<Rightarrow> kstate" where
  "st a v s = s\<lparr>mem := store32 a v (mem s)\<rparr>"

definition fill :: "u32 \<Rightarrow> nat \<Rightarrow> nat \<Rightarrow> u32 \<Rightarrow> kstate \<Rightarrow> kstate" where
  "fill base a b v s = s\<lparr>mem := fill_words base a b v (mem s)\<rparr>"

definition get_first_level_table_address :: "PageTable \<Rightarrow> u32" where
  "get_first_level_table_address pt = first_level_table pt"

definition get_second_level_table_address :: "u32 \<Rightarrow> u32" where
  "get_second_level_table_address physical_base_address = physical_base_address"

definition pt_lock :: "PageTable \<Rightarrow> lock_id" where
  "pt_lock pt = PageTableLock (first_level_table pt)"

subsection \<open>Construction and destruction\<close>

definition construct :: "bool \<Rightarrow> bool \<Rightarrow> kstate \<Rightarrow> (kstate, PageTable) outcome" where
  "construct is_supervisor is_reference_counted s0 =
     bind_ok (alloc 4 s0) (\<lambda>table s.
       let n = (if is_supervisor then FIRST_LEVEL_SUPERVISOR_ENTRIES else FIRST_LEVEL_USER_ENTRIES);
           s = s\<lparr>held := (held s)(PageTableLock table := False)\<rparr>
       in Ok \<lparr>first_level_table = table, first_level_num_entries = n,
              reference_counted = is_reference_counted\<rparr> (fill table 0 (unat n) 0 s))"

definition create_second_level_table :: "kstate \<Rightarrow> (kstate, u32) outcome" where
  "create_second_level_table s0 =
     bind_ok (alloc 1 s0) (\<lambda>table s. Ok table (fill table 0 (unat SECOND_LEVEL_ENTRIES) 0 s))"

definition release :: "u32 \<Rightarrow> kstate \<Rightarrow> (kstate, unit) outcome" where
  "release page s = bind_ok (ref_release page s) (\<lambda>_. Ok ())"

definition destroy_page :: "PageTable \<Rightarrow> u32 \<Rightarrow> nat \<Rightarrow> kstate \<Rightarrow> (kstate, unit) outcome" where
  "destroy_page pt second_level_table j s =
     (let e = ld s (slot second_level_table j)
      in if e AND 0x2 \<noteq> 0
         then (if reference_counted pt then release (e AND 0xfffff000) s else Ok () s)
         else Ok () s)"

definition destroy_section :: "PageTable \<Rightarrow> nat \<Rightarrow> kstate \<Rightarrow> (kstate, unit) outcome" where
  "destroy_section pt i s =
     (let e = ld s (slot (get_first_level_table_address pt) i)
      in if e AND 0x3 = 0x1 then
           (let t = get_second_level_table_address (e AND 0xfffffc00)
            in bind_ok (for_each (destroy_page pt t) [0..<unat SECOND_LEVEL_ENTRIES] s)
                 (\<lambda>_. release t))
         else if e AND 0x3 = 0x2 then
           (let physical_address =
              (if e AND 0x00040000 \<noteq> 0
               then (e AND 0xff000000) OR (push_bit 20 (of_nat i) AND 0x00f00000)
               else e AND 0xfff00000)
            in if reference_counted pt
               then ref_release_range physical_address SECOND_LEVEL_ENTRIES s else Ok () s)
         else Ok () s)"

definition destroy :: "PageTable \<Rightarrow> kstate \<Rightarrow> (kstate, unit) outcome" where
  "destroy pt s =
     bind_ok (for_each (destroy_section pt) [0..<unat (first_level_num_entries pt)] s)
       (\<lambda>_. for_each (\<lambda>i. release (get_first_level_table_address pt + of_nat i * 0x1000)) [0..<4])"

subsection \<open>Descriptors\<close>

definition get_page_descriptor :: "PageTable \<Rightarrow> u32 \<Rightarrow> kstate \<Rightarrow> u32 Result" where
  "get_page_descriptor pt virtual_address s =
     (let first_level_index = drop_bit 20 virtual_address
      in if first_level_index \<ge> first_level_num_entries pt then Failure
         else (let first_level_entry =
                 ld s (slot (get_first_level_table_address pt) (unat first_level_index))
               in if first_level_entry AND 0x3 = 1 then
                    (let second_level_table =
                       get_second_level_table_address (first_level_entry AND 0xfffffc00);
                         second_level_index = drop_bit 12 virtual_address AND 0xff
                     in Success (slot second_level_table (unat second_level_index)))
                  else Failure))"

definition get_section_descriptor :: "PageTable \<Rightarrow> u32 \<Rightarrow> bool \<Rightarrow> kstate \<Rightarrow> u32 Result" where
  "get_section_descriptor pt virtual_address allow_second_level s =
     (let first_level_index = drop_bit 20 virtual_address
      in if first_level_index \<ge> first_level_num_entries pt then Failure
         else (let entry = slot (get_first_level_table_address pt) (unat first_level_index)
               in if ld s entry AND 0x3 = 1 \<and> \<not> allow_second_level then Failure
                  else Success entry))"

subsection \<open>Reservation anywhere\<close>

text \<open>
  The search all three granularities share: count contiguous free units, stop at the unit where
  the count equals the number wanted.
\<close>

fun find_run :: "('i \<Rightarrow> bool) \<Rightarrow> u32 \<Rightarrow> 'i list \<Rightarrow> u32 \<Rightarrow> 'i option" where
  "find_run free num [] count = None"
| "find_run free num (i # is) count =
     (let count' = (if free i then count + 1 else 0)
      in if count' = num then Some i else find_run free num is count')"

text \<open>The first success of a loop that returns at it.\<close>

fun first_success :: "('i \<Rightarrow> 'a Result) \<Rightarrow> 'i list \<Rightarrow> 'a Result" where
  "first_success f [] = Failure"
| "first_success f (i # is) = (case f i of Success v \<Rightarrow> Success v | Failure \<Rightarrow> first_success f is)"

definition find_pages :: "PageTable \<Rightarrow> u32 \<Rightarrow> kstate \<Rightarrow> nat \<Rightarrow> (nat \<times> u32 \<times> nat) Result" where
  "find_pages pt num s i =
     (let first_level_entry = ld s (slot (get_first_level_table_address pt) i)
      in if first_level_entry AND 0x3 = 1 then
           (let t = get_second_level_table_address (first_level_entry AND 0xfffffc00)
            in case find_run (\<lambda>j. ld s (slot t j) AND 0x7 = 0) num [0..<unat SECOND_LEVEL_ENTRIES] 0 of
                 Some j \<Rightarrow> Success (i, t, j) | None \<Rightarrow> Failure)
         else Failure)"

definition reserve_pages :: "PageTable \<Rightarrow> u32 \<Rightarrow> kstate \<Rightarrow> (kstate, u32 Result) outcome" where
  "reserve_pages pt num s =
     (let fl = get_first_level_table_address pt;
          is = [0..<unat (first_level_num_entries pt)]
      in case first_success (find_pages pt num s) is of
           Success (i, t, j) \<Rightarrow>
             (let start_index = of_nat j - num + 1
              in Ok (Success (of_nat i * SECTION_SIZE + start_index * PAGE_SIZE))
                   (fill t (unat start_index) (unat (start_index + num)) 0x00000004 s))
         | Failure \<Rightarrow>
             (case find (\<lambda>i. ld s (slot fl i) AND 0x7 = 0) is of
                Some i \<Rightarrow>
                  bind_ok (create_second_level_table s) (\<lambda>table s.
                    let t = get_second_level_table_address table;
                        s = st (slot fl i) (t OR 0x1 OR push_bit 5 SUPERVISOR_DOMAIN) s
                    in Ok (Success (of_nat i * SECTION_SIZE)) (fill t 0 (unat num) 0x00000004 s))
              | None \<Rightarrow> Ok Failure s))"

definition reserve_sections :: "PageTable \<Rightarrow> u32 \<Rightarrow> kstate \<Rightarrow> (kstate, u32 Result) outcome" where
  "reserve_sections pt num s =
     (let fl = get_first_level_table_address pt
      in case find_run (\<lambda>i. ld s (slot fl i) AND 0x7 = 0) num
             [0..<unat (first_level_num_entries pt)] 0 of
           Some i \<Rightarrow>
             (let start_index = of_nat i - num + 1
              in Ok (Success (start_index * SECTION_SIZE))
                   (fill fl (unat start_index) (unat (start_index + num)) 0x00000004 s))
         | None \<Rightarrow> Ok Failure s)"

definition reserve_supersections :: "PageTable \<Rightarrow> u32 \<Rightarrow> kstate \<Rightarrow> (kstate, u32 Result) outcome" where
  "reserve_supersections pt num s =
     (let fl = get_first_level_table_address pt
      in case find_run (\<lambda>i. list_all (\<lambda>j. ld s (slot fl (i + j)) AND 0x7 = 0) [0..<16]) num
             (map ((*) 16) [0..<(unat (first_level_num_entries pt) + 15) div 16]) 0 of
           Some i \<Rightarrow>
             (let start_index = of_nat i - 16 * (num - 1)
              in Ok (Success (start_index * SECTION_SIZE))
                   (fill fl (unat start_index) (unat (start_index + num * 16)) 0x00000004 s))
         | None \<Rightarrow> Ok Failure s)"


subsection \<open>Reservation at an address\<close>

text \<open>
  Both loops of \<open>reserve_pages\<close> walk the request section by section: the (base, count) pairs they
  visit depend on the request alone.  The first chunk may be short; after it the base is
  section-aligned and a whole section fits, so the walk ends.
\<close>

definition pages_in_rest_of_section :: "u32 \<Rightarrow> u32" where
  "pages_in_rest_of_section base = ((base AND 0xfff00000) - base + SECTION_SIZE) div PAGE_SIZE"

definition next_section :: "u32 \<Rightarrow> u32" where
  "next_section base = (base AND 0xfff00000) + SECTION_SIZE"

lemma aligned_next_section: "aligned 20 (next_section base)"
  unfolding next_section_def not_masks
  by (intro aligned_add aligned_and_not_mask) (simp_all add: aligned_def)

lemma pages_in_aligned: "aligned 20 base \<Longrightarrow> pages_in_rest_of_section base = 256"
  by (simp add: pages_in_rest_of_section_def not_masks aligned_and_id)

function section_chunks :: "u32 \<Rightarrow> u32 \<Rightarrow> (u32 \<times> u32) list" where
  "section_chunks base num =
     (if num > 0 then
        (let pages = min num (pages_in_rest_of_section base)
         in (base, pages) # section_chunks (next_section base) (num - pages))
      else [])"
  by pat_completeness auto
termination
proof (relation "measure (\<lambda>(b, n). 2 * unat n + (if aligned 20 b then 0 else 1))", goal_cases)
  case (2 b n p)
  have le: "unat (n - min n (pages_in_rest_of_section b)) \<le> unat n"
    by (simp add: unat_sub min_def)
  show ?case
  proof (cases "aligned 20 b")
    case True
    then have "unat (n - min n (pages_in_rest_of_section b)) < unat n"
      using 2 by (simp add: pages_in_aligned unat_sub min_def word_less_nat_alt)
    then show ?thesis using 2 True by (simp add: aligned_next_section)
  next
    case False
    then show ?thesis using 2 le by (simp add: aligned_next_section)
  qed
qed simp

declare section_chunks.simps [simp del]

definition check_section_partially_reservable :: "PageTable \<Rightarrow> u32 \<Rightarrow> u32 \<Rightarrow> kstate \<Rightarrow> bool" where
  "check_section_partially_reservable pt base num s =
     (case get_section_descriptor pt base True s of
        Failure \<Rightarrow> False
      | Success d \<Rightarrow>
          if ld s d AND 0x7 = 0 then True
          else if ld s d AND 0x3 = 1 then
            list_all (\<lambda>i. case get_page_descriptor pt (base + of_nat i * PAGE_SIZE) s of
                Failure \<Rightarrow> False | Success p \<Rightarrow> ld s p AND 0x7 = 0) [0..<unat num]
          else False)"

text \<open>
  No checks are made here: without a descriptor the code dereferences an uninitialised pointer.
\<close>

definition reserve_pages_from_section ::
  "PageTable \<Rightarrow> u32 \<Rightarrow> u32 \<Rightarrow> kstate \<Rightarrow> (kstate, unit) outcome" where
  "reserve_pages_from_section pt base num s0 =
     (case get_section_descriptor pt base True s0 of
        Failure \<Rightarrow> Undef
      | Success d \<Rightarrow>
          bind_ok
            (if ld s0 d AND 0x7 = 0 then
               bind_ok (create_second_level_table s0) (\<lambda>new_table s.
                 Ok (get_second_level_table_address new_table)
                    (st d (new_table OR 0x1 OR push_bit 5 SUPERVISOR_DOMAIN) s))
             else Ok (get_second_level_table_address (ld s0 d AND 0xfffffc00)) s0)
            (\<lambda>t s. let start_index = drop_bit 12 (base AND 0x000ff000)
                   in Ok () (fill t (unat start_index) (unat start_index + unat num) 0x00000004 s)))"

definition reserve_pages_at :: "PageTable \<Rightarrow> u32 \<Rightarrow> u32 \<Rightarrow> kstate \<Rightarrow> (kstate, u32 Result) outcome" where
  "reserve_pages_at pt base0 num s =
     (let base = base0 AND 0xfffff000;
          chunks = section_chunks base num
      in if \<not> list_all (\<lambda>(b, n). check_section_partially_reservable pt b n s) chunks
         then Ok Failure s
         else bind_ok (for_each (\<lambda>(b, n). reserve_pages_from_section pt b n) chunks s)
                (\<lambda>_. Ok (Success base)))"

text \<open>The two loops \<open>reserve_sections\<close> and \<open>reserve_supersections\<close> share, over \<open>n\<close> sections.\<close>

definition sections_free :: "PageTable \<Rightarrow> u32 \<Rightarrow> u32 \<Rightarrow> kstate \<Rightarrow> bool" where
  "sections_free pt base n s =
     list_all (\<lambda>i. case get_section_descriptor pt (base + of_nat i * SECTION_SIZE) False s of
         Failure \<Rightarrow> False | Success d \<Rightarrow> ld s d AND 0x7 = 0) [0..<unat n]"

definition mark_sections :: "PageTable \<Rightarrow> u32 \<Rightarrow> u32 \<Rightarrow> kstate \<Rightarrow> (kstate, unit) outcome" where
  "mark_sections pt base n =
     for_each (\<lambda>i s. case get_section_descriptor pt (base + of_nat i * SECTION_SIZE) False s of
         Failure \<Rightarrow> Undef | Success d \<Rightarrow> Ok () (st d 0x00000004 s)) [0..<unat n]"

definition reserve_sections_at :: "PageTable \<Rightarrow> u32 \<Rightarrow> u32 \<Rightarrow> kstate \<Rightarrow> (kstate, u32 Result) outcome" where
  "reserve_sections_at pt base0 num s =
     (let base = base0 AND 0xfff00000
      in if \<not> sections_free pt base num s then Ok Failure s
         else bind_ok (mark_sections pt base num s) (\<lambda>_. Ok (Success base)))"

definition reserve_supersections_at ::
  "PageTable \<Rightarrow> u32 \<Rightarrow> u32 \<Rightarrow> kstate \<Rightarrow> (kstate, u32 Result) outcome" where
  "reserve_supersections_at pt base0 num s =
     (let base = base0 AND 0xff000000
      in if \<not> sections_free pt base (num * 16) s then Ok Failure s
         else bind_ok (mark_sections pt base (num * 16) s) (\<lambda>_. Ok (Success base)))"

definition reserve :: "PageTable \<Rightarrow> u32 \<Rightarrow> AllocationGranularity \<Rightarrow> kstate \<Rightarrow> (kstate, u32 Result) outcome" where
  "reserve pt units g = with_lock (pt_lock pt)
     (case g of GPage \<Rightarrow> reserve_pages pt units | GSection \<Rightarrow> reserve_sections pt units
      | GSupersection \<Rightarrow> reserve_supersections pt units)"

definition reserve_at ::
  "PageTable \<Rightarrow> u32 \<Rightarrow> u32 \<Rightarrow> AllocationGranularity \<Rightarrow> kstate \<Rightarrow> (kstate, u32 Result) outcome" where
  "reserve_at pt address units g = with_lock (pt_lock pt)
     (case g of GPage \<Rightarrow> reserve_pages_at pt address units
      | GSection \<Rightarrow> reserve_sections_at pt address units
      | GSupersection \<Rightarrow> reserve_supersections_at pt address units)"

subsection \<open>Committing\<close>

definition commit_page :: "PageTable \<Rightarrow> u32 \<Rightarrow> u32 \<Rightarrow> kstate \<Rightarrow> bool \<times> kstate" where
  "commit_page pt va pa s =
     (let virtual_address = va AND 0xfffff000; physical_address = pa AND 0xfffff000
      in case get_page_descriptor pt virtual_address s of
           Failure \<Rightarrow> (False, s)
         | Success d \<Rightarrow>
             if ld s d AND 0x7 = 0x4 then (True, st d (physical_address OR 0x00000002) s)
             else (False, s))"

definition commit_section :: "PageTable \<Rightarrow> u32 \<Rightarrow> u32 \<Rightarrow> kstate \<Rightarrow> bool \<times> kstate" where
  "commit_section pt va pa s =
     (let virtual_address = va AND 0xfff00000; physical_address = pa AND 0xfff00000
      in case get_section_descriptor pt virtual_address False s of
           Failure \<Rightarrow> (False, s)
         | Success d \<Rightarrow>
             if ld s d AND 0x7 = 0x4 then (True, st d (physical_address OR 0x00000002) s)
             else (False, s))"

definition commit_supersection :: "PageTable \<Rightarrow> u32 \<Rightarrow> u32 \<Rightarrow> kstate \<Rightarrow> bool \<times> kstate" where
  "commit_supersection pt va pa s =
     (let virtual_address = va AND 0xff000000; physical_address = pa AND 0xff000000
      in case get_section_descriptor pt virtual_address False s of
           Failure \<Rightarrow> (False, s)
         | Success d \<Rightarrow>
             if list_all (\<lambda>i. ld s (slot d i) AND 0x07 = 0x04) [0..<16]
             then (True, fill d 0 16 (physical_address OR 0x00040002) s)
             else (False, s))"

definition commit :: "PageTable \<Rightarrow> AllocationGranularity \<Rightarrow> u32 \<Rightarrow> u32 \<Rightarrow> kstate \<Rightarrow> bool \<times> kstate" where
  "commit pt g = (case g of GPage \<Rightarrow> commit_page pt | GSection \<Rightarrow> commit_section pt
     | GSupersection \<Rightarrow> commit_supersection pt)"


subsection \<open>Allocating and mapping\<close>

definition allocate_unit ::
  "PageTable \<Rightarrow> u32 \<Rightarrow> AllocationGranularity \<Rightarrow> nat \<Rightarrow> kstate \<Rightarrow> (kstate, bool) outcome" where
  "allocate_unit pt virtual_address g i s0 =
     bind_ok (alloc (get_allocation_pages g) s0) (\<lambda>physical_address s.
       let map_address = virtual_address + of_nat i * get_allocation_pages g * PAGE_SIZE
       in case commit pt g map_address physical_address s of
            (True, s) \<Rightarrow> Ok True s
          | (False, s) \<Rightarrow>
              bind_ok (ref_release_range physical_address (get_allocation_pages g)
                         (emit (line_of ''failure'') s))
                (\<lambda>_. Ok False))"

definition allocate ::
  "PageTable \<Rightarrow> u32 \<Rightarrow> u32 \<Rightarrow> AllocationGranularity \<Rightarrow> kstate \<Rightarrow> (kstate, bool) outcome" where
  "allocate pt virtual_address units g s =
     (if \<not> reference_counted pt then panic AllocationInNonReferenceCountedTable s
      else with_lock (pt_lock pt)
             (while_ok (allocate_unit pt virtual_address g) [0..<unat units]) s)"

definition map_unit ::
  "PageTable \<Rightarrow> u32 \<Rightarrow> u32 \<Rightarrow> AllocationGranularity \<Rightarrow> nat \<Rightarrow> kstate \<Rightarrow> (kstate, bool) outcome" where
  "map_unit pt virtual_address physical_address g i s =
     (let offset = of_nat i * get_allocation_pages g * PAGE_SIZE;
          (success, s') = commit pt g (virtual_address + offset) (physical_address + offset) s
      in Ok success s')"

definition map_units ::
  "PageTable \<Rightarrow> u32 \<Rightarrow> u32 \<Rightarrow> u32 \<Rightarrow> AllocationGranularity \<Rightarrow> kstate \<Rightarrow> (kstate, bool) outcome" where
  "map_units pt virtual_address physical_address units g = with_lock (pt_lock pt) (\<lambda>s.
     bind_ok (while_ok (map_unit pt virtual_address physical_address g) [0..<unat units] s)
       (\<lambda>success s.
          if \<not> success then Ok False s
          else if reference_counted pt
            then bind_ok (ref_acquire_range physical_address (units * get_allocation_pages g) s)
                   (\<lambda>_. Ok True)
            else Ok True s))"

definition allocate_reserved ::
  "PageTable \<Rightarrow> u32 \<Rightarrow> AllocationGranularity \<Rightarrow> u32 Result \<Rightarrow> kstate \<Rightarrow> (kstate, u32 Result) outcome" where
  "allocate_reserved pt units g reservation s =
     (case reservation of
        Success va \<Rightarrow>
          bind_ok (allocate pt va units g s) (\<lambda>success. Ok (if success then reservation else Failure))
      | Failure \<Rightarrow> Ok reservation s)"

definition reserve_allocate ::
  "PageTable \<Rightarrow> u32 \<Rightarrow> AllocationGranularity \<Rightarrow> kstate \<Rightarrow> (kstate, u32 Result) outcome" where
  "reserve_allocate pt units g s = bind_ok (reserve pt units g s) (allocate_reserved pt units g)"

definition reserve_allocate_at ::
  "PageTable \<Rightarrow> u32 \<Rightarrow> u32 \<Rightarrow> AllocationGranularity \<Rightarrow> kstate \<Rightarrow> (kstate, u32 Result) outcome" where
  "reserve_allocate_at pt address units g s =
     bind_ok (reserve_at pt address units g s) (allocate_reserved pt units g)"

subsection \<open>Translation\<close>

definition virtual_to_physical_internal :: "PageTable \<Rightarrow> u32 \<Rightarrow> kstate \<Rightarrow> u32 Result" where
  "virtual_to_physical_internal pt virtual_address s =
     (let first_level_index = drop_bit 20 virtual_address
      in if first_level_index \<ge> first_level_num_entries pt then Failure
         else (let e = ld s (slot (get_first_level_table_address pt) (unat first_level_index))
               in if e AND 0x3 = 1 then
                    (let t = get_second_level_table_address (e AND 0xfffffc00);
                         d = ld s (slot t (unat (drop_bit 12 virtual_address AND 0xff)))
                     in if d AND 0x2 \<noteq> 0
                        then Success ((d AND 0xfffff000) OR (virtual_address AND 0x00000fff))
                        else Failure)
                  else if e AND 0x3 = 2 then
                    (if e AND 0x00040000 \<noteq> 0
                     then Success ((e AND 0xff000000) OR (virtual_address AND 0x00ffffff))
                     else Success ((e AND 0xfff00000) OR (virtual_address AND 0x000fffff)))
                  else Failure))"

definition virtual_to_physical :: "PageTable \<Rightarrow> u32 \<Rightarrow> kstate \<Rightarrow> (kstate, u32 Result) outcome" where
  "virtual_to_physical pt virtual_address =
     with_lock (pt_lock pt) (\<lambda>s. Ok (virtual_to_physical_internal pt virtual_address s) s)"

text \<open>The two loops of the reverse search, as the code has them: the result is built from the
  first-level entry and the physical address.\<close>

definition match_page :: "u32 \<Rightarrow> u32 \<Rightarrow> u32 \<Rightarrow> kstate \<Rightarrow> nat \<Rightarrow> u32 Result" where
  "match_page e t physical_address s j =
     (let d = ld s (slot t j)
      in if d AND 0x2 \<noteq> 0 \<and> d AND 0xfffff000 = physical_address AND 0xfffff000
         then Success ((e AND 0xfffff000) OR (physical_address AND 0x00000fff)) else Failure)"

definition match_section :: "PageTable \<Rightarrow> u32 \<Rightarrow> kstate \<Rightarrow> nat \<Rightarrow> u32 Result" where
  "match_section pt physical_address s i =
     (let e = ld s (slot (get_first_level_table_address pt) i)
      in if e AND 0x3 = 1 then
           first_success (match_page e (get_second_level_table_address (e AND 0xfffffc00))
             physical_address s) [0..<unat SECOND_LEVEL_ENTRIES]
         else if e AND 0x3 = 2 then
           (if e AND 0x00040000 \<noteq> 0 then
              (if e AND 0xff000000 = physical_address AND 0xff000000
               then Success ((e AND 0xff000000) OR (physical_address AND 0x00ffffff)) else Failure)
            else
              (if e AND 0xfff00000 = physical_address AND 0xfff00000
               then Success ((e AND 0xfff00000) OR (physical_address AND 0x000fffff)) else Failure))
         else Failure)"

definition physical_to_virtual_internal :: "PageTable \<Rightarrow> u32 \<Rightarrow> kstate \<Rightarrow> u32 Result" where
  "physical_to_virtual_internal pt physical_address s =
     first_success (match_section pt physical_address s) [0..<unat (first_level_num_entries pt)]"

definition physical_to_virtual :: "PageTable \<Rightarrow> u32 \<Rightarrow> kstate \<Rightarrow> (kstate, u32 Result) outcome" where
  "physical_to_virtual pt physical_address =
     with_lock (pt_lock pt) (\<lambda>s. Ok (physical_to_virtual_internal pt physical_address s) s)"

subsection \<open>State of a unit\<close>

definition get_state_from_descriptor :: "u32 \<Rightarrow> UnitState" where
  "get_state_from_descriptor descriptor =
     (if descriptor AND 0x7 = 0 then UFree
      else if descriptor AND 0x7 = 4 then UReserved
      else UCommitted)"

definition page_unit_state :: "PageTable \<Rightarrow> u32 \<Rightarrow> kstate \<Rightarrow> UnitState Result" where
  "page_unit_state pt virtual_address s =
     (case get_section_descriptor pt virtual_address False s of
        Success d \<Rightarrow> Success (get_state_from_descriptor (ld s d))
      | Failure \<Rightarrow>
          (case get_page_descriptor pt virtual_address s of
             Failure \<Rightarrow> Failure
           | Success d \<Rightarrow> Success (get_state_from_descriptor (ld s d))))"

definition section_unit_state :: "PageTable \<Rightarrow> u32 \<Rightarrow> kstate \<Rightarrow> UnitState Result" where
  "section_unit_state pt virtual_address s =
     (case get_section_descriptor pt virtual_address False s of
        Success d \<Rightarrow> Success (get_state_from_descriptor (ld s d))
      | Failure \<Rightarrow> Failure)"

text \<open>The loop over the 16 sections, with its flags \<open>all_free\<close>, \<open>all_reserved\<close>, \<open>all_committed\<close>.\<close>

fun supersection_flags ::
  "PageTable \<Rightarrow> u32 \<Rightarrow> kstate \<Rightarrow> nat list \<Rightarrow> bool \<times> bool \<times> bool \<Rightarrow> (bool \<times> bool \<times> bool) Result" where
  "supersection_flags pt base s [] flags = Success flags"
| "supersection_flags pt base s (i # is) (all_free, all_reserved, all_committed) =
     (case get_section_descriptor pt (base + of_nat i * SECTION_SIZE) False s of
        Failure \<Rightarrow> Failure
      | Success d \<Rightarrow> supersection_flags pt base s is
          (if ld s d AND 0x7 = 0 then (all_free, False, False)
           else if ld s d AND 0x7 = 4 then (False, all_reserved, False)
           else (False, False, all_committed)))"

definition supersection_unit_state :: "PageTable \<Rightarrow> u32 \<Rightarrow> kstate \<Rightarrow> UnitState Result" where
  "supersection_unit_state pt virtual_address s =
     (case supersection_flags pt (virtual_address AND 0xff000000) s [0..<16] (True, True, True) of
        Failure \<Rightarrow> Failure
      | Success (all_free, all_reserved, all_committed) \<Rightarrow>
          if all_free then Success UFree
          else if all_reserved then Success UReserved
          else if all_committed then Success UCommitted
          else Failure)"

definition get_unit_state ::
  "PageTable \<Rightarrow> u32 \<Rightarrow> AllocationGranularity \<Rightarrow> kstate \<Rightarrow> (kstate, UnitState Result) outcome" where
  "get_unit_state pt virtual_address g = with_lock (pt_lock pt) (\<lambda>s. Ok
     (case g of GPage \<Rightarrow> page_unit_state pt virtual_address s
      | GSection \<Rightarrow> section_unit_state pt virtual_address s
      | GSupersection \<Rightarrow> supersection_unit_state pt virtual_address s) s)"

end
