(* ===== verification/Page_Alloc_Inv.thy ===== *)
theory Page_Alloc_Inv
  imports Page_Alloc
begin

unbundle bit_operations_syntax

text \<open>
  Correctness of the page allocator: the reference counts seen as a function on page numbers, the
  invariant of the object, what the scan of \<open>alloc\<close> finds, and the effect of every operation.
\<close>

subsection \<open>Reference counts by page number\<close>

definition npages :: "kstate \<Rightarrow> nat" where
  "npages s = unat (num_pages (palloc s))"

definition rc :: "kstate \<Rightarrow> nat \<Rightarrow> u8" where
  "rc s p = refcount s (of_nat p)"

abbreviation rtab :: "kstate \<Rightarrow> u32" where
  "rtab s \<equiv> refcount_table (palloc s)"

text \<open>The pages the allocator itself relies on: page 0, and those its table lies in.\<close>

definition pinned :: "kstate \<Rightarrow> nat \<Rightarrow> bool" where
  "pinned s p \<longleftrightarrow> p = 0 \<or> (\<exists>q < npages s. frame (rtab s + of_nat q) = p)"

definition used :: "kstate \<Rightarrow> nat set" where
  "used s = {p. p < npages s \<and> rc s p \<noteq> 0}"

definition sizes :: "u32 set" where
  "sizes = {1, 4, 256, 4096}"

definition pa_wf :: "kstate \<Rightarrow> bool" where
  "pa_wf s \<longleftrightarrow> 0 < npages s \<and> npages s < 2 ^ 20 \<and> unat (rtab s) + npages s \<le> 2 ^ 32 \<and>
     (\<forall>p < npages s. pinned s p \<longrightarrow> rc s p \<noteq> 0) \<and>
     unat (allocated_pages (palloc s)) = card (used s) \<and>
     (\<forall>sz \<in> sizes. unat (next_alloc sz (palloc s)) < npages s \<and>
        (unat sz dvd npages s \<longrightarrow> unat sz dvd unat (next_alloc sz (palloc s))))"

lemma pa_wfD:
  assumes "pa_wf s"
  shows "0 < npages s" "npages s < 2 ^ 20" "unat (rtab s) + npages s \<le> 2 ^ 32"
    "p < npages s \<Longrightarrow> pinned s p \<Longrightarrow> rc s p \<noteq> 0"
    "unat (allocated_pages (palloc s)) = card (used s)"
    "sz \<in> sizes \<Longrightarrow> unat (next_alloc sz (palloc s)) < npages s"
    "sz \<in> sizes \<Longrightarrow> unat sz dvd npages s \<Longrightarrow> unat sz dvd unat (next_alloc sz (palloc s))"
  using assms unfolding pa_wf_def by blast+

lemma finite_used [simp]: "finite (used s)"
  by (simp add: used_def)

lemma of_nat_add_eq_iff:
  "p < 2 ^ 32 \<Longrightarrow> q < 2 ^ 32 \<Longrightarrow> (a :: u32) + of_nat p = a + of_nat q \<longleftrightarrow> p = q"
  by (simp add: of_nat_eq_iff32)

lemma set_refcount_simps [simp]:
  "palloc (set_refcount p v s) = palloc s" "held (set_refcount p v s) = held s"
  "console (set_refcount p v s) = console s"
  "npages (set_refcount p v s) = npages s"
  by (simp_all add: set_refcount_def npages_def)

lemma add_allocated_simps [simp]:
  "mem (add_allocated k s) = mem s" "held (add_allocated k s) = held s"
  "console (add_allocated k s) = console s" "rtab (add_allocated k s) = rtab s"
  "num_pages (palloc (add_allocated k s)) = num_pages (palloc s)"
  "npages (add_allocated k s) = npages s"
  "rc (add_allocated k s) = rc s"
  "next_alloc sz (palloc (add_allocated k s)) = next_alloc sz (palloc s)"
  "allocated_pages (palloc (add_allocated k s)) = allocated_pages (palloc s) + k"
  by (simp_all add: add_allocated_def npages_def rc_def refcount_def next_alloc_def fun_eq_iff)

lemma rc_set_refcount:
  assumes "p < 2 ^ 32" "q < 2 ^ 32"
  shows "rc (set_refcount (of_nat p) v s) q = (if q = p then v else rc s q)"
  using of_nat_eq_iff32 [OF assms]
  by (auto simp: rc_def refcount_def set_refcount_def load8_def store8_def)

lemma mem_set_refcount:
  "b \<noteq> rtab s + p \<Longrightarrow> mem (set_refcount p v s) b = mem s b"
  by (simp add: set_refcount_def store8_def)

text \<open>Anything that keeps the object and the table's bytes keeps the counts.\<close>

lemma rc_cong:
  "rtab s' = rtab s \<Longrightarrow> mem s' (rtab s + of_nat p) = mem s (rtab s + of_nat p) \<Longrightarrow> rc s' p = rc s p"
  by (simp add: rc_def refcount_def load8_def)

lemma pinned_cong [frame_simps]:
  "rtab s' = rtab s \<Longrightarrow> npages s' = npages s \<Longrightarrow> pinned s' p = pinned s p"
  by (simp add: pinned_def)

subsection \<open>Claiming a block\<close>

lemma fold_set_refcount:
  "fold (\<lambda>i. set_refcount (entry + of_nat i) v) is s
    = s\<lparr>mem := fold (\<lambda>i. store8 (rtab s + (entry + of_nat i)) v) is (mem s)\<rparr>"
  by (induction "is" arbitrary: s) (simp_all add: set_refcount_def)

lemma claim_simps [simp]:
  "rtab (claim e sz s) = rtab s" "num_pages (palloc (claim e sz s)) = num_pages (palloc s)"
  "npages (claim e sz s) = npages s" "held (claim e sz s) = held s"
  "console (claim e sz s) = console s"
  "next_alloc k (palloc (claim e sz s)) = next_alloc k (palloc s)"
  "allocated_pages (palloc (claim e sz s)) = allocated_pages (palloc s) + sz"
  by (simp_all add: claim_def fold_set_refcount npages_def)

lemma rc_claim:
  assumes "e + unat sz \<le> 2 ^ 32" "q < 2 ^ 32"
  shows "rc (claim (of_nat e) sz s) q = (if e \<le> q \<and> q < e + unat sz then 1 else rc s q)"
proof -
  let ?f = "\<lambda>i. rtab s + (of_nat e + of_nat i)"
  have "rtab s + of_nat q \<in> ?f ` set [0..<unat sz] \<longleftrightarrow> (\<exists>i < unat sz. q = e + i)"
  proof -
    have "rtab s + of_nat q = ?f i \<longleftrightarrow> q = e + i" if "i < unat sz" for i
      using of_nat_add_eq_iff [of q "e + i" "rtab s"] assms that by simp
    then show ?thesis unfolding in_image_upt by blast
  qed
  moreover have "(\<exists>i < unat sz. q = e + i) \<longleftrightarrow> e \<le> q \<and> q < e + unat sz"
    by (auto intro: exI [of _ "q - e"])
  moreover have "rc (claim (of_nat e) sz s) q
      = load8 (fold (\<lambda>i. store8 (?f i) 1) [0..<unat sz] (mem s)) (rtab s + of_nat q)"
    by (simp add: claim_def fold_set_refcount rc_def refcount_def)
  ultimately show ?thesis
    by (simp add: bytes.get_fill rc_def refcount_def)
qed

lemma mem_claim_other:
  assumes "\<And>i. i < unat sz \<Longrightarrow> b \<noteq> rtab s + of_nat (e + i)"
  shows "mem (claim (of_nat e) sz s) b = mem s b"
proof -
  let ?f = "\<lambda>i. rtab s + (of_nat e + of_nat i)"
  have "b \<notin> ?f ` set [0..<unat sz]"
    unfolding in_image_upt using assms by (metis of_nat_add)
  then have "load8 (fold (\<lambda>i. store8 (?f i) 1) [0..<unat sz] (mem s)) b = load8 (mem s) b"
    by (simp add: bytes.get_fill)
  then show ?thesis by (simp add: claim_def fold_set_refcount load8_def)
qed

subsection \<open>The scan\<close>

definition block_free :: "kstate \<Rightarrow> nat \<Rightarrow> nat \<Rightarrow> bool" where
  "block_free s z e \<longleftrightarrow> (\<forall>i < z. rc s (e + i) = 0)"

lemma all_refcounts_zero_iff: "all_refcounts_zero s (of_nat e) sz \<longleftrightarrow> block_free s (unat sz) e"
  by (auto simp: all_refcounts_zero_def block_free_def rc_def list_all_iff)

text \<open>The first free block among the next \<open>r\<close> candidates, starting with \<open>e\<close>.\<close>

fun scan :: "kstate \<Rightarrow> nat \<Rightarrow> nat \<Rightarrow> nat \<Rightarrow> nat \<Rightarrow> nat option" where
  "scan s z n 0 e = None"
| "scan s z n (Suc r) e = (if block_free s z e then Some e else scan s z n r ((e + z) mod n))"

lemma scan_Some:
  "scan s z n r e = Some f \<Longrightarrow> e < n \<Longrightarrow>
   block_free s z f \<and> (\<exists>j < r. f = (e + j * z) mod n \<and> (\<forall>i < j. \<not> block_free s z ((e + i * z) mod n)))"
proof (induction r arbitrary: e)
  case (Suc r)
  show ?case
  proof (cases "block_free s z e")
    case True
    then show ?thesis using Suc.prems by auto
  next
    case False
    let ?e = "(e + z) mod n"
    have "?e < n" using Suc.prems(2) by simp
    moreover have "scan s z n r ?e = Some f" using Suc.prems(1) False by simp
    ultimately obtain j where j: "j < r" "block_free s z f" "f = (?e + j * z) mod n"
      "\<forall>i < j. \<not> block_free s z ((?e + i * z) mod n)"
      using Suc.IH by blast
    have shift: "(?e + i * z) mod n = (e + Suc i * z) mod n" for i
      by (simp add: mod_add_left_eq add.assoc)
    have "\<not> block_free s z ((e + i * z) mod n)" if "i < Suc j" for i
    proof (cases i)
      case 0
      then show ?thesis using False Suc.prems(2) by simp
    next
      case (Suc i')
      then show ?thesis using j(4) that shift [of i'] by auto
    qed
    then show ?thesis using j shift [of j] by (intro conjI exI [of _ "Suc j"]) auto
  qed
qed simp

lemma scan_None:
  "scan s z n r e = None \<Longrightarrow> e < n \<Longrightarrow> i < r \<Longrightarrow> \<not> block_free s z ((e + i * z) mod n)"
proof (induction r arbitrary: e i)
  case (Suc r)
  have nf: "\<not> block_free s z e" and rest: "scan s z n r ((e + z) mod n) = None"
    using Suc.prems(1) by (auto split: if_splits)
  show ?case
  proof (cases i)
    case 0
    then show ?thesis using nf Suc.prems(2) by simp
  next
    case (Suc i')
    have "(e + z) mod n < n" using Suc.prems(2) by simp
    from Suc.IH [OF rest this, of i'] Suc Suc.prems(3)
    have "\<not> block_free s z (((e + z) mod n + i' * z) mod n)" by simp
    then show ?thesis unfolding Suc by (simp add: mod_add_left_eq add.assoc)
  qed
qed simp


text \<open>Arithmetic of the cyclic order: blocks of \<open>z\<close> pages in \<open>n\<close>, with \<open>z\<close> dividing \<open>n\<close>.\<close>

lemma block_fits: "z dvd n \<Longrightarrow> z dvd e \<Longrightarrow> e < n \<Longrightarrow> e + z \<le> (n::nat)"
proof -
  assume "z dvd n" "z dvd e" "e < n"
  then obtain a b where ab: "n = z * a" "e = z * b" by (auto elim!: dvdE)
  then have "Suc b \<le> a" using \<open>e < n\<close> by simp
  then have "z * Suc b \<le> z * a" by (rule mult_le_mono2)
  then show ?thesis using ab by simp
qed

lemma cyclic_return:
  fixes st z n t :: nat
  assumes "z dvd n" "st < n" "0 < z" "t < n div z"
  shows "(st + Suc t * z) mod n = st \<longleftrightarrow> Suc t = n div z"
proof
  assume "(st + Suc t * z) mod n = st"
  then have "(st + Suc t * z) mod n = (st + 0) mod n" using assms(2) by simp
  then have "n dvd Suc t * z"
    by (metis add.right_neutral mod_eq_dvd_iff_nat add_diff_cancel_left' le_add1)
  then have "n \<le> Suc t * z" using assms(3) by (intro dvd_imp_le) simp_all
  then have "n div z \<le> Suc t" using assms(3) by (metis div_le_mono nonzero_mult_div_cancel_right less_not_refl)
  then show "Suc t = n div z" using assms(4) by simp
next
  assume "Suc t = n div z"
  then have "Suc t * z = n" using assms(1) by (metis dvd_div_mult_self)
  then show "(st + Suc t * z) mod n = st" using assms(2) by (metis mod_add_self2 mod_less)
qed

lemma cyclic_cover:
  fixes st z n e :: nat
  assumes "z dvd n" "z dvd st" "z dvd e" "st < n" "e < n"
  obtains i where "i < n div z" "(st + i * z) mod n = e"
proof -
  obtain a b c where abc: "n = z * a" "st = z * b" "e = z * c" using assms(1-3) by (auto elim!: dvdE)
  have z: "0 < z" "0 < a" using assms(4) abc by auto
  have bc: "b < a" "c < a" using assms(4,5) abc z by auto
  define i where "i = (c + a - b) mod a"
  have "(b + i) mod a = (b + (c + a - b)) mod a" unfolding i_def by (rule mod_add_right_eq)
  also have "\<dots> = c" using bc by simp
  finally have "(st + i * z) mod n = e"
    unfolding abc by (metis add_mult_distrib2 mult.commute mult_mod_right)
  moreover have "i < n div z" unfolding i_def abc using z by simp
  ultimately show thesis by (rule that [rotated])
qed

subsection \<open>alloc\<close>

text \<open>What the loop returns for the block \<open>f\<close> it stops at.\<close>

definition alloc_at :: "u32 \<Rightarrow> nat \<Rightarrow> kstate \<Rightarrow> nat \<Rightarrow> (kstate, u32 \<times> u32) outcome" where
  "alloc_at sz st s f =
     (let e' = (f + unat sz) mod npages s
      in if e' = st then panic OutOfMemory (claim (of_nat f) sz s)
         else Ok (of_nat f * PAGE_SIZE, of_nat e') (claim (of_nat f) sz s))"

lemma page_address_nonzero: "0 < e \<Longrightarrow> e < 2 ^ 20 \<Longrightarrow> (of_nat e * PAGE_SIZE :: u32) \<noteq> 0"
proof -
  assume e: "0 < e" "e < 2 ^ 20"
  then have "unat (of_nat e * PAGE_SIZE :: u32) = e * 4096"
    by (subst unat_mult32) simp_all
  then show ?thesis using e by (metis mult_is_0 not_gr_zero unat_0 zero_neq_numeral)
qed

lemma unat_page_address: "e < 2 ^ 20 \<Longrightarrow> unat (of_nat e * PAGE_SIZE :: u32) = e * 4096"
  by (subst unat_mult32) simp_all

lemma next_entry:
  assumes "z = unat sz" "z dvd npages s" "z dvd e" "e < npages s" "npages s < 2 ^ 20"
  shows "(let entry1 = of_nat e + sz
          in if entry1 \<ge> num_pages (palloc s) then entry1 - num_pages (palloc s) else entry1)
        = of_nat ((e + z) mod npages s)"
proof -
  have le: "e + z \<le> npages s" using assms by (intro block_fits)
  have w: "of_nat e + sz = (of_nat (e + z) :: u32)" and n: "num_pages (palloc s) = of_nat (npages s)"
    using assms(1) by (simp_all add: npages_def)
  have ge: "(of_nat (e + z) :: u32) \<ge> of_nat (npages s) \<longleftrightarrow> e + z = npages s"
  proof -
    have "unat (of_nat (e + z) :: u32) = e + z" "unat (of_nat (npages s) :: u32) = npages s"
      using le assms(5) by (simp_all del: of_nat_add)
    then show ?thesis using le by (auto simp: word_le_nat_alt simp del: of_nat_add)
  qed
  show ?thesis unfolding Let_def w n ge using le by auto
qed

lemma alloc_loop_eq:
  assumes sz: "z = unat sz" "0 < z" "z dvd npages s" and st: "z dvd st" "st < npages s"
    and n: "npages s < 2 ^ 20" and r0: "rc s 0 \<noteq> 0"
    and e: "e = (st + t * z) mod npages s" and t: "t + r = npages s div z" "0 < r"
  shows "alloc_loop sz (of_nat st) (of_nat e) s
    = Some (case scan s z (npages s) r e of None \<Rightarrow> panic OutOfMemory s
        | Some f \<Rightarrow> alloc_at sz st s f)"
  using e t
proof (induction r arbitrary: e t)
  case (Suc r)
  let ?n = "npages s" and ?e = "(e + z) mod npages s"
  have n0: "0 < ?n" using st by simp
  have e_lt: "e < ?n" using Suc.prems(1) n0 by simp
  have e_dvd: "z dvd e" unfolding Suc.prems(1) using sz st by (simp add: dvd_mod)
  have e': "?e = (st + Suc t * z) mod ?n"
    unfolding Suc.prems(1) by (simp add: mod_add_right_eq algebra_simps)
  have returns: "?e = st \<longleftrightarrow> r = 0"
    unfolding e' using cyclic_return [OF sz(3) st(2) sz(2), of t] Suc.prems(2) by auto
  have next_eq: "(let entry1 = of_nat e + sz
          in if entry1 \<ge> num_pages (palloc s) then entry1 - num_pages (palloc s) else entry1)
        = of_nat ?e"
    using sz e_dvd e_lt n by (intro next_entry)
  have "?e < ?n" using n0 by simp
  then have st_eq: "(of_nat ?e :: u32) = of_nat st \<longleftrightarrow> ?e = st"
    using st(2) n by (intro of_nat_eq_iff32) (blast intro: lt_20_32)+
  show ?case
  proof (cases "block_free s z e")
    case True
    have "rc s e = 0" using True sz(2) by (auto simp: block_free_def dest: spec [of _ 0])
    then have "e \<noteq> 0" using r0 by metis
    then have nz: "(of_nat e * PAGE_SIZE :: u32) \<noteq> 0"
      using e_lt n by (intro page_address_nonzero) simp_all
    have "alloc_loop sz (of_nat st) (of_nat e) s
        = Some (if ?e = st then panic OutOfMemory (claim (of_nat e) sz s)
            else Ok (of_nat e * PAGE_SIZE, of_nat ?e) (claim (of_nat e) sz s))"
      using True nz next_eq st_eq sz(1)
      by (subst alloc_loop.simps) (simp add: Let_def all_refcounts_zero_iff)
    then show ?thesis using True sz(1) by (simp add: alloc_at_def Let_def)
  next
    case False
    have step: "alloc_loop sz (of_nat st) (of_nat e) s
        = (if ?e = st then Some (panic OutOfMemory s)
           else alloc_loop sz (of_nat st) (of_nat ?e) s)"
      using False next_eq st_eq sz(1)
      by (subst alloc_loop.simps) (simp add: Let_def all_refcounts_zero_iff)
    show ?thesis
    proof (cases "r = 0")
      case True
      then show ?thesis using step returns False by simp
    next
      case r: False
      have "alloc_loop sz (of_nat st) (of_nat ?e) s
          = Some (case scan s z ?n r ?e of None \<Rightarrow> panic OutOfMemory s
              | Some f \<Rightarrow> alloc_at sz st s f)"
        using Suc.prems(2) r by (intro Suc.IH [of ?e "Suc t"] e') simp_all
      then show ?thesis using step returns r False by simp
    qed
  qed
qed simp


definition alloc_state :: "u32 \<Rightarrow> nat \<Rightarrow> kstate \<Rightarrow> kstate" where
  "alloc_state sz f s =
     (let s1 = set_next_alloc sz (of_nat ((f + unat sz) mod npages s)) (claim (of_nat f) sz s)
      in s1\<lparr>mem := memset (of_nat f * PAGE_SIZE) 0xcc PAGE_SIZE (mem s1)\<rparr>)"

lemma sizes_cases: "sz \<in> sizes \<Longrightarrow> (sz = 1 \<Longrightarrow> P) \<Longrightarrow> (sz = 4 \<Longrightarrow> P) \<Longrightarrow> (sz = 256 \<Longrightarrow> P)
  \<Longrightarrow> (sz = 4096 \<Longrightarrow> P) \<Longrightarrow> P"
  by (auto simp: sizes_def)

lemma sizes_pos: "sz \<in> sizes \<Longrightarrow> 0 < unat sz"
  by (erule sizes_cases) simp_all

text \<open>The order in which \<open>alloc\<close> looks at the blocks, from the hint of its size on.\<close>

definition hint :: "u32 \<Rightarrow> kstate \<Rightarrow> nat" where
  "hint sz s = unat (next_alloc sz (palloc s))"

definition first_free :: "u32 \<Rightarrow> kstate \<Rightarrow> nat option" where
  "first_free sz s = scan s (unat sz) (npages s) (npages s div unat sz) (hint sz s)"

lemma alloc_locked_eq:
  assumes wf: "pa_wf s" and sz: "sz \<in> sizes" "unat sz dvd npages s"
  shows "alloc_locked sz s =
    (case first_free sz s of None \<Rightarrow> panic OutOfMemory s
     | Some f \<Rightarrow> if (f + unat sz) mod npages s = hint sz s
         then panic OutOfMemory (claim (of_nat f) sz s)
         else Ok (of_nat f * PAGE_SIZE) (alloc_state sz f s))"
proof -
  have z: "0 < unat sz" using sz(1) by (rule sizes_pos)
  have st: "unat sz dvd hint sz s" "hint sz s < npages s"
    using pa_wfD(6,7) [OF wf sz(1)] sz(2) by (simp_all add: hint_def)
  have "pinned s 0" by (simp add: pinned_def)
  then have r0: "rc s 0 \<noteq> 0" using pa_wfD(1,4) [OF wf] by blast
  have pos: "0 < npages s div unat sz"
    using sz(2) z pa_wfD(1) [OF wf] by (simp add: dvd_imp_le div_greater_zero_iff)
  have hint_word: "next_alloc sz (palloc s) = of_nat (hint sz s)" by (simp add: hint_def)
  have "alloc_loop sz (of_nat (hint sz s)) (of_nat (hint sz s)) s
      = Some (case scan s (unat sz) (npages s) (npages s div unat sz) (hint sz s) of
          None \<Rightarrow> panic OutOfMemory s | Some f \<Rightarrow> alloc_at sz (hint sz s) s f)"
    using z sz(2) st pa_wfD(2) [OF wf] r0 pos
    by (intro alloc_loop_eq [where t = 0]) simp_all
  then show ?thesis
    unfolding alloc_locked_def hint_word first_free_def
    by (simp add: alloc_at_def alloc_state_def Let_def split: option.split)
qed

subsection \<open>The state after an allocation\<close>

lemma set_next_alloc_simps [simp]:
  "mem (set_next_alloc sz e s) = mem s" "held (set_next_alloc sz e s) = held s"
  "console (set_next_alloc sz e s) = console s" "rtab (set_next_alloc sz e s) = rtab s"
  "num_pages (palloc (set_next_alloc sz e s)) = num_pages (palloc s)"
  "npages (set_next_alloc sz e s) = npages s"
  "rc (set_next_alloc sz e s) = rc s"
  "allocated_pages (palloc (set_next_alloc sz e s)) = allocated_pages (palloc s)"
  by (simp_all add: set_next_alloc_def npages_def rc_def refcount_def fun_eq_iff)

lemma next_alloc_set_next_alloc:
  "sz \<in> sizes \<Longrightarrow> k \<in> sizes \<Longrightarrow>
   next_alloc k (palloc (set_next_alloc sz e s)) = (if k = sz then e else next_alloc k (palloc s))"
  by (auto simp: sizes_def set_next_alloc_def next_alloc_def)

lemma alloc_state_simps [simp]:
  "rtab (alloc_state sz f s) = rtab s" "npages (alloc_state sz f s) = npages s"
  "num_pages (palloc (alloc_state sz f s)) = num_pages (palloc s)"
  "held (alloc_state sz f s) = held s" "console (alloc_state sz f s) = console s"
  "allocated_pages (palloc (alloc_state sz f s)) = allocated_pages (palloc s) + sz"
  by (simp_all add: alloc_state_def Let_def npages_def)

lemma in_page_iff:
  assumes "f < 2 ^ 20"
  shows "unat (b - of_nat f * PAGE_SIZE) < unat PAGE_SIZE \<longleftrightarrow> frame b = f"
proof -
  let ?a = "of_nat f * PAGE_SIZE :: u32"
  have a: "unat ?a = f * 4096" using assms by (rule unat_page_address)
  show ?thesis
  proof
    assume lt: "unat (b - ?a) < unat PAGE_SIZE"
    have "aligned 12 ?a" using a by (simp add: aligned_def)
    then have "unat (?a + of_nat (unat (b - ?a))) = unat ?a + unat (b - ?a)"
      using lt by (intro unat_aligned_add [of 12]) simp_all
    then have "unat b = f * 4096 + unat (b - ?a)" using a by simp
    then show "frame b = f" using lt by (simp add: frame_def)
  next
    assume "frame b = f"
    then have "unat b = f * 4096 + unat b mod 4096"
      unfolding frame_def using div_mult_mod_eq [of "unat b" 4096] by simp
    then have "unat (b - ?a) = unat b mod 4096" using a by (simp add: unat_sub_if')
    then show "unat (b - ?a) < unat PAGE_SIZE" by simp
  qed
qed


lemma memset_page:
  "f < 2 ^ 20 \<Longrightarrow> memset (of_nat f * PAGE_SIZE) ch PAGE_SIZE m b = (if frame b = f then ch else m b)"
  by (simp only: memset_apply in_page_iff)

text \<open>
  An allocated block \<open>f\<close> is free beforehand, so the table's bytes are not in it and clearing its
  first page leaves the counts alone.
\<close>

definition allocatable :: "kstate \<Rightarrow> u32 \<Rightarrow> nat \<Rightarrow> bool" where
  "allocatable s sz f \<longleftrightarrow> pa_wf s \<and> sz \<in> sizes \<and> unat sz dvd npages s \<and>
     f < npages s \<and> unat sz dvd f \<and> block_free s (unat sz) f"

lemma allocatable_range:
  assumes "allocatable s sz f"
  shows "pa_wf s" "0 < unat sz" "f < npages s" "f + unat sz \<le> npages s" "f < 2 ^ 20"
    "npages s < 2 ^ 20"
  using assms sizes_pos [of sz] block_fits [of "unat sz" "npages s" f] pa_wfD(2) [of s]
  unfolding allocatable_def by auto

lemma allocatable_free:
  assumes "allocatable s sz f" "f \<le> p" "p < f + unat sz"
  shows "rc s p = 0" "\<not> pinned s p"
proof -
  have "p - f < unat sz" using assms(2,3) by simp
  then have "rc s (f + (p - f)) = 0"
    using assms(1) unfolding allocatable_def block_free_def by blast
  then show "rc s p = 0" using assms(2) by simp
  then show "\<not> pinned s p"
    using allocatable_range [OF assms(1)] pa_wfD(4) [of s p] assms(3) by auto
qed

lemma allocatable_pos: "allocatable s sz f \<Longrightarrow> 0 < f"
  using allocatable_free(2) [of s sz f f] allocatable_range(2) [of s sz f]
  by (cases f) (auto simp: pinned_def)

lemma allocatable_table_frame:
  "allocatable s sz f \<Longrightarrow> q < npages s \<Longrightarrow> frame (rtab s + of_nat q) \<noteq> f"
  using allocatable_free(2) [of s sz f f] allocatable_range(2) [of s sz f]
  by (auto simp: pinned_def)

lemma mem_alloc_state:
  "f < 2 ^ 20 \<Longrightarrow> mem (alloc_state sz f s) b
    = (if frame b = f then 0xcc else mem (claim (of_nat f) sz s) b)"
  using memset_page [of f] by (simp add: alloc_state_def Let_def)

lemma mem_alloc_state_other:
  assumes "allocatable s sz f" "\<And>q. q < npages s \<Longrightarrow> b \<noteq> rtab s + of_nat q"
  shows "mem (alloc_state sz f s) b = (if frame b = f then 0xcc else mem s b)"
proof -
  have "mem (claim (of_nat f) sz s) b = mem s b"
    using assms(2) allocatable_range(4) [OF assms(1)]
    by (intro mem_claim_other) (simp del: of_nat_add)
  then show ?thesis using allocatable_range(5) [OF assms(1)] by (simp add: mem_alloc_state)
qed

lemma rc_alloc_state:
  assumes a: "allocatable s sz f" and p: "p < npages s"
  shows "rc (alloc_state sz f s) p = (if f \<le> p \<and> p < f + unat sz then 1 else rc s p)"
proof -
  have "rc (alloc_state sz f s) p = rc (claim (of_nat f) sz s) p"
    using allocatable_table_frame [OF a p] allocatable_range(5) [OF a]
    by (intro rc_cong) (simp_all add: mem_alloc_state)
  also have "\<dots> = (if f \<le> p \<and> p < f + unat sz then 1 else rc s p)"
    using allocatable_range(4,6) [OF a] p by (intro rc_claim) simp_all
  finally show ?thesis .
qed

lemma used_alloc_state:
  assumes a: "allocatable s sz f"
  shows "used (alloc_state sz f s) = used s \<union> {f..<f + unat sz}"
proof (rule set_eqI)
  fix p
  show "p \<in> used (alloc_state sz f s) \<longleftrightarrow> p \<in> used s \<union> {f..<f + unat sz}"
    using allocatable_range(4) [OF a] rc_alloc_state [OF a, of p]
    by (cases "p < npages s") (auto simp: used_def)
qed

lemma card_used_alloc_state:
  assumes a: "allocatable s sz f"
  shows "card (used (alloc_state sz f s)) = card (used s) + unat sz"
proof -
  have "used s \<inter> {f..<f + unat sz} = {}" using allocatable_free [OF a] by (auto simp: used_def)
  then show ?thesis by (simp add: used_alloc_state [OF a] card_Un_disjoint)
qed

lemma card_used_le: "card (used s) \<le> npages s"
  using card_mono [of "{..<npages s}" "used s"] by (auto simp: used_def)

lemma allocated_alloc_state:
  assumes a: "allocatable s sz f"
  shows "unat (allocated_pages (palloc (alloc_state sz f s))) = card (used (alloc_state sz f s))"
proof -
  have "card (used s) + unat sz < 2 ^ 32"
    using card_used_le [of "alloc_state sz f s"] card_used_alloc_state [OF a]
      allocatable_range(6) [OF a] by simp
  then show ?thesis
    using pa_wfD(5) [OF allocatable_range(1) [OF a]]
    by (simp add: card_used_alloc_state [OF a] unat_add32)
qed

lemma next_alloc_state:
  "allocatable s sz f \<Longrightarrow> k \<in> sizes \<Longrightarrow> unat (next_alloc k (palloc (alloc_state sz f s)))
    = (if k = sz then (f + unat sz) mod npages s else unat (next_alloc k (palloc s)))"
proof -
  assume a: "allocatable s sz f" and k: "k \<in> sizes"
  have "(f + unat sz) mod npages s < npages s" using allocatable_range(3) [OF a] by simp
  then have "(f + unat sz) mod npages s < 2 ^ 32"
    using allocatable_range(6) [OF a] by (rule lt_20_32)
  then show ?thesis
    using a k next_alloc_set_next_alloc [of sz k] unfolding allocatable_def
    by (simp add: alloc_state_def Let_def del: of_nat_add)
qed

lemma wf_alloc_state:
  assumes a: "allocatable s sz f"
  shows "pa_wf (alloc_state sz f s)"
  unfolding pa_wf_def
proof (intro conjI ballI allI impI)
  note wf = allocatable_range(1) [OF a]
  fix p assume p: "p < npages (alloc_state sz f s)" "pinned (alloc_state sz f s) p"
  then have "pinned s p" by (simp add: pinned_def)
  then show "rc (alloc_state sz f s) p \<noteq> 0"
    using p(1) pa_wfD(4) [OF wf] by (simp add: rc_alloc_state [OF a])
next
  note wf = allocatable_range(1) [OF a]
  fix k assume k: "k \<in> sizes"
  show "unat (next_alloc k (palloc (alloc_state sz f s))) < npages (alloc_state sz f s)"
    using pa_wfD(6) [OF wf k] allocatable_range(3) [OF a] by (simp add: next_alloc_state [OF a k])
  assume "unat k dvd npages (alloc_state sz f s)"
  then show "unat k dvd unat (next_alloc k (palloc (alloc_state sz f s)))"
    using pa_wfD(7) [OF wf k] a unfolding allocatable_def
    by (auto simp: next_alloc_state [OF a k] dvd_mod)
qed (use pa_wfD(1-3) [OF allocatable_range(1) [OF a]] allocated_alloc_state [OF a] in simp_all)


subsection \<open>What alloc returns\<close>

lemma first_free_Some:
  assumes wf: "pa_wf s" and sz: "sz \<in> sizes" "unat sz dvd npages s"
    and f: "first_free sz s = Some f"
  shows "allocatable s sz f"
proof -
  have h: "hint sz s < npages s" "unat sz dvd hint sz s"
    using pa_wfD(6,7) [OF wf sz(1)] sz(2) by (simp_all add: hint_def)
  obtain j where j: "f = (hint sz s + j * unat sz) mod npages s" and b: "block_free s (unat sz) f"
    using scan_Some [OF f [unfolded first_free_def] h(1)] by blast
  have "f < npages s" "unat sz dvd f"
    unfolding j using h sz(2) by (simp_all add: dvd_mod)
  then show ?thesis using assms b by (simp add: allocatable_def)
qed

lemma alloc_Ok_iff:
  assumes wf: "pa_wf s" and sz: "sz \<in> sizes" "unat sz dvd npages s"
  shows "alloc_locked sz s = Ok r s' \<longleftrightarrow>
    (\<exists>f. first_free sz s = Some f \<and> (f + unat sz) mod npages s \<noteq> hint sz s \<and>
       r = of_nat f * PAGE_SIZE \<and> s' = alloc_state sz f s)"
  unfolding alloc_locked_eq [OF assms] by (auto split: option.splits)

lemma alloc_locked_not_Spin:
  "pa_wf s \<Longrightarrow> sz \<in> sizes \<Longrightarrow> unat sz dvd npages s \<Longrightarrow> alloc_locked sz s \<noteq> Spin"
  by (simp add: alloc_locked_eq split: option.splits)

text \<open>
  The scan stops before the last candidate exactly when some block other than the last is free;
  the last candidate is the one just before the hint.
\<close>

lemma alloc_finds:
  assumes wf: "pa_wf s" and sz: "sz \<in> sizes" "unat sz dvd npages s"
  shows "(\<exists>f. first_free sz s = Some f \<and> (f + unat sz) mod npages s \<noteq> hint sz s) \<longleftrightarrow>
    (\<exists>e < npages s. unat sz dvd e \<and> block_free s (unat sz) e \<and> (e + unat sz) mod npages s \<noteq> hint sz s)"
    (is "?L \<longleftrightarrow> ?R")
proof
  assume ?L
  then show ?R using first_free_Some [OF assms] unfolding allocatable_def by blast
next
  let ?n = "npages s" and ?z = "unat sz" and ?h = "hint sz s"
  assume ?R
  then obtain e where e: "e < ?n" "?z dvd e" "block_free s ?z e" "(e + ?z) mod ?n \<noteq> ?h" by blast
  have h: "?h < ?n" "?z dvd ?h" and z: "0 < ?z"
    using pa_wfD(6,7) [OF wf sz(1)] sz by (simp_all add: hint_def sizes_pos)
  obtain i where i: "i < ?n div ?z" "(?h + i * ?z) mod ?n = e"
    using cyclic_cover [OF sz(2) h(2) e(2) h(1) e(1)] .
  have at: "((?h + k * ?z) mod ?n + ?z) mod ?n = (?h + Suc k * ?z) mod ?n" for k
    by (simp add: mod_add_left_eq mod_add_right_eq algebra_simps)
  have i_last: "Suc i \<noteq> ?n div ?z"
    using e(4) cyclic_return [OF sz(2) h(1) z i(1)] at [of i] i(2) by simp
  have "first_free sz s \<noteq> None"
    using scan_None [of s ?z ?n "?n div ?z" ?h i] i e(3) h(1) by (auto simp: first_free_def)
  then obtain f where f: "first_free sz s = Some f" by blast
  obtain j where j: "j < ?n div ?z" "f = (?h + j * ?z) mod ?n"
    "\<forall>k < j. \<not> block_free s ?z ((?h + k * ?z) mod ?n)"
    using scan_Some [OF f [unfolded first_free_def] h(1)] by blast
  have "j \<le> i" using j(3) i(2) e(3) by (metis not_le)
  then have "Suc j \<noteq> ?n div ?z" using i_last i(1) by simp
  then have "(f + ?z) mod ?n \<noteq> ?h"
    using cyclic_return [OF sz(2) h(1) z j(1)] at [of j] j(2) by simp
  then show ?L using f by blast
qed

end
