(* ===== verification/Page_Alloc_Ops.thy ===== *)
theory Page_Alloc_Ops
  imports Page_Alloc_Inv
begin

unbundle bit_operations_syntax

text \<open>
  The operations of the page allocator under its lock: \<open>alloc\<close>, the reference counts, the
  constructor and the statistics, each with its effect on the counts and on the invariant.
\<close>

subsection \<open>The lock does not matter to the counts\<close>

lemma held_simps [simp]:
  "npages (s\<lparr>held := h\<rparr>) = npages s" "rc (s\<lparr>held := h\<rparr>) = rc s"
  "used (s\<lparr>held := h\<rparr>) = used s" "pinned (s\<lparr>held := h\<rparr>) = pinned s"
  "hint sz (s\<lparr>held := h\<rparr>) = hint sz s"
  by (simp_all add: npages_def rc_def refcount_def used_def pinned_def hint_def fun_eq_iff)

lemma pa_wf_held [simp]: "pa_wf (s\<lparr>held := h\<rparr>) = pa_wf s"
  by (simp add: pa_wf_def)

lemma block_free_held [simp]: "block_free (s\<lparr>held := h\<rparr>) z e = block_free s z e"
  by (simp add: block_free_def)

lemma scan_held [simp]: "scan (s\<lparr>held := h\<rparr>) z n r e = scan s z n r e"
  by (induction r arbitrary: e) simp_all

lemma first_free_held [simp]: "first_free sz (s\<lparr>held := h\<rparr>) = first_free sz s"
  by (simp add: first_free_def)

lemma claim_held: "claim e sz (s\<lparr>held := h\<rparr>) = (claim e sz s)\<lparr>held := h\<rparr>"
  by (simp add: claim_def fold_set_refcount add_allocated_def)

lemma alloc_state_held: "alloc_state sz f (s\<lparr>held := h\<rparr>) = (alloc_state sz f s)\<lparr>held := h\<rparr>"
  by (simp add: alloc_state_def claim_held set_next_alloc_def Let_def)

lemma set_refcount_held: "set_refcount p v (s\<lparr>held := h\<rparr>) = (set_refcount p v s)\<lparr>held := h\<rparr>"
  by (simp add: set_refcount_def)

lemma add_allocated_held: "add_allocated k (s\<lparr>held := h\<rparr>) = (add_allocated k s)\<lparr>held := h\<rparr>"
  by (simp add: add_allocated_def)

lemma held_restore: "\<not> held s l \<Longrightarrow> held s' = held s \<Longrightarrow> s'\<lparr>held := (held s)(l := False)\<rparr> = s'"
  by (cases s') (simp add: fun_upd_idem)

subsection \<open>alloc\<close>

theorem alloc_eq:
  assumes wf: "pa_wf s" and sz: "sz \<in> sizes" "unat sz dvd npages s" and l: "\<not> held s PageAllocLock"
  shows "alloc sz s =
    (let sl = s\<lparr>held := (held s)(PageAllocLock := True)\<rparr> in
     case first_free sz s of
       None \<Rightarrow> panic OutOfMemory sl
     | Some f \<Rightarrow>
         if (f + unat sz) mod npages s = hint sz s then panic OutOfMemory (claim (of_nat f) sz sl)
         else Ok (of_nat f * PAGE_SIZE) (alloc_state sz f s))"
proof -
  let ?sl = "s\<lparr>held := (held s)(PageAllocLock := True)\<rparr>"
  have "alloc sz s = with_lock PageAllocLock (alloc_locked sz) s"
    using sz(1) by (auto simp: alloc_def sizes_def)
  moreover
  have "alloc_locked sz ?sl = (case first_free sz s of
       None \<Rightarrow> panic OutOfMemory ?sl
     | Some f \<Rightarrow>
         if (f + unat sz) mod npages s = hint sz s then panic OutOfMemory (claim (of_nat f) sz ?sl)
         else Ok (of_nat f * PAGE_SIZE) (alloc_state sz f ?sl))"
    using wf sz by (subst alloc_locked_eq) (simp_all cong: option.case_cong)
  ultimately show ?thesis
    using l
    by (simp add: with_lock_def Let_def alloc_state_held held_restore split: option.split)
qed

lemma alloc_OkD:
  assumes wf: "pa_wf s" and sz: "sz \<in> sizes" "unat sz dvd npages s"
    and ok: "alloc sz s = Ok r s'"
  obtains f where "allocatable s sz f" "r = of_nat f * PAGE_SIZE" "s' = alloc_state sz f s"
    "\<not> held s PageAllocLock"
proof -
  have l: "\<not> held s PageAllocLock"
    using ok sz(1) by (auto simp: alloc_def with_lock_Ok sizes_def split: if_splits)
  obtain f where "first_free sz s = Some f" "r = of_nat f * PAGE_SIZE" "s' = alloc_state sz f s"
    using ok unfolding alloc_eq [OF wf sz l] by (auto simp: Let_def split: option.splits if_splits)
  then show thesis using first_free_Some [OF wf sz] l that by blast
qed

subsection \<open>Reference counts\<close>

definition page_ix :: "u32 \<Rightarrow> nat" where
  "page_ix page = unat page div 4096"

lemma page_ix_less: "page_ix page < 2 ^ 20"
  using frame_less [of page] by (simp add: page_ix_def frame_def)

lemma page_ix_word: "page div PAGE_SIZE = of_nat (page_ix page)"
proof -
  have "page_ix page < 2 ^ 32" using page_ix_less [of page] by simp
  then show ?thesis by (simp add: word_eq_iff_unat32 unat_div32 page_ix_def)
qed

lemma page_ix_gt: "page div PAGE_SIZE > num_pages (palloc s) \<longleftrightarrow> npages s < page_ix page"
  by (simp add: word_less_nat_alt unat_div32 page_ix_def npages_def)

definition count_state :: "nat \<Rightarrow> u8 \<Rightarrow> kstate \<Rightarrow> kstate" where
  "count_state p v s = set_refcount (of_nat p) v s"

definition release_state :: "nat \<Rightarrow> kstate \<Rightarrow> kstate" where
  "release_state p s = (let s1 = set_refcount (of_nat p) (rc s p - 1) s
     in if rc s p = 1 then add_allocated (- 1) s1 else s1)"

lemma ref_acquire_eq:
  assumes l: "\<not> held s PageAllocLock"
  shows "ref_acquire page s =
    (if npages s < page_ix page then Ok 0 s
     else if rc s (page_ix page) = 0
       then panic AddRefToUnallocatedPage (s\<lparr>held := (held s)(PageAllocLock := True)\<rparr>)
     else Ok (ucast (rc s (page_ix page) + 1))
            (count_state (page_ix page) (rc s (page_ix page) + 1) s))"
  using l page_ix_gt [of s page]
  by (simp add: ref_acquire_def with_lock_def Let_def page_ix_word rc_def refcount_def
      count_state_def set_refcount_held held_restore fun_upd_idem)

lemma ref_release_eq:
  assumes l: "\<not> held s PageAllocLock"
  shows "ref_release page s =
    (if npages s < page_ix page then Ok 0 s
     else if rc s (page_ix page) = 0
       then panic ReleaseUnallocatedPage (s\<lparr>held := (held s)(PageAllocLock := True)\<rparr>)
     else Ok (ucast (rc s (page_ix page) - 1)) (release_state (page_ix page) s))"
  using l page_ix_gt [of s page]
  by (simp add: ref_release_def with_lock_def Let_def page_ix_word rc_def refcount_def
      release_state_def set_refcount_held add_allocated_held held_restore fun_upd_idem)


lemma count_state_simps [simp]:
  "palloc (count_state p v s) = palloc s" "held (count_state p v s) = held s"
  "console (count_state p v s) = console s" "npages (count_state p v s) = npages s"
  by (simp_all add: count_state_def)

lemma release_state_simps [simp]:
  "rtab (release_state p s) = rtab s" "held (release_state p s) = held s"
  "num_pages (palloc (release_state p s)) = num_pages (palloc s)"
  "console (release_state p s) = console s" "npages (release_state p s) = npages s"
  "next_alloc sz (palloc (release_state p s)) = next_alloc sz (palloc s)"
  by (simp_all add: release_state_def Let_def)

lemma rc_count_state:
  "p < 2 ^ 32 \<Longrightarrow> q < 2 ^ 32 \<Longrightarrow> rc (count_state p v s) q = (if q = p then v else rc s q)"
  unfolding count_state_def by (rule rc_set_refcount)

lemma rc_release_state:
  "p < 2 ^ 32 \<Longrightarrow> q < 2 ^ 32 \<Longrightarrow> rc (release_state p s) q = (if q = p then rc s p - 1 else rc s q)"
  unfolding release_state_def Let_def by (auto simp: rc_set_refcount)

lemma mem_count_state: "b \<noteq> rtab s + of_nat p \<Longrightarrow> mem (count_state p v s) b = mem s b"
  unfolding count_state_def by (rule mem_set_refcount)

lemma mem_release_state: "b \<noteq> rtab s + of_nat p \<Longrightarrow> mem (release_state p s) b = mem s b"
  by (simp add: release_state_def Let_def mem_set_refcount)

lemma pa_wf_step:
  assumes wf: "pa_wf s" and obj: "rtab s' = rtab s" "npages s' = npages s"
    "\<And>sz. next_alloc sz (palloc s') = next_alloc sz (palloc s)"
    and pins: "\<And>p. p < npages s \<Longrightarrow> pinned s p \<Longrightarrow> rc s' p \<noteq> 0"
    and cnt: "unat (allocated_pages (palloc s')) = card (used s')"
  shows "pa_wf s'"
  unfolding pa_wf_def pinned_cong [OF obj(1,2)] obj
  using pa_wfD(1-3,6,7) [OF wf] pins cnt by blast

lemma npages_index: "pa_wf s \<Longrightarrow> p < npages s \<Longrightarrow> p < 2 ^ 32"
  using pa_wfD(2) [of s] lt_20_32 by blast

lemma ref_acquire_wf:
  assumes wf: "pa_wf s" and p: "p < npages s" "rc s p \<noteq> 0" "rc s p \<noteq> 255"
  shows "pa_wf (count_state p (rc s p + 1) s)"
    and "used (count_state p (rc s p + 1) s) = used s"
proof -
  have nz: "rc s p + 1 \<noteq> 0"
  proof
    assume "rc s p + 1 = 0"
    then have "rc s p = - 1" by (simp only: eq_neg_iff_add_eq_0)
    then show False using p(3) by simp
  qed
  have rc: "rc (count_state p (rc s p + 1) s) q = (if q = p then rc s p + 1 else rc s q)"
    if "q < npages s" for q
    using npages_index [OF wf] p(1) that by (intro rc_count_state)
  show used: "used (count_state p (rc s p + 1) s) = used s"
    using rc nz p by (auto simp: used_def split: if_splits)
  show "pa_wf (count_state p (rc s p + 1) s)"
  proof (rule pa_wf_step [OF wf])
    fix q assume "q < npages s" "pinned s q"
    then show "rc (count_state p (rc s p + 1) s) q \<noteq> 0"
      using pa_wfD(4) [OF wf] nz rc by simp
  qed (use pa_wfD(5) [OF wf] used in simp_all)
qed

lemma ref_release_wf:
  assumes wf: "pa_wf s" and p: "p < npages s" "rc s p \<noteq> 0" "rc s p = 1 \<Longrightarrow> \<not> pinned s p"
  shows "pa_wf (release_state p s)"
    and "used (release_state p s) = (if rc s p = 1 then used s - {p} else used s)"
proof -
  have rc: "rc (release_state p s) q = (if q = p then rc s p - 1 else rc s q)"
    if "q < npages s" for q
    using npages_index [OF wf] p(1) that by (intro rc_release_state)
  show used: "used (release_state p s) = (if rc s p = 1 then used s - {p} else used s)"
    using rc p by (auto simp: used_def split: if_splits)
  have pu: "p \<in> used s" using p by (simp add: used_def)
  then have card: "0 < card (used s)" by (auto simp: card_gt_0_iff)
  have cnt: "unat (allocated_pages (palloc s)) = card (used s)" using wf by (rule pa_wfD)
  then have nz: "allocated_pages (palloc s) \<noteq> 0" using card by auto
  show "pa_wf (release_state p s)"
  proof (rule pa_wf_step [OF wf])
    fix q assume "q < npages s" "pinned s q"
    then show "rc (release_state p s) q \<noteq> 0"
      using pa_wfD(4) [OF wf] p rc by auto
  next
    show "unat (allocated_pages (palloc (release_state p s))) = card (used (release_state p s))"
      using cnt pu nz unat_minus_1 [OF nz]
      by (simp add: used, simp add: release_state_def Let_def)
  qed simp_all
qed

text \<open>
  The count is 8 bits wide and the increment is not checked: the 256th reference makes the page
  look free, while the number of used pages is not corrected.
\<close>

lemma ref_acquire_overflow:
  assumes wf: "pa_wf s" and p: "p < npages s" "rc s p = 255"
  shows "rc (count_state p (rc s p + 1) s) p = 0" "\<not> pa_wf (count_state p (rc s p + 1) s)"
proof -
  have rc: "rc (count_state p (rc s p + 1) s) q = (if q = p then 0 else rc s q)"
    if "q < npages s" for q
    using npages_index [OF wf] p that by (simp add: rc_count_state)
  then show "rc (count_state p (rc s p + 1) s) p = 0" using p(1) by simp
  have "used (count_state p (rc s p + 1) s) = used s - {p}"
    using rc p by (auto simp: used_def split: if_splits)
  moreover have "p \<in> used s" using p by (simp add: used_def)
  ultimately have "card (used (count_state p (rc s p + 1) s)) \<noteq> card (used s)"
    using card_Diff1_less [OF finite_used, of p s] by (metis less_irrefl)
  then show "\<not> pa_wf (count_state p (rc s p + 1) s)"
    using pa_wfD(5) [OF wf] by (auto dest!: pa_wfD(5))
qed


subsection \<open>Construction\<close>

lemma init_entry_simps [simp]:
  "rtab (init_entry ff i s) = rtab s" "num_pages (palloc (init_entry ff i s)) = num_pages (palloc s)"
  "held (init_entry ff i s) = held s" "console (init_entry ff i s) = console s"
  "next_alloc sz (palloc (init_entry ff i s)) = next_alloc sz (palloc s)"
  by (simp_all add: init_entry_def)

lemma init_loop_simps [simp]:
  "rtab (fold (init_entry ff) is s) = rtab s"
  "num_pages (palloc (fold (init_entry ff) is s)) = num_pages (palloc s)"
  "held (fold (init_entry ff) is s) = held s"
  "console (fold (init_entry ff) is s) = console s"
  "next_alloc sz (palloc (fold (init_entry ff) is s)) = next_alloc sz (palloc s)"
  by (induction "is" arbitrary: s) simp_all

lemma word_less_of_nat: "k < 2 ^ 32 \<Longrightarrow> f < 2 ^ 32 \<Longrightarrow> (of_nat k :: u32) < of_nat f \<longleftrightarrow> k < f"
  by (simp add: word_less_nat_alt)

lemma rc_init_loop:
  "k \<le> 2 ^ 31 \<Longrightarrow> f < 2 ^ 32 \<Longrightarrow> p < k \<Longrightarrow>
   rc (fold (init_entry (of_nat f)) [0..<k] s) p = (if p < f then 1 else 0)"
proof (induction k)
  case (Suc k)
  let ?t = "fold (init_entry (of_nat f)) [0..<k] s"
  have "rc (init_entry (of_nat f) k ?t) p
      = (if p = k then (if k < f then 1 else 0) else rc ?t p)"
    using Suc.prems word_less_of_nat [of k f]
    by (auto simp: init_entry_def rc_set_refcount)
  then show ?case using Suc by (auto simp: less_Suc_eq)
qed simp

lemma allocated_init_loop:
  "k \<le> 2 ^ 31 \<Longrightarrow> f < 2 ^ 32 \<Longrightarrow> allocated_pages (palloc s) = 0 \<Longrightarrow>
   allocated_pages (palloc (fold (init_entry (of_nat f)) [0..<k] s)) = of_nat (min k f)"
proof (induction k)
  case (Suc k)
  then have "allocated_pages (palloc (fold (init_entry (of_nat f)) [0..<k] s)) = of_nat (min k f)"
    by simp
  moreover have "(of_nat k :: u32) < of_nat f \<longleftrightarrow> k < f"
    using Suc.prems by (intro word_less_of_nat) simp_all
  ultimately have "allocated_pages (palloc (init_entry (of_nat f) k
      (fold (init_entry (of_nat f)) [0..<k] s))) = of_nat (min (Suc k) f)"
    by (auto simp: init_entry_def [of _ k] min_def not_less)
  then show ?case by simp
qed simp

lemma mem_init_loop:
  "(\<And>q. q < k \<Longrightarrow> b \<noteq> rtab s + of_nat q) \<Longrightarrow>
   mem (fold (init_entry ff) [0..<k] s) b = mem s b"
proof (induction k)
  case (Suc k)
  let ?t = "fold (init_entry ff) [0..<k] s"
  have "b \<noteq> rtab ?t + of_nat k" using Suc.prems [of k] by simp
  then have "mem (init_entry ff k ?t) b = mem ?t b"
    by (simp add: init_entry_def mem_set_refcount)
  then show ?case using Suc by simp
qed simp

lemma emit_rc [simp]: "rc (emit bs s) = rc s" "npages (emit bs s) = npages s"
  "used (emit bs s) = used s" "pinned (emit bs s) = pinned s"
  by (simp_all add: rc_def refcount_def npages_def used_def pinned_def fun_eq_iff emit_def)

text \<open>The first page the constructor leaves free: those below hold the image and the table.\<close>

definition first_page :: "u32 \<Rightarrow> u32 \<Rightarrow> nat" where
  "first_page ram loc = frame loc + (unat ram div 4096 + 4095) div 4096"

text \<open>What the constructor prints.\<close>

definition alloc_log :: "u32 \<Rightarrow> u32 \<Rightarrow> u8 list" where
  "alloc_log ram loc = line_of ''Initialising page allocator'' @
     bytes_of ''refcount_table = '' @ puthex_bytes loc @ putline_bytes @
     bytes_of ''num_pages = '' @ puthex_bytes (ram div PAGE_SIZE) @ putline_bytes @
     bytes_of ''pages_used_for_table = '' @ puthex_bytes (pages_used_for_table (ram div PAGE_SIZE)) @ putline_bytes @
     bytes_of ''allocated_pages = '' @ puthex_bytes (of_nat (min (unat ram div 4096) (first_page ram loc))) @
     putline_bytes @ putline_bytes"

lemma PageAlloc_state:
  fixes ram loc s
  defines "t \<equiv> PageAlloc ram loc s"
  shows "rtab t = loc" "npages t = unat ram div 4096" "\<not> held t PageAllocLock"
    "next_alloc sz (palloc t) = next_alloc sz (palloc s)"
    "p < npages t \<Longrightarrow> rc t p = (if p < first_page ram loc then 1 else 0)"
    "unat (allocated_pages (palloc t)) = min (npages t) (first_page ram loc)"
    "(\<And>q. q < npages t \<Longrightarrow> b \<noteq> loc + of_nat q) \<Longrightarrow> mem t b = mem s b"
    "console t = console s @ alloc_log ram loc"
proof -
  let ?n = "unat ram div 4096" and ?f = "first_page ram loc"
  have n: "?n < 2 ^ 20" using frame_less [of ram] by (simp add: frame_def)
  have f: "?f < 2 ^ 32" using frame_less [of loc] n by (simp add: first_page_def)
  have un: "unat (ram div PAGE_SIZE) = ?n" by (simp add: unat_div32)
  have u: "unat (pages_used_for_table (ram div PAGE_SIZE)) = (?n + 4095) div 4096"
  proof -
    have "ram div PAGE_SIZE * 1 + PAGE_SIZE - 1 = ram div PAGE_SIZE + 4095" by simp
    then show ?thesis using un n by (simp add: pages_used_for_table_def unat_div32 unat_add32)
  qed
  have ff: "loc div PAGE_SIZE + pages_used_for_table (ram div PAGE_SIZE) = of_nat ?f"
  proof -
    have "unat (loc div PAGE_SIZE + pages_used_for_table (ram div PAGE_SIZE)) = ?f"
      using u n frame_less [of loc]
      by (subst unat_add32) (simp_all add: unat_div32 first_page_def frame_def)
    then show ?thesis using f by (simp only: word_eq_iff_unat32 unat_of_nat32)
  qed
  let ?s = "init_members ram loc s"
  let ?t = "fold (init_entry (of_nat ?f)) [0..<?n] ?s"
  have s: "rtab ?s = loc" "num_pages (palloc ?s) = ram div PAGE_SIZE" "\<not> held ?s PageAllocLock"
      "allocated_pages (palloc ?s) = 0" "next_alloc sz (palloc ?s) = next_alloc sz (palloc s)"
      "mem ?s = mem s" for sz
    by (simp_all add: init_members_def next_alloc_def Let_def emit_def)
  have t: "t = emit (bytes_of ''allocated_pages = '' @ puthex_bytes (allocated_pages (palloc ?t))
      @ putline_bytes @ putline_bytes) ?t"
    unfolding t_def PageAlloc_def Let_def s ff un ..
  have k: "?n \<le> 2 ^ 31" using n by simp
  show "rtab t = loc" "\<not> held t PageAllocLock" "next_alloc sz (palloc t) = next_alloc sz (palloc s)"
    unfolding t using s by simp_all
  show np: "npages t = ?n" unfolding t using s un by (simp add: npages_def)
  show "p < npages t \<Longrightarrow> rc t p = (if p < ?f then 1 else 0)"
    unfolding np unfolding t using rc_init_loop [OF k f] by simp
  show "unat (allocated_pages (palloc t)) = min (npages t) ?f"
    unfolding np unfolding t using allocated_init_loop [OF k f] s(4) k f by simp
  show "(\<And>q. q < npages t \<Longrightarrow> b \<noteq> loc + of_nat q) \<Longrightarrow> mem t b = mem s b"
    unfolding np unfolding t using mem_init_loop [of ?n b ?s] s by simp
  have "allocated_pages (palloc ?t) = of_nat (min ?n ?f)" by (rule allocated_init_loop [OF k f s(4)])
  then show "console t = console s @ alloc_log ram loc"
    unfolding t by (simp add: alloc_log_def init_members_def Let_def)
qed


lemma first_page_pos: "4096 \<le> unat ram \<Longrightarrow> 0 < first_page ram loc"
proof -
  assume "4096 \<le> unat ram"
  then have "1 \<le> unat ram div 4096" by (simp add: less_eq_div_iff_mult_less_eq)
  then have "0 < (unat ram div 4096 + 4095) div 4096" by linarith
  then show ?thesis by (simp add: first_page_def)
qed

lemma table_below_first_page:
  assumes "aligned 12 loc" "q < unat ram div 4096" "unat loc + unat ram div 4096 \<le> 2 ^ 32"
  shows "frame (loc + of_nat q) < first_page ram loc"
proof -
  obtain a where a: "unat loc = 4096 * a" using assms(1) unfolding aligned_def by auto
  have "unat (loc + of_nat q) = unat loc + q" using assms(2,3) by (subst unat_add32) simp_all
  then have "frame (loc + of_nat q) = a + q div 4096" by (simp add: frame_def a)
  moreover have "q div 4096 < (unat ram div 4096 + 4095) div 4096" using assms(2) by linarith
  ultimately show ?thesis by (simp add: first_page_def frame_def a)
qed

lemma PageAlloc_pa_wf:
  assumes "aligned 12 loc" "4096 \<le> unat ram" "unat loc + unat ram div 4096 \<le> 2 ^ 32"
    and "\<forall>sz \<in> sizes. next_alloc sz (palloc s) = 0"
  shows "pa_wf (PageAlloc ram loc s)"
proof -
  let ?t = "PageAlloc ram loc s"
  note st = PageAlloc_state [where ram = ram and loc = loc and s = s]
  have n: "0 < npages ?t" "npages ?t < 2 ^ 20"
    using assms(2) frame_less [of ram] by (simp_all add: st frame_def div_greater_zero_iff)
  have pins: "rc ?t p \<noteq> 0" if "p < npages ?t" "pinned ?t p" for p
  proof -
    have "p < first_page ram loc"
      using that first_page_pos [OF assms(2)] table_below_first_page [OF assms(1) _ assms(3)]
      by (auto simp: pinned_def st)
    then show ?thesis using that(1) by (simp add: st)
  qed
  have "used ?t = {..<min (npages ?t) (first_page ram loc)}"
    by (auto simp: used_def st split: if_splits)
  then have "unat (allocated_pages (palloc ?t)) = card (used ?t)" by (simp add: st)
  then show ?thesis unfolding pa_wf_def using n pins assms(3,4) by (simp add: st)
qed

subsection \<open>Ranges of pages\<close>

text \<open>
  What the reference-count operations leave alone: everything but the bytes of the table and the
  number of used pages.
\<close>

definition only_counts :: "kstate \<Rightarrow> kstate \<Rightarrow> bool" where
  "only_counts s s' \<longleftrightarrow> rtab s' = rtab s \<and> num_pages (palloc s') = num_pages (palloc s) \<and>
     (\<forall>sz. next_alloc sz (palloc s') = next_alloc sz (palloc s)) \<and> held s' = held s \<and>
     console s' = console s \<and>
     (\<forall>b. (\<forall>q < npages s. b \<noteq> rtab s + of_nat q) \<longrightarrow> mem s' b = mem s b)"

lemma only_counts_refl [simp]: "only_counts s s"
  by (simp add: only_counts_def)

lemma only_counts_npages: "only_counts s s' \<Longrightarrow> npages s' = npages s"
  by (simp add: only_counts_def npages_def)

lemma only_counts_pinned: "only_counts s s' \<Longrightarrow> pinned s' = pinned s"
  using only_counts_npages [of s s'] by (simp add: only_counts_def pinned_def fun_eq_iff)

lemma only_counts_trans: "only_counts s t \<Longrightarrow> only_counts t u \<Longrightarrow> only_counts s u"
  using only_counts_npages [of s t] unfolding only_counts_def by simp

lemma only_counts_count_state: "p < npages s \<Longrightarrow> only_counts s (count_state p v s)"
  by (auto simp: only_counts_def mem_count_state)

lemma only_counts_release_state: "p < npages s \<Longrightarrow> only_counts s (release_state p s)"
  by (auto simp: only_counts_def mem_release_state)

lemma page_ix_add:
  "page_ix page + i < 2 ^ 20 \<Longrightarrow> page_ix (page + of_nat i * PAGE_SIZE) = page_ix page + i"
proof -
  assume lt: "page_ix page + i < 2 ^ 20"
  have u: "unat (of_nat i * PAGE_SIZE :: u32) = i * 4096" using lt by (intro unat_page_address) simp
  have "unat page < (page_ix page + 1) * 4096"
    unfolding page_ix_def by (metis add.commute div_less_iff_less_mult less_add_one zero_less_numeral)
  then have "unat page + i * 4096 < 2 ^ 32" using lt by simp
  then have "unat (page + of_nat i * PAGE_SIZE) = unat page + i * 4096"
    using u by (subst unat_add32) simp_all
  then show ?thesis by (simp add: page_ix_def)
qed

lemma acquire_loop:
  assumes wf: "pa_wf s" and l: "\<not> held s PageAllocLock"
    and r: "page_ix page + k \<le> npages s"
    and c: "\<And>q. page_ix page \<le> q \<Longrightarrow> q < page_ix page + k \<Longrightarrow> rc s q \<noteq> 0 \<and> rc s q \<noteq> 255"
  shows "\<exists>s'. for_each (\<lambda>i s. bind_ok (ref_acquire (page + of_nat i * PAGE_SIZE) s) (\<lambda>_. Ok ())) [0..<k] s
      = Ok () s' \<and> only_counts s s' \<and> pa_wf s' \<and> used s' = used s \<and>
      (\<forall>q < npages s. rc s' q
        = (if page_ix page \<le> q \<and> q < page_ix page + k then rc s q + 1 else rc s q))"
  using r c
proof (induction k)
  case 0
  then show ?case using wf by simp
next
  case (Suc k)
  let ?b = "\<lambda>i s. bind_ok (ref_acquire (page + of_nat i * PAGE_SIZE) s) (\<lambda>_. Ok ())"
  let ?p = "page_ix page"
  obtain t where t: "for_each ?b [0..<k] s = Ok () t" "only_counts s t" "pa_wf t" "used t = used s"
    "\<forall>q < npages s. rc t q = (if ?p \<le> q \<and> q < ?p + k then rc s q + 1 else rc s q)"
    using Suc by auto
  have n: "npages t = npages s" using t(2) by (rule only_counts_npages)
  have pk: "?p + k < npages t" using Suc.prems(1) n by simp
  have ix: "page_ix (page + of_nat k * PAGE_SIZE) = ?p + k"
    using pk pa_wfD(2) [OF t(3)] by (intro page_ix_add) simp
  have rck: "rc t (?p + k) = rc s (?p + k)" using t(5) pk n by simp
  have nz: "rc t (?p + k) \<noteq> 0" "rc t (?p + k) \<noteq> 255"
    using rck Suc.prems(2) [of "?p + k"] by simp_all
  let ?u = "count_state (?p + k) (rc t (?p + k) + 1) t"
  have "\<not> held t PageAllocLock" using t(2) l by (simp add: only_counts_def)
  then have "?b k t = Ok () ?u"
    using ref_acquire_eq [of t "page + of_nat k * PAGE_SIZE"] ix pk nz by simp
  then have "for_each ?b [0..<Suc k] s = Ok () ?u" using t(1) by (simp add: for_each_append)
  moreover have "only_counts s ?u"
    using t(2) only_counts_count_state [OF pk] by (rule only_counts_trans)
  moreover have "pa_wf ?u" "used ?u = used s"
    using ref_acquire_wf [OF t(3) pk nz] t(4) by simp_all
  moreover have "rc ?u q = (if ?p \<le> q \<and> q < ?p + Suc k then rc s q + 1 else rc s q)"
    if q: "q < npages s" for q
  proof -
    have "rc ?u q = (if q = ?p + k then rc t (?p + k) + 1 else rc t q)"
      using npages_index [OF t(3)] pk q n by (intro rc_count_state) simp_all
    then show ?thesis using t(5) q rck by auto
  qed
  ultimately show ?case by blast
qed

lemma ref_acquire_range_Ok:
  assumes "pa_wf s" "\<not> held s PageAllocLock" "page_ix page + unat sz \<le> npages s"
    and "\<And>q. page_ix page \<le> q \<Longrightarrow> q < page_ix page + unat sz \<Longrightarrow> rc s q \<noteq> 0 \<and> rc s q \<noteq> 255"
  obtains s' where "ref_acquire_range page sz s = Ok () s'" "only_counts s s'" "pa_wf s'"
    "used s' = used s"
    "\<And>q. q < npages s \<Longrightarrow> rc s' q
      = (if page_ix page \<le> q \<and> q < page_ix page + unat sz then rc s q + 1 else rc s q)"
  unfolding ref_acquire_range_def using acquire_loop [OF assms] that by blast

lemma release_loop:
  assumes wf: "pa_wf s" and l: "\<not> held s PageAllocLock"
    and r: "page_ix page + k \<le> npages s"
    and c: "\<And>q. page_ix page \<le> q \<Longrightarrow> q < page_ix page + k \<Longrightarrow> rc s q \<noteq> 0 \<and> (rc s q = 1 \<longrightarrow> \<not> pinned s q)"
  shows "\<exists>s'. for_each (\<lambda>i s. bind_ok (ref_release (page + of_nat i * PAGE_SIZE) s) (\<lambda>_. Ok ())) [0..<k] s
      = Ok () s' \<and> only_counts s s' \<and> pa_wf s' \<and>
      (\<forall>q < npages s. rc s' q
        = (if page_ix page \<le> q \<and> q < page_ix page + k then rc s q - 1 else rc s q))"
  using r c
proof (induction k)
  case 0
  then show ?case using wf by simp
next
  case (Suc k)
  let ?b = "\<lambda>i s. bind_ok (ref_release (page + of_nat i * PAGE_SIZE) s) (\<lambda>_. Ok ())"
  let ?p = "page_ix page"
  obtain t where t: "for_each ?b [0..<k] s = Ok () t" "only_counts s t" "pa_wf t"
    "\<forall>q < npages s. rc t q = (if ?p \<le> q \<and> q < ?p + k then rc s q - 1 else rc s q)"
    using Suc by auto
  have n: "npages t = npages s" using t(2) by (rule only_counts_npages)
  have pk: "?p + k < npages t" using Suc.prems(1) n by simp
  have ix: "page_ix (page + of_nat k * PAGE_SIZE) = ?p + k"
    using pk pa_wfD(2) [OF t(3)] by (intro page_ix_add) simp
  have rck: "rc t (?p + k) = rc s (?p + k)" using t(4) pk n by simp
  have nz: "rc t (?p + k) \<noteq> 0" and un: "rc t (?p + k) = 1 \<Longrightarrow> \<not> pinned t (?p + k)"
    using rck Suc.prems(2) [of "?p + k"] only_counts_pinned [OF t(2)] by simp_all
  let ?u = "release_state (?p + k) t"
  have "\<not> held t PageAllocLock" using t(2) l by (simp add: only_counts_def)
  then have "?b k t = Ok () ?u"
    using ref_release_eq [of t "page + of_nat k * PAGE_SIZE"] ix pk nz by simp
  then have "for_each ?b [0..<Suc k] s = Ok () ?u" using t(1) by (simp add: for_each_append)
  moreover have "only_counts s ?u"
    using t(2) only_counts_release_state [OF pk] by (rule only_counts_trans)
  moreover have "pa_wf ?u" using ref_release_wf [OF t(3) pk nz un] by simp
  moreover have "rc ?u q = (if ?p \<le> q \<and> q < ?p + Suc k then rc s q - 1 else rc s q)"
    if q: "q < npages s" for q
  proof -
    have "rc ?u q = (if q = ?p + k then rc t (?p + k) - 1 else rc t q)"
      using npages_index [OF t(3)] pk q n by (intro rc_release_state) simp_all
    then show ?thesis using t(4) q rck by auto
  qed
  ultimately show ?case by blast
qed

lemma ref_release_range_Ok:
  assumes "pa_wf s" "\<not> held s PageAllocLock" "page_ix page + unat sz \<le> npages s"
    and "\<And>q. page_ix page \<le> q \<Longrightarrow> q < page_ix page + unat sz \<Longrightarrow>
      rc s q \<noteq> 0 \<and> (rc s q = 1 \<longrightarrow> \<not> pinned s q)"
  obtains s' where "ref_release_range page sz s = Ok () s'" "only_counts s s'" "pa_wf s'"
    "\<And>q. q < npages s \<Longrightarrow> rc s' q
      = (if page_ix page \<le> q \<and> q < page_ix page + unat sz then rc s q - 1 else rc s q)"
  unfolding ref_release_range_def using release_loop [OF assms] that by blast

end
