(* ===== verification/Descriptors.thy ===== *)
theory Descriptors
  imports Page_Table Page_Alloc_Ops
begin

unbundle bit_operations_syntax

text \<open>
  What the descriptor words written by \<^verbatim>\<open>src/src/pagetable.cc\<close> mean: the fields of each kind
  of descriptor, and the address arithmetic of the two-level walk over page numbers.
\<close>

named_theorems descriptor_simps \<open>fields of the descriptors the code writes\<close>

subsection \<open>Fields\<close>

lemma aligned_and_0: "aligned k a \<Longrightarrow> m AND NOT (mask k) = 0 \<Longrightarrow> a AND m = 0"
proof -
  assume "aligned k a" and m: "m AND NOT (mask k) = 0"
  have "a AND m = (a AND NOT (mask k)) AND m" using \<open>aligned k a\<close> by (simp only: aligned_and_id)
  also have "\<dots> = a AND (m AND NOT (mask k))" by (simp only: and.assoc and.commute [of m])
  finally show ?thesis using m by simp
qed

lemma aligned_and_eq: "aligned k a \<Longrightarrow> NOT (mask k) AND m = NOT (mask k) \<Longrightarrow> a AND m = a"
proof -
  assume "aligned k a" and m: "NOT (mask k) AND m = NOT (mask k)"
  then have "a AND m = a AND (NOT (mask k) AND m)" by (metis aligned_and_id and.assoc)
  then show ?thesis using m \<open>aligned k a\<close> by (simp add: aligned_and_id)
qed

lemma and_or_distrib: "(a OR c) AND m = (a AND m) OR (c AND m)" for a :: u32
  by (rule bit.conj_disj_distrib2)

lemma page_aligned_fields:
  assumes "aligned 12 a"
  shows "a AND 0x1 = 0" "a AND 0x2 = 0" "a AND 0x3 = 0" "a AND 0x7 = 0" "a AND 0x4 = 0" "a AND 0x10 = 0"
    "a AND 0xfff = 0" "a AND 0xfffffc00 = a" "a AND 0xfffff000 = a"
  by (rule aligned_and_0 [OF assms] aligned_and_eq [OF assms], simp only: not_masks [symmetric], simp)+

lemma section_aligned_fields:
  assumes "aligned 20 a"
  shows "a AND 0x00040000 = 0" "a AND 0xfff00000 = a" "a AND 0xfffff = 0"
  by (rule aligned_and_0 [OF assms] aligned_and_eq [OF assms], simp only: not_masks [symmetric], simp)+

lemma supersection_aligned_fields:
  assumes "aligned 24 a"
  shows "a AND 0xff000000 = a"
  by (rule aligned_and_eq [OF assms], simp only: not_masks [symmetric], simp)

text \<open>A second-level table, a committed page, a committed section, a committed supersection.\<close>

lemma table_descriptor [descriptor_simps]:
  assumes "aligned 12 t"
  shows "(t OR 0x1) AND 0x3 = 1" "(t OR 0x1) AND 0x7 = 1" "(t OR 0x1) AND 0xfffffc00 = t"
  using page_aligned_fields [OF assms] by (simp_all add: and_or_distrib)

lemma page_descriptor [descriptor_simps]:
  assumes "aligned 12 a"
  shows "(a OR 0x2) AND 0x7 = 2" "(a OR 0x2) AND 0x2 = 2" "(a OR 0x2) AND 0x3 = 2"
    "(a OR 0x2) AND 0xfffff000 = a"
  using page_aligned_fields [OF assms] by (simp_all add: and_or_distrib)

lemma section_descriptor [descriptor_simps]:
  assumes "aligned 20 a"
  shows "(a OR 0x2) AND 0x00040000 = 0" "(a OR 0x2) AND 0xfff00000 = a"
  using section_aligned_fields [OF assms] by (simp_all add: and_or_distrib)

lemma supersection_descriptor [descriptor_simps]:
  assumes "aligned 24 a"
  shows "(a OR 0x00040002) AND 0x7 = 2" "(a OR 0x00040002) AND 0x3 = 2"
    "(a OR 0x00040002) AND 0x00040000 = 0x00040000" "(a OR 0x00040002) AND 0xff000000 = a"
  using page_aligned_fields [of a] section_aligned_fields [of a] supersection_aligned_fields [of a] assms
    aligned_mono [of 24 a 12] aligned_mono [of 24 a 20]
  by (simp_all add: and_or_distrib)

lemma and_3_7: "e AND 0x3 = (e AND 0x7) AND 0x3" for e :: u32
  by (simp add: and.assoc)

lemma and_2_7: "e AND 0x2 = (e AND 0x7) AND 0x2" for e :: u32
  by (simp add: and.assoc)

subsection \<open>Addresses as page numbers\<close>

lemma frame_div_256: "unat (drop_bit 20 va) = frame va div 256"
  by (simp add: unat_drop_bit32 frame_def div_mult2_eq [symmetric])

lemma frame_mod_256: "unat (drop_bit 12 va AND 0xff) = frame va mod 256"
proof -
  have "drop_bit 12 va AND 0xff = drop_bit 12 va AND mask 8" by (simp only: masks)
  then show ?thesis by (simp only: unat_and_mask unat_drop_bit32 frame_def) simp
qed

lemma frame_and_page [simp]: "frame (va AND 0xfffff000) = frame va"
  unfolding not_masks frame_def by (simp add: unat_and_not_mask)

lemma frame_and_section: "frame (va AND 0xfff00000) = frame va div 256 * 256"
  unfolding not_masks frame_def by (simp add: unat_and_not_mask div_mult2_eq [symmetric])

lemma frame_and_supersection: "frame (va AND 0xff000000) = frame va div 4096 * 4096"
  unfolding not_masks frame_def by (simp add: unat_and_not_mask div_mult2_eq [symmetric])

lemma frame_page_ix: "page_ix a = frame a"
  by (simp add: page_ix_def frame_def)

lemma frame_add_page:
  "frame a + i < 2 ^ 20 \<Longrightarrow> frame (a + of_nat i * PAGE_SIZE) = frame a + i"
  using page_ix_add [of a i] by (simp add: frame_page_ix)

lemma frame_add_section:
  "frame a + 256 * i < 2 ^ 20 \<Longrightarrow> frame (a + of_nat i * SECTION_SIZE) = frame a + 256 * i"
  using frame_add_page [of a "256 * i"] by (simp add: mult.assoc mult.left_commute)

lemma unat_frame: "aligned 12 a \<Longrightarrow> unat a = 4096 * frame a"
  by (auto simp: aligned_def frame_def)

lemma aligned_frame: "aligned 12 a \<Longrightarrow> a = of_nat (frame a) * PAGE_SIZE"
  using unat_page_address [OF frame_less [of a]] by (simp add: word_eq_iff_unat32 unat_frame)

lemma aligned_page_address [simp]: "aligned 12 (of_nat f * PAGE_SIZE)"
  using aligned_mult [of 12 PAGE_SIZE "of_nat f"] by (simp add: aligned_def mult.commute)

lemma frame_page_address [simp]: "f < 2 ^ 20 \<Longrightarrow> frame (of_nat f * PAGE_SIZE) = f"
  using unat_page_address [of f] by (simp add: frame_def)

lemma aligned_frame_iff: "aligned 12 a \<Longrightarrow> k \<le> 20 \<Longrightarrow> aligned (12 + k) a \<longleftrightarrow> 2 ^ k dvd frame a"
proof -
  assume a: "aligned 12 a" and "k \<le> 20"
  have "aligned (12 + k) a \<longleftrightarrow> 2 ^ 12 * 2 ^ k dvd 2 ^ 12 * frame a"
    using unat_frame [OF a] by (simp add: aligned_def power_add mod_eq_0_iff_dvd)
  then show ?thesis by (simp only: nat_mult_dvd_cancel_disj) simp
qed

end
