(* ===== verification/Page_Provider.thy ===== *)
theory Page_Provider
  imports Descriptors
begin

unbundle bit_operations_syntax

text \<open>
  The interface between the page tables and the page allocator.  A provider hands out blocks of
  pages nobody owns; owned pages keep their contents and stay owned.  \<open>PageAlloc::alloc\<close> is a
  provider for each of its four sizes.  Page tables live in owned pages, so from this contract
  alone every word of every table survives an allocation.
\<close>

text \<open>A page in use that is not part of the allocator's own table.\<close>

definition owned :: "kstate \<Rightarrow> nat \<Rightarrow> bool" where
  "owned s f \<longleftrightarrow> f \<in> used s \<and> \<not> pinned s f"

locale page_provider =
  fixes provide :: "'s \<Rightarrow> ('s, u32) outcome"
    and pages :: nat
    and inv :: "'s \<Rightarrow> bool"
    and own :: "'s \<Rightarrow> nat \<Rightarrow> bool"
    and bytes_at :: "'s \<Rightarrow> memory"
  assumes inv_kept: "inv s \<Longrightarrow> provide s = Ok r s' \<Longrightarrow> inv s'"
    and fresh_aligned: "inv s \<Longrightarrow> provide s = Ok r s' \<Longrightarrow> aligned 12 r \<and> pages dvd frame r \<and> 0 < pages"
    and fresh_not_owned: "inv s \<Longrightarrow> provide s = Ok r s' \<Longrightarrow> j < pages \<Longrightarrow> \<not> own s (frame r + j)"
    and fresh_owned: "inv s \<Longrightarrow> provide s = Ok r s' \<Longrightarrow> j < pages \<Longrightarrow> own s' (frame r + j)"
    and owned_kept: "inv s \<Longrightarrow> provide s = Ok r s' \<Longrightarrow> own s f \<Longrightarrow> own s' f"
    and contents_kept: "inv s \<Longrightarrow> provide s = Ok r s' \<Longrightarrow> own s (frame b) \<Longrightarrow> bytes_at s' b = bytes_at s b"
begin

text \<open>Words of owned pages, and therefore whole arrays in them, are unchanged.\<close>

lemma word_kept:
  assumes "inv s" "provide s = Ok r s'" "aligned 2 a" "own s (frame a)"
  shows "load32 (bytes_at s') a = load32 (bytes_at s) a"
  by (rule load32_cong) (metis assms contents_kept frame_aligned_add_word)

lemma fresh_frame_differs:
  assumes "inv s" "provide s = Ok r s'" "own s f"
  shows "f \<noteq> frame r"
  using fresh_not_owned [OF assms(1,2), of 0] fresh_aligned [OF assms(1,2)] assms(3) by auto

text \<open>Two pages got one after the other are different.\<close>

lemma two_pages_differ:
  assumes "inv s" "provide s = Ok r s'" "provide s' = Ok r' s''"
  shows "frame r \<noteq> frame r'"
proof -
  have "own s' (frame r)"
    using fresh_owned [OF assms(1,2), of 0] fresh_aligned [OF assms(1,2)] by simp
  then show ?thesis using fresh_frame_differs [OF inv_kept [OF assms(1,2)] assms(3)] by blast
qed

end

text \<open>What \<open>alloc\<close> needs beside its invariant: RAM is a whole number of blocks.\<close>

definition serves :: "u32 \<Rightarrow> kstate \<Rightarrow> bool" where
  "serves sz s \<longleftrightarrow> pa_wf s \<and> unat sz dvd npages s"

lemma pinned_alloc_state [simp]: "pinned (alloc_state sz f s) = pinned s"
  by (rule ext, rule pinned_cong) simp_all

lemma owned_alloc_state:
  assumes "allocatable s sz f"
  shows "owned (alloc_state sz f s) p \<longleftrightarrow> owned s p \<or> f \<le> p \<and> p < f + unat sz"
  using used_alloc_state [OF assms] allocatable_free(2) [OF assms] by (auto simp: owned_def)

lemma owned_not_table: "owned s f \<Longrightarrow> q < npages s \<Longrightarrow> frame (rtab s + of_nat q) \<noteq> f"
  by (auto simp: owned_def pinned_def)

lemma owned_less: "owned s f \<Longrightarrow> f < npages s"
  by (simp add: owned_def used_def)

lemma owned_pos: "owned s f \<Longrightarrow> 0 < f"
  by (cases f) (auto simp: owned_def pinned_def)

lemma allocatable_not_owned: "allocatable s sz f \<Longrightarrow> f \<le> p \<Longrightarrow> p < f + unat sz \<Longrightarrow> \<not> owned s p"
  using allocatable_free(1) by (auto simp: owned_def used_def)

lemma mem_alloc_owned:
  assumes a: "allocatable s sz f" and o: "owned s (frame b)"
  shows "mem (alloc_state sz f s) b = mem s b"
proof -
  have "frame b \<noteq> f" using allocatable_not_owned [OF a, of f] allocatable_range(2) [OF a] o by auto
  then show ?thesis using mem_alloc_state_other [OF a] owned_not_table [OF o] by metis
qed

lemma alloc_is_provider:
  assumes sz: "sz \<in> sizes"
  shows "page_provider (alloc sz) (unat sz) (serves sz) owned mem"
proof
  fix s r s' f b j
  assume "serves sz s" and ok: "alloc sz s = Ok r s'"
  then have "pa_wf s" "unat sz dvd npages s" by (simp_all add: serves_def)
  then obtain e where e: "allocatable s sz e" "r = of_nat e * PAGE_SIZE" "s' = alloc_state sz e s"
    using alloc_OkD [OF _ sz _ ok] by metis
  have r: "frame r = e" using e(2) allocatable_range(5) [OF e(1)] by simp
  show "serves sz s'" using e wf_alloc_state [OF e(1)] \<open>unat sz dvd npages s\<close> by (simp add: serves_def)
  show "aligned 12 r \<and> unat sz dvd frame r \<and> 0 < unat sz"
    using e r allocatable_range(2) [OF e(1)] by (simp add: allocatable_def)
  show "\<not> owned s (frame r + j)" if "j < unat sz"
    using that allocatable_not_owned [OF e(1)] r by simp
  show "owned s' (frame r + j)" if "j < unat sz"
    using that owned_alloc_state [OF e(1)] r e(3) by simp
  show "owned s' f" if "owned s f" using that owned_alloc_state [OF e(1)] e(3) by simp
  show "mem s' b = mem s b" if "owned s (frame b)" using that mem_alloc_owned [OF e(1)] e(3) by simp
qed

interpretation page1: page_provider "alloc 1" "unat (1 :: u32)" "serves 1" owned mem
  by (rule alloc_is_provider) (simp add: sizes_def)

interpretation page4: page_provider "alloc 4" "unat (4 :: u32)" "serves 4" owned mem
  by (rule alloc_is_provider) (simp add: sizes_def)

lemma serves_1 [simp]: "serves 1 s = pa_wf s"
  by (simp add: serves_def)

text \<open>An allocation also leaves the lock flags, the console and the geometry of the allocator.\<close>

lemma alloc_keeps:
  assumes "pa_wf s" "sz \<in> sizes" "unat sz dvd npages s" "alloc sz s = Ok r s'"
  shows "held s' = held s" "console s' = console s" "npages s' = npages s" "rtab s' = rtab s"
    "\<not> held s PageAllocLock"
    "p < npages s \<Longrightarrow> rc s' p = (if frame r \<le> p \<and> p < frame r + unat sz then 1 else rc s p)"
    "(\<And>q. q < npages s \<Longrightarrow> b \<noteq> rtab s + of_nat q) \<Longrightarrow> frame b \<noteq> frame r \<Longrightarrow> mem s' b = mem s b"
    "\<not> owned s (frame r)" "frame r < npages s" "rc s (frame r) = 0"
proof -
  obtain f where f: "allocatable s sz f" "r = of_nat f * PAGE_SIZE" "s' = alloc_state sz f s"
    "\<not> held s PageAllocLock"
    using alloc_OkD [OF assms] .
  have r: "frame r = f" using f(2) allocatable_range(5) [OF f(1)] by simp
  show "held s' = held s" "console s' = console s" "npages s' = npages s" "rtab s' = rtab s"
    "\<not> held s PageAllocLock"
    using f by simp_all
  show "p < npages s \<Longrightarrow> rc s' p = (if frame r \<le> p \<and> p < frame r + unat sz then 1 else rc s p)"
    unfolding r f(3) by (rule rc_alloc_state [OF f(1)])
  show "(\<And>q. q < npages s \<Longrightarrow> b \<noteq> rtab s + of_nat q) \<Longrightarrow> frame b \<noteq> frame r \<Longrightarrow> mem s' b = mem s b"
    unfolding r f(3) by (simp add: mem_alloc_state_other [OF f(1)])
  show "\<not> owned s (frame r)" "frame r < npages s" "rc s (frame r) = 0"
    using allocatable_not_owned [OF f(1), of f] allocatable_range(2,3) [OF f(1)]
      allocatable_free(1) [OF f(1), of f] by (simp_all add: r)
qed

end
