(* ===== verification/Alloc_Room.thy ===== *)
theory Alloc_Room
  imports Page_Provider
begin

unbundle bit_operations_syntax

text \<open>
  When an allocation cannot fail: every page in use spoils at most one block, and the scan passes
  over at most one free block, so with two more blocks than pages in use \<open>alloc\<close> succeeds whatever
  its hints are.
\<close>

lemma two_of_many:
  fixes A :: "nat set"
  assumes "finite A" "2 \<le> card A"
  obtains x y where "x \<in> A" "y \<in> A" "x \<noteq> y"
proof -
  have "\<not> card A \<le> Suc 0" using assms(2) by simp
  then show thesis using that card_le_Suc0_iff_eq [OF assms(1)] by auto
qed

text \<open>The blocks of \<open>z\<close> pages with a page in use, and \<open>k\<close> more blocks than those.\<close>

definition spoiled :: "nat \<Rightarrow> kstate \<Rightarrow> nat set" where
  "spoiled z s = (\<lambda>p. p div z) ` used s"

definition space :: "nat \<Rightarrow> nat \<Rightarrow> kstate \<Rightarrow> bool" where
  "space z k s \<longleftrightarrow> (card (spoiled z s) + k) * z \<le> npages s"

lemma finite_spoiled [simp]: "finite (spoiled z s)"
  by (simp add: spoiled_def used_def)

lemma spoiled_1 [simp]: "spoiled (Suc 0) s = used s"
  by (simp add: spoiled_def)

lemma spoiled_le: "card (spoiled z s) \<le> card (used s)"
  unfolding spoiled_def by (rule card_image_le) (simp add: used_def)

lemma space_mono: "space z k s \<Longrightarrow> k' \<le> k \<Longrightarrow> space z k' s"
  unfolding space_def by (meson add_le_mono le_refl le_trans mult_le_mono1)

lemma free_blocks:
  assumes z: "0 < z" and n: "npages s = z * n" and room: "card (spoiled z s) + 2 \<le> n"
  obtains e1 e2 where "e1 < n" "e2 < n" "e1 \<noteq> e2" "block_free s z (z * e1)" "block_free s z (z * e2)"
proof -
  let ?B = "{..<n} - spoiled z s"
  have "n - card (spoiled z s) \<le> card ?B"
    using diff_card_le_card_Diff [of "spoiled z s" "{..<n}"] by simp
  then have "2 \<le> card ?B" using room by simp
  then obtain e1 e2 where e: "e1 \<in> ?B" "e2 \<in> ?B" "e1 \<noteq> e2" using two_of_many [of ?B] by auto
  have free: "block_free s z (z * e)" if "e \<in> ?B" for e
  proof -
    have le: "z * e + z \<le> npages s" using that n mult_le_mono2 [of "Suc e" n z] by simp
    have "rc s (z * e + i) = 0" if i: "i < z" for i
    proof (rule ccontr)
      assume "rc s (z * e + i) \<noteq> 0"
      then have "z * e + i \<in> used s" using le i by (simp add: used_def)
      moreover have "(z * e + i) div z = e" using i by simp
      ultimately show False using \<open>e \<in> ?B\<close> unfolding spoiled_def by force
    qed
    then show ?thesis using le by (simp add: block_free_def)
  qed
  show thesis using that [of e1 e2] e free by simp
qed

text \<open>\<open>k\<close> more blocks of size \<open>z\<close> than there are pages in use.\<close>

definition room :: "nat \<Rightarrow> nat \<Rightarrow> kstate \<Rightarrow> bool" where
  "room z k s \<longleftrightarrow> (card (used s) + k) * z \<le> npages s"

lemma room_mono: "room z k s \<Longrightarrow> z' \<le> z \<Longrightarrow> k' \<le> k \<Longrightarrow> room z' k' s"
  unfolding room_def by (meson add_le_mono le_refl le_trans mult_le_mono)

lemma room_space: "room z k s \<Longrightarrow> space z k s"
  unfolding room_def space_def using mult_le_mono1 [OF add_le_mono1 [OF spoiled_le]] le_trans by blast

lemma alloc_space:
  assumes wf: "pa_wf s" and sz: "sz \<in> sizes" "unat sz dvd npages s" and l: "\<not> held s PageAllocLock"
    and room: "space (unat sz) 2 s"
  obtains r s' where "alloc sz s = Ok r s'"
proof -
  let ?z = "unat sz"
  have z: "0 < ?z" using sz(1) by (auto simp: sizes_def)
  obtain n where n: "npages s = ?z * n" using sz(2) by (elim dvdE)
  have "card (spoiled ?z s) + 2 \<le> n" using room z by (simp only: space_def n mult.commute [of ?z] mult_le_cancel2)
  then obtain e1 e2 where e: "e1 < n" "e2 < n" "e1 \<noteq> e2" "block_free s ?z (?z * e1)" "block_free s ?z (?z * e2)"
    using free_blocks [OF z n] by blast
  have "(?z * e1 + ?z) mod npages s \<noteq> (?z * e2 + ?z) mod npages s"
  proof
    assume "(?z * e1 + ?z) mod npages s = (?z * e2 + ?z) mod npages s"
    then have "?z * (Suc e1 mod n) = ?z * (Suc e2 mod n)"
      using mult_mod_right [of ?z "Suc e1" n] mult_mod_right [of ?z "Suc e2" n] by (simp add: n add.commute)
    then have "Suc e1 mod n = Suc e2 mod n" using z by simp
    then show False using e(1-3) by (auto simp: mod_Suc split: if_splits)
  qed
  then obtain e where e': "e < n" "block_free s ?z (?z * e)" "(?z * e + ?z) mod npages s \<noteq> hint sz s"
    using e by metis
  have "?z * e < npages s" using e'(1) z by (simp add: n)
  then have "\<exists>f < npages s. ?z dvd f \<and> block_free s ?z f \<and> (f + ?z) mod npages s \<noteq> hint sz s"
    using e' by (intro exI [of _ "?z * e"]) simp
  then obtain f where "first_free sz s = Some f" "(f + ?z) mod npages s \<noteq> hint sz s"
    using alloc_finds [OF wf sz] by auto
  then show thesis using that alloc_eq [OF wf sz l] by (simp add: Let_def)
qed

lemmas alloc_room = alloc_space [OF _ _ _ _ room_space]

text \<open>What a computation takes of the pages that are free, at most.\<close>

definition spends :: "nat \<Rightarrow> kstate \<Rightarrow> kstate \<Rightarrow> bool" where
  "spends j s s' \<longleftrightarrow> npages s' = npages s \<and> card (used s') \<le> card (used s) + j"

lemma spends_refl: "spends 0 s s"
  by (simp add: spends_def)

lemma spends_trans: "spends i s t \<Longrightarrow> spends j t u \<Longrightarrow> spends (i + j) s u"
  by (simp add: spends_def)

lemma spends_mono: "spends i s t \<Longrightarrow> i \<le> j \<Longrightarrow> spends j s t"
  by (simp add: spends_def)

lemma spends_room:
  assumes "spends j s s'" "room z (k + j) s"
  shows "room z k s'"
proof -
  have "card (used s') + k \<le> card (used s) + (k + j)" using assms(1) by (simp add: spends_def)
  then show ?thesis
    using assms mult_le_mono1 [of "card (used s') + k" "card (used s) + (k + j)" z]
    unfolding room_def spends_def by linarith
qed

text \<open>An allocation takes the pages of its block.\<close>

lemma spends_alloc:
  assumes "pa_wf s" "sz \<in> sizes" "unat sz dvd npages s" "alloc sz s = Ok r s'"
  shows "spends (unat sz) s s'"
proof -
  note ak = alloc_keeps [OF assms]
  have "used s' \<subseteq> used s \<union> {frame r..<frame r + unat sz}"
    using ak(3,6) by (auto simp: used_def split: if_splits)
  moreover have "finite (used s)" by (simp add: used_def)
  ultimately have "card (used s') \<le> card (used s) + unat sz"
    using card_mono [of "used s \<union> {frame r..<frame r + unat sz}" "used s'"]
      card_Un_le [of "used s" "{frame r..<frame r + unat sz}"] by simp
  then show ?thesis using ak(3) by (simp add: spends_def)
qed

lemmas used_alloc = spends_room [OF spends_alloc]

text \<open>Counted in blocks of one size, an allocation of that size takes one.\<close>

definition takes :: "nat \<Rightarrow> nat \<Rightarrow> kstate \<Rightarrow> kstate \<Rightarrow> bool" where
  "takes z j s s' \<longleftrightarrow> npages s' = npages s \<and> card (spoiled z s') \<le> card (spoiled z s) + j"

lemma takes_refl: "takes z 0 s s"
  by (simp add: takes_def)

lemma takes_same: "npages s' = npages s \<Longrightarrow> used s' = used s \<Longrightarrow> takes z 0 s s'"
  by (simp add: takes_def spoiled_def)

lemma takes_trans: "takes z i s t \<Longrightarrow> takes z j t u \<Longrightarrow> takes z (i + j) s u"
  by (simp add: takes_def)

lemma takes_spends: "takes (Suc 0) j s s' = spends j s s'"
  by (simp add: takes_def spends_def)

lemma space_room: "space (Suc 0) k s = room (Suc 0) k s"
  by (simp add: space_def room_def)

lemma takes_space:
  assumes "takes z j s s'" "space z (k + j) s"
  shows "space z k s'"
proof -
  have "card (spoiled z s') + k \<le> card (spoiled z s) + (k + j)" using assms(1) by (simp add: takes_def)
  then show ?thesis
    using assms mult_le_mono1 [of "card (spoiled z s') + k" "card (spoiled z s) + (k + j)" z]
    unfolding space_def takes_def by linarith
qed

lemma takes_alloc:
  assumes "pa_wf s" "sz \<in> sizes" "unat sz dvd npages s" "alloc sz s = Ok r s'"
  shows "takes (unat sz) 1 s s'"
proof -
  note ak = alloc_keeps [OF assms]
  have z: "0 < unat sz" using assms(2) by (auto simp: sizes_def)
  obtain f where f: "allocatable s sz f" "r = of_nat f * PAGE_SIZE" using alloc_OkD [OF assms] by metis
  have fr: "frame r = f" using f(2) allocatable_range(5) [OF f(1)] by simp
  have "unat sz dvd f" using f(1) by (simp add: allocatable_def)
  then obtain k where k: "f = unat sz * k" by (elim dvdE)
  have "p div unat sz = k" if "f \<le> p" "p < f + unat sz" for p
    using that z k by (intro div_nat_eqI) (simp_all add: algebra_simps)
  then have "spoiled (unat sz) s' \<subseteq> insert k (spoiled (unat sz) s)"
    using ak(3,6) fr by (auto simp: spoiled_def used_def split: if_splits)
  then have "card (spoiled (unat sz) s') \<le> card (insert k (spoiled (unat sz) s))" by (intro card_mono) simp_all
  also have "\<dots> \<le> card (spoiled (unat sz) s) + 1" by (simp add: card_insert_if)
  finally show ?thesis using ak(3) by (simp add: takes_def)
qed

end
