(* ===== verification/Alloc_Correct.thy ===== *)
theory Alloc_Correct
  imports Alloc_Room
begin

unbundle bit_operations_syntax

text \<open>
  What the page allocator promises, over the definitions of \<open>Page_Alloc\<close>, each with an
  instance on a small machine: 32 pages of RAM, the table of counts at \<open>0x8000\<close>, so that the
  constructor leaves the pages from 9 on free.
\<close>

subsection \<open>A small machine\<close>

definition power_on :: kstate where
  "power_on = \<lparr>mem = (\<lambda>_. 0), console = [],
     palloc = \<lparr>refcount_table = 0, num_pages = 0, allocated_pages = 0, next_alloc_1 = 0,
       next_alloc_4 = 0, next_alloc_256 = 0, next_alloc_4096 = 0\<rparr>, held = (\<lambda>_. False)\<rparr>"

definition small :: kstate where
  "small = PageAlloc 0x20000 0x8000 power_on"

lemma power_on_hints: "next_alloc sz (palloc power_on) = 0"
  by (simp add: power_on_def next_alloc_def)

lemma small_first_page: "first_page 0x20000 0x8000 = 9"
  by (simp add: first_page_def frame_def)

lemma small_facts [simp]:
  "rtab small = 0x8000" "npages small = 32" "\<not> held small PageAllocLock"
  "next_alloc sz (palloc small) = 0" "hint sz small = 0"
  by (simp_all add: small_def PageAlloc_state power_on_hints hint_def)

lemma small_rc [simp]: "p < 32 \<Longrightarrow> rc small p = (if p < 9 then 1 else 0)"
  using PageAlloc_state(5) [where ram = "0x20000" and loc = "0x8000" and s = power_on and p = p]
  by (simp add: small_first_page small_def [symmetric])

lemma small_wf [simp]: "pa_wf small"
  unfolding small_def
  by (rule PageAlloc_pa_wf) (simp_all add: aligned_def power_on_hints)

lemma small_table_frame: "q < 32 \<Longrightarrow> frame (0x8000 + of_nat q) = 8"
  using frame_aligned_add [of "0x8000" q] by (simp add: aligned_def frame_def)

lemma small_pinned [simp]: "p < 32 \<Longrightarrow> pinned small p \<longleftrightarrow> p = 0 \<or> p = 8"
  using small_table_frame [of 0] by (auto simp: pinned_def small_table_frame intro!: exI [of _ "0 :: nat"])

lemma small_block_free: "p + z \<le> 32 \<Longrightarrow> 9 \<le> p \<Longrightarrow> block_free small z p"
  by (simp add: block_free_def)

lemma alloc_size_facts [simp]: "1 \<in> sizes" "4 \<in> sizes" "256 \<in> sizes" "4096 \<in> sizes"
  by (simp_all add: sizes_def)

lemma small_alloc:
  obtains r s' where "alloc 1 small = Ok r s'"
proof -
  have "\<exists>e < npages small. unat (1 :: u32) dvd e \<and> block_free small (unat (1 :: u32)) e \<and>
      (e + unat (1 :: u32)) mod npages small \<noteq> hint 1 small"
    by (intro exI [of _ 9]) (simp add: small_block_free)
  then obtain f where f: "first_free 1 small = Some f" "(f + unat (1 :: u32)) mod npages small \<noteq> hint 1 small"
    using alloc_finds [of small 1] by auto
  then show thesis using that alloc_eq [of small 1] by (simp add: Let_def)
qed

subsection \<open>alloc\<close>

text \<open>
  C6: on RAM of a whole number of blocks of the size asked for, a successful \<open>alloc\<close> returns the address
  of a block of free pages that lies inside RAM and is aligned to its size; every page of the block gets
  the reference count 1 and no other count changes; of the rest of memory only the first page of the
  block changes (it is filled with 0xcc); the lock is free again, nothing is printed, and the
  allocator's invariant is kept.  (For single pages the condition always holds; without it
  \<open>alloc_past_ram\<close> shows a block that reaches past RAM.)
\<close>

theorem alloc_gives_free_block:
  assumes wf: "pa_wf s" and sz: "sz \<in> sizes" "unat sz dvd npages s"
    and ok: "alloc sz s = Ok r s'"
  shows "\<exists>f. r = of_nat f * PAGE_SIZE \<and> 0 < f \<and> f + unat sz \<le> npages s \<and> unat sz dvd f \<and>
    (\<forall>p. f \<le> p \<and> p < f + unat sz \<longrightarrow> rc s p = 0 \<and> \<not> pinned s p) \<and>
    (\<forall>p < npages s. rc s' p = (if f \<le> p \<and> p < f + unat sz then 1 else rc s p)) \<and>
    (\<forall>b. (\<forall>q < npages s. b \<noteq> rtab s + of_nat q) \<longrightarrow>
       mem s' b = (if frame b = f then 0xcc else mem s b)) \<and>
    pa_wf s' \<and> npages s' = npages s \<and> held s' = held s \<and> console s' = console s"
proof -
  obtain f where a: "allocatable s sz f" and r: "r = of_nat f * PAGE_SIZE"
    and s': "s' = alloc_state sz f s"
    using alloc_OkD [OF wf sz ok] .
  show ?thesis
    unfolding s' using r allocatable_pos [OF a] allocatable_range(4) [OF a] allocatable_free [OF a]
      rc_alloc_state [OF a] mem_alloc_state_other [OF a] wf_alloc_state [OF a]
      a [unfolded allocatable_def]
    by (intro exI [of _ f]) simp
qed

theorem alloc_gives_free_block_witness:
  "\<exists>r s'. alloc 1 small = Ok r s' \<and> pa_wf s' \<and> r \<noteq> 0"
proof -
  obtain r s' where ok: "alloc 1 small = Ok r s'" using small_alloc .
  obtain f where f: "r = of_nat f * PAGE_SIZE" "0 < f" "f + unat (1 :: u32) \<le> npages small" "pa_wf s'"
    using alloc_gives_free_block [OF small_wf _ _ ok] by auto
  then have "r \<noteq> 0" using page_address_nonzero [of f] by simp
  then show ?thesis using ok f(4) by blast
qed

text \<open>
  C20: on RAM of a whole number of blocks of the size asked for, with the lock free, \<open>alloc\<close> succeeds
  exactly when some free aligned block other than the last candidate (the one just before the hint of
  its size) exists; in every other case it panics with \<open>OutOfMemory\<close>.  It always ends.
\<close>

theorem alloc_succeeds_iff:
  assumes wf: "pa_wf s" and sz: "sz \<in> sizes" "unat sz dvd npages s"
    and l: "\<not> held s PageAllocLock"
  shows "((\<exists>r s'. alloc sz s = Ok r s') =
      (\<exists>e < npages s. unat sz dvd e \<and> block_free s (unat sz) e \<and>
         (e + unat sz) mod npages s \<noteq> hint sz s)) \<and>
    ((\<exists>r s'. alloc sz s = Ok r s') \<or> (\<exists>t. alloc sz s = panic OutOfMemory t))"
proof
  show "(\<exists>r s'. alloc sz s = Ok r s') =
      (\<exists>e < npages s. unat sz dvd e \<and> block_free s (unat sz) e \<and>
         (e + unat sz) mod npages s \<noteq> hint sz s)"
    unfolding alloc_finds [OF wf sz, symmetric]
    by (auto simp: alloc_eq [OF wf sz l] Let_def split: option.split)
  show "(\<exists>r s'. alloc sz s = Ok r s') \<or> (\<exists>t. alloc sz s = panic OutOfMemory t)"
    by (auto simp: alloc_eq [OF wf sz l] Let_def split: option.split)
qed

theorem alloc_succeeds_iff_witness:
  "(\<exists>r s'. alloc 4 small = Ok r s')"
proof -
  have "\<exists>e < npages small. unat (4 :: u32) dvd e \<and> block_free small (unat (4 :: u32)) e \<and>
      (e + unat (4 :: u32)) mod npages small \<noteq> hint 4 small"
    by (intro exI [of _ 12]) (simp add: small_block_free)
  then show ?thesis using alloc_succeeds_iff [of small 4] by simp
qed

text \<open>
  When RAM is not a whole number of blocks the scan looks at entries past the table: on ten pages, with
  the hint at page 8 and zeroes behind the table, a block of four pages is handed out of which two do not
  exist, and the next scan starts at a page that is no block's first.
\<close>

lemma alloc_past_ram:
  assumes "\<not> held s PageAllocLock" "num_pages (palloc s) = 10" "next_alloc 4 (palloc s) = 8"
    and "all_refcounts_zero s 8 4"
  shows "\<exists>s'. alloc 4 s = Ok 0x8000 s' \<and> next_alloc 4 (palloc s') = 2"
proof -
  let ?s = "s\<lparr>held := (held s)(PageAllocLock := True)\<rparr>"
  have "all_refcounts_zero ?s 8 4" using assms(4) by (simp add: all_refcounts_zero_def refcount_def)
  then have "alloc_loop 4 8 8 ?s = Some (Ok (0x8000, 2) (claim 8 4 ?s))"
    using assms(2) by (subst alloc_loop.simps) (simp add: Let_def)
  then show ?thesis
    using assms(1,3) by (simp add: alloc_def with_lock_free alloc_locked_def set_next_alloc_def next_alloc_def)
qed

text \<open>
  C37: when the only free block is the last candidate of the scan, \<open>alloc\<close> finds it, marks it as
  used, and then panics with \<open>OutOfMemory\<close> all the same: the test for having come round
  precedes the use of the block found.
\<close>

theorem alloc_refuses_last_block:
  assumes wf: "pa_wf s" and sz: "sz \<in> sizes" "unat sz dvd npages s"
    and l: "\<not> held s PageAllocLock"
    and e: "e < npages s" "unat sz dvd e" "block_free s (unat sz) e" "(e + unat sz) mod npages s = hint sz s"
    and only: "\<forall>e'. e' < npages s \<and> unat sz dvd e' \<and> block_free s (unat sz) e' \<longrightarrow> e' = e"
  shows "\<exists>t. alloc sz s = panic OutOfMemory t \<and> (\<forall>p. e \<le> p \<and> p < e + unat sz \<longrightarrow> rc t p = 1)"
proof -
  have a: "allocatable s sz e" using wf sz e by (simp add: allocatable_def)
  have h: "hint sz s < npages s" using pa_wfD(6) [OF wf sz(1)] by (simp add: hint_def)
  obtain i where i: "i < npages s div unat sz" "(hint sz s + i * unat sz) mod npages s = e"
    using cyclic_cover [OF sz(2) _ e(2) h e(1)] pa_wfD(7) [OF wf sz(1) sz(2)] by (auto simp: hint_def)
  have "first_free sz s \<noteq> None"
    using scan_None [OF _ h i(1)] i(2) e(3) by (auto simp: first_free_def)
  then obtain f where f: "first_free sz s = Some f" by blast
  then have "f = e" using first_free_Some [OF wf sz] only unfolding allocatable_def by blast
  then have "alloc sz s = panic OutOfMemory
      (claim (of_nat e) sz (s\<lparr>held := (held s)(PageAllocLock := True)\<rparr>))"
    using f e(4) by (simp add: alloc_eq [OF wf sz l] Let_def)
  moreover have "rc (claim (of_nat e) sz (s\<lparr>held := (held s)(PageAllocLock := True)\<rparr>)) p = 1"
    if "e \<le> p" "p < e + unat sz" for p
    using that allocatable_range(4,6) [OF a] by (subst rc_claim) simp_all
  ultimately show ?thesis by blast
qed

text \<open>The machine with one page of RAM less in use: 12 pages, of which only page 9 to 11 are free.\<close>

definition tiny :: kstate where
  "tiny = PageAlloc 0xc000 0x6000 power_on"

lemma tiny_facts [simp]:
  "npages tiny = 12" "\<not> held tiny PageAllocLock" "hint sz tiny = 0"
  "p < 12 \<Longrightarrow> rc tiny p = (if p < 7 then 1 else 0)"
  by (simp_all add: tiny_def PageAlloc_state power_on_hints hint_def first_page_def frame_def)

lemma tiny_wf [simp]: "pa_wf tiny"
  unfolding tiny_def
  by (rule PageAlloc_pa_wf) (simp_all add: aligned_def power_on_hints)

lemma tiny_free: "block_free tiny 4 e \<Longrightarrow> e < 12 \<Longrightarrow> 4 dvd e \<Longrightarrow> e = 8"
proof -
  assume b: "block_free tiny 4 e" and e: "e < 12" "4 dvd e"
  have "rc tiny (e + 0) = 0" using b unfolding block_free_def by (metis zero_less_numeral)
  then have "7 \<le> e" using e(1) by (simp split: if_splits)
  then have "e \<in> {7, 8, 9, 10, 11}" using e(1) by auto
  then show ?thesis using e(2) by auto
qed

theorem alloc_refuses_last_block_witness:
  "block_free tiny 4 8 \<and> (\<exists>t. alloc 4 tiny = panic OutOfMemory t)"
proof -
  have b: "block_free tiny 4 8" by (simp add: block_free_def)
  have "\<exists>t. alloc 4 tiny = panic OutOfMemory t \<and> (\<forall>p. 8 \<le> p \<and> p < 8 + unat (4 :: u32) \<longrightarrow> rc t p = 1)"
  proof (rule alloc_refuses_last_block)
    show "\<forall>e'. e' < npages tiny \<and> unat (4 :: u32) dvd e' \<and> block_free tiny (unat (4 :: u32)) e' \<longrightarrow> e' = 8"
      using tiny_free by simp
  qed (simp_all add: b)
  then show ?thesis using b by blast
qed

subsection \<open>Construction and statistics\<close>

text \<open>
  C24: the constructor makes a well-formed allocator: one entry per page of RAM, the pages below
  the end of its table in use and all others free, the statistics counting them, no memory
  outside the table changed.
\<close>

theorem PageAlloc_establishes:
  assumes loc: "aligned 12 loc" "unat loc + unat ram div 4096 \<le> 2 ^ 32" and ram: "4096 \<le> unat ram"
    and hints: "\<forall>sz \<in> sizes. next_alloc sz (palloc s) = 0"
  shows "pa_wf (PageAlloc ram loc s) \<and> npages (PageAlloc ram loc s) = unat ram div 4096 \<and>
    used (PageAlloc ram loc s)
      = {p. p < unat ram div 4096 \<and> p < frame loc + (unat ram div 4096 + 4095) div 4096} \<and>
    (\<forall>b. (\<forall>q < unat ram div 4096. b \<noteq> loc + of_nat q) \<longrightarrow> mem (PageAlloc ram loc s) b = mem s b)"
  using PageAlloc_pa_wf [OF loc(1) ram loc(2) hints]
    PageAlloc_state(7) [where ram = ram and loc = loc and s = s]
  by (auto simp: PageAlloc_state(2,5) used_def first_page_def split: if_splits)

theorem PageAlloc_establishes_witness:
  "pa_wf (PageAlloc 0x100000 0x9000 power_on) \<and> used (PageAlloc 0x100000 0x9000 power_on) = {..<10}"
proof -
  have "pa_wf (PageAlloc 0x100000 0x9000 power_on) \<and>
    npages (PageAlloc 0x100000 0x9000 power_on) = unat (0x100000 :: u32) div 4096 \<and>
    used (PageAlloc 0x100000 0x9000 power_on)
      = {p. p < unat (0x100000 :: u32) div 4096 \<and>
         p < frame 0x9000 + (unat (0x100000 :: u32) div 4096 + 4095) div 4096} \<and>
    (\<forall>b. (\<forall>q < unat (0x100000 :: u32) div 4096. b \<noteq> 0x9000 + of_nat q) \<longrightarrow>
       mem (PageAlloc 0x100000 0x9000 power_on) b = mem power_on b)"
    by (rule PageAlloc_establishes) (simp_all add: aligned_def power_on_hints)
  then show ?thesis by (auto simp: frame_def)
qed

text \<open>
  The statistics are those of the table: total memory, and as free memory the pages whose
  reference count is zero.
\<close>

lemma get_mem_stats_counts:
  assumes wf: "pa_wf s" and l: "\<not> held s PageAllocLock"
  shows "\<exists>st. get_mem_stats s = Ok st s \<and> unat (totalmem st) = npages s * 4096 \<and>
    unat (usedmem st) = card {p. p < npages s \<and> rc s p \<noteq> 0} * 4096 \<and>
    unat (freemem st) = card {p. p < npages s \<and> rc s p = 0} * 4096"
proof -
  let ?n = "num_pages (palloc s)" and ?a = "allocated_pages (palloc s)"
  have n: "unat (?n * PAGE_SIZE) = npages s * 4096"
    using pa_wfD(2) [OF wf] by (subst unat_mult32) (simp_all add: npages_def)
  have le: "card (used s) \<le> npages s" by (rule card_used_le)
  have a: "unat (?a * PAGE_SIZE) = card (used s) * 4096"
    using pa_wfD(2,5) [OF wf] le by (subst unat_mult32) simp_all
  have "{..<npages s} - used s = {p. p < npages s \<and> rc s p = 0}" by (auto simp: used_def)
  then have free: "card {p. p < npages s \<and> rc s p = 0} = npages s - card (used s)"
    using card_Diff_subset [of "used s" "{..<npages s}"] by (auto simp: used_def)
  have "unat (?n * PAGE_SIZE - ?a * PAGE_SIZE) = (npages s - card (used s)) * 4096"
    using n a le by (subst unat_sub) (simp_all add: word_le_nat_alt diff_mult_distrib)
  then show ?thesis
    using l n a free by (simp add: get_mem_stats_def with_lock_def Let_def held_restore used_def)
qed

subsection \<open>Reference counts\<close>

text \<open>
  \<open>ref_acquire\<close> of a page in use adds one to its count and changes nothing else, returning the
  new count, as long as the count is below its maximum; on a page that is not in use it panics.
\<close>

theorem ref_acquire_counts:
  assumes wf: "pa_wf s" and l: "\<not> held s PageAllocLock" and p: "page_ix page < npages s"
    and max: "rc s (page_ix page) \<noteq> 255"
  shows "if rc s (page_ix page) = 0 then (\<exists>t. ref_acquire page s = panic AddRefToUnallocatedPage t)
    else \<exists>s'. ref_acquire page s = Ok (ucast (rc s (page_ix page) + 1)) s' \<and> pa_wf s' \<and>
      only_counts s s' \<and> used s' = used s \<and>
      (\<forall>q < npages s. rc s' q = (if q = page_ix page then rc s q + 1 else rc s q))"
proof (cases "rc s (page_ix page) = 0")
  case True
  then show ?thesis using p ref_acquire_eq [OF l, of page] by simp blast
next
  case False
  have "rc (count_state (page_ix page) (rc s (page_ix page) + 1) s) q
      = (if q = page_ix page then rc s q + 1 else rc s q)" if "q < npages s" for q
    using npages_index [OF wf] p that by (simp add: rc_count_state)
  then show ?thesis
    using False p max ref_acquire_eq [OF l, of page] ref_acquire_wf [OF wf p False max]
      only_counts_count_state [OF p] by simp
qed

theorem ref_acquire_counts_witness:
  "\<exists>s'. ref_acquire 0x3000 small = Ok 2 s' \<and> rc s' 3 = 2"
proof -
  have p: "page_ix 0x3000 = 3" by (simp add: page_ix_def)
  have "if rc small (page_ix 0x3000) = 0
    then (\<exists>t. ref_acquire 0x3000 small = panic AddRefToUnallocatedPage t)
    else \<exists>s'. ref_acquire 0x3000 small = Ok (ucast (rc small (page_ix 0x3000) + 1)) s' \<and> pa_wf s' \<and>
      only_counts small s' \<and> used s' = used small \<and>
      (\<forall>q < npages small. rc s' q = (if q = page_ix 0x3000 then rc small q + 1 else rc small q))"
    by (rule ref_acquire_counts) (simp_all add: p)
  then show ?thesis unfolding p by auto
qed

text \<open>
  \<open>ref_release\<close> of a page in use takes one from its count; the page becomes free exactly when
  the count was one, and then the number of used pages goes down with it. On a page that is not in
  use it panics.
\<close>

theorem ref_release_counts:
  assumes wf: "pa_wf s" and l: "\<not> held s PageAllocLock" and p: "page_ix page < npages s"
    and own: "rc s (page_ix page) = 1 \<Longrightarrow> \<not> pinned s (page_ix page)"
  shows "if rc s (page_ix page) = 0 then (\<exists>t. ref_release page s = panic ReleaseUnallocatedPage t)
    else \<exists>s'. ref_release page s = Ok (ucast (rc s (page_ix page) - 1)) s' \<and> pa_wf s' \<and>
      only_counts s s' \<and>
      used s' = (if rc s (page_ix page) = 1 then used s - {page_ix page} else used s) \<and>
      (\<forall>q < npages s. rc s' q = (if q = page_ix page then rc s q - 1 else rc s q))"
proof (cases "rc s (page_ix page) = 0")
  case True
  then show ?thesis using p ref_release_eq [OF l, of page] by simp blast
next
  case False
  have "rc (release_state (page_ix page) s) q
      = (if q = page_ix page then rc s q - 1 else rc s q)" if "q < npages s" for q
    using npages_index [OF wf] p that by (simp add: rc_release_state)
  then show ?thesis
    using False p ref_release_eq [OF l, of page] ref_release_wf [OF wf p False own]
      only_counts_release_state [OF p] by simp
qed

theorem ref_release_counts_witness:
  "\<exists>s'. ref_release 0x3000 small = Ok 0 s' \<and> pa_wf s' \<and> used s' = used small - {3}"
proof -
  have p: "page_ix 0x3000 = 3" by (simp add: page_ix_def)
  have "if rc small (page_ix 0x3000) = 0
    then (\<exists>t. ref_release 0x3000 small = panic ReleaseUnallocatedPage t)
    else \<exists>s'. ref_release 0x3000 small = Ok (ucast (rc small (page_ix 0x3000) - 1)) s' \<and> pa_wf s' \<and>
      only_counts small s' \<and>
      used s' = (if rc small (page_ix 0x3000) = 1 then used small - {page_ix 0x3000} else used small) \<and>
      (\<forall>q < npages small. rc s' q = (if q = page_ix 0x3000 then rc small q - 1 else rc small q))"
    by (rule ref_release_counts) (simp_all add: p)
  then show ?thesis unfolding p by auto
qed

text \<open>
  Acquiring a range of pages in use and releasing it again succeeds and restores every count
  and the number of used pages, at any width of the range.
\<close>

theorem ref_range_roundtrip:
  assumes wf: "pa_wf s" and l: "\<not> held s PageAllocLock"
    and r: "page_ix page + unat sz \<le> npages s"
    and c: "\<forall>q. page_ix page \<le> q \<and> q < page_ix page + unat sz \<longrightarrow> rc s q \<noteq> 0 \<and> rc s q \<noteq> 255"
  shows "\<exists>s1 s2. ref_acquire_range page sz s = Ok () s1 \<and> ref_release_range page sz s1 = Ok () s2 \<and>
    pa_wf s2 \<and> only_counts s s2 \<and> (\<forall>q < npages s. rc s2 q = rc s q) \<and>
    allocated_pages (palloc s2) = allocated_pages (palloc s)"
proof -
  let ?in = "\<lambda>q. page_ix page \<le> q \<and> q < page_ix page + unat sz"
  obtain s1 where s1: "ref_acquire_range page sz s = Ok () s1" "only_counts s s1" "pa_wf s1"
    "\<And>q. q < npages s \<Longrightarrow> rc s1 q = (if ?in q then rc s q + 1 else rc s q)"
    using ref_acquire_range_Ok [OF wf l r] c by metis
  have n: "npages s1 = npages s" using s1(2) by (rule only_counts_npages)
  have succ: "v \<noteq> 255 \<Longrightarrow> v + 1 \<noteq> 0" "v \<noteq> 0 \<Longrightarrow> v + 1 \<noteq> 1" for v :: u8
    using eq_neg_iff_add_eq_0 [of v 1] by auto
  have c1: "rc s1 q \<noteq> 0 \<and> (rc s1 q = 1 \<longrightarrow> \<not> pinned s1 q)" if "?in q" for q
    using c that s1(4) [of q] r succ [of "rc s q"] by auto
  have l1: "\<not> held s1 PageAllocLock" using s1(2) l by (simp add: only_counts_def)
  obtain s2 where s2: "ref_release_range page sz s1 = Ok () s2" "only_counts s1 s2" "pa_wf s2"
    "\<And>q. q < npages s1 \<Longrightarrow> rc s2 q = (if ?in q then rc s1 q - 1 else rc s1 q)"
    using ref_release_range_Ok [OF s1(3) l1] r n c1 by metis
  have oc: "only_counts s s2" using s1(2) s2(2) by (rule only_counts_trans)
  have rc: "\<forall>q < npages s. rc s2 q = rc s q" using s1(4) s2(4) n by simp
  then have "used s2 = used s" using only_counts_npages [OF oc] by (auto simp: used_def)
  then have "allocated_pages (palloc s2) = allocated_pages (palloc s)"
    using pa_wfD(5) [OF wf] pa_wfD(5) [OF s2(3)] by (simp add: word_eq_iff_unat32)
  then show ?thesis using s1(1) s2(1,3) oc rc by blast
qed

theorem ref_range_roundtrip_witness:
  "\<exists>s1 s2. ref_acquire_range 0x1000 3 small = Ok () s1 \<and> ref_release_range 0x1000 3 s1 = Ok () s2 \<and>
    rc s2 2 = 1"
proof -
  have p: "page_ix 0x1000 = 1" by (simp add: page_ix_def)
  have "\<exists>s1 s2. ref_acquire_range 0x1000 3 small = Ok () s1 \<and> ref_release_range 0x1000 3 s1 = Ok () s2 \<and>
    pa_wf s2 \<and> only_counts small s2 \<and> (\<forall>q < npages small. rc s2 q = rc small q) \<and>
    allocated_pages (palloc s2) = allocated_pages (palloc small)"
    by (rule ref_range_roundtrip) (auto simp: p)
  then show ?thesis by fastforce
qed

text \<open>
  C38: the count is eight bits wide and its increment is not checked, although a panic code
  \<open>TooManyReferences\<close> exists: the 256th reference returns 0, makes the page look free while
  its 255 references stand, and breaks the allocator's invariant.
\<close>

theorem ref_acquire_overflows:
  assumes wf: "pa_wf s" and l: "\<not> held s PageAllocLock" and p: "page_ix page < npages s"
    and max: "rc s (page_ix page) = 255"
  shows "\<exists>s'. ref_acquire page s = Ok 0 s' \<and> rc s' (page_ix page) = 0 \<and> \<not> pa_wf s'"
  using ref_acquire_eq [OF l, of page] ref_acquire_overflow [OF wf p max] p max by simp

text \<open>A page with 255 references: 254 acquisitions after the first.\<close>

definition crowded :: kstate where
  "crowded = set_refcount 3 255 small"

lemma crowded_facts [simp]:
  "npages crowded = 32" "\<not> held crowded PageAllocLock"
  "q < 32 \<Longrightarrow> rc crowded q = (if q = 3 then 255 else rc small q)"
  using rc_set_refcount [of 3 q 255 small] by (simp_all add: crowded_def)

lemma crowded_wf [simp]: "pa_wf crowded"
proof (rule pa_wf_step [OF small_wf])
  have "used crowded = used small" by (auto simp: used_def split: if_splits)
  then show "unat (allocated_pages (palloc crowded)) = card (used crowded)"
    using pa_wfD(5) [OF small_wf] by (simp add: crowded_def)
qed (auto simp: crowded_def rc_set_refcount [of 3, simplified])

theorem ref_acquire_overflows_witness:
  "\<exists>s'. ref_acquire 0x3000 crowded = Ok 0 s' \<and> rc s' 3 = 0"
proof -
  have p: "page_ix 0x3000 = 3" by (simp add: page_ix_def)
  have "\<exists>s'. ref_acquire 0x3000 crowded = Ok 0 s' \<and> rc s' (page_ix 0x3000) = 0 \<and> \<not> pa_wf s'"
    by (rule ref_acquire_overflows) (simp_all add: p)
  then show ?thesis unfolding p by blast
qed

text \<open>
  C39: the range check of the reference-count operations is off by one: for the page just past the
  end of RAM it is passed, and the byte after the table is read as that page's count, and written.
\<close>

theorem ref_acquire_past_end:
  assumes l: "\<not> held s PageAllocLock" and p: "page_ix page = npages s"
    and b: "mem s (rtab s + of_nat (npages s)) \<noteq> 0"
  shows "\<exists>s'. ref_acquire page s = Ok (ucast (mem s (rtab s + of_nat (npages s)) + 1)) s' \<and>
    mem s' (rtab s + of_nat (npages s)) = mem s (rtab s + of_nat (npages s)) + 1"
  using ref_acquire_eq [OF l, of page] p b
  by (simp add: rc_def refcount_def load8_def count_state_def set_refcount_def store8_def)

theorem ref_acquire_past_end_witness:
  "\<exists>s'. ref_acquire 0x20000 (small\<lparr>mem := (mem small)(0x8020 := 7)\<rparr>) = Ok 8 s' \<and> mem s' 0x8020 = 8"
proof -
  let ?s = "small\<lparr>mem := (mem small)(0x8020 := 7)\<rparr>"
  have n: "npages ?s = 32" using small_facts(2) by (simp add: npages_def)
  have "\<exists>s'. ref_acquire 0x20000 ?s = Ok (ucast (mem ?s (rtab ?s + of_nat (npages ?s)) + 1)) s' \<and>
    mem s' (rtab ?s + of_nat (npages ?s)) = mem ?s (rtab ?s + of_nat (npages ?s)) + 1"
    by (rule ref_acquire_past_end) (simp_all add: n page_ix_def)
  then show ?thesis by (simp add: n)
qed

text \<open>
  With room \<open>alloc\<close> does not fail: if the blocks of the size wanted outnumber the pages in use
  by two, it returns a block wherever its hint points.
\<close>

lemma alloc_succeeds_with_room:
  assumes "pa_wf s" "sz \<in> sizes" "unat sz dvd npages s" "\<not> held s PageAllocLock"
    and "(card (used s) + 2) * unat sz \<le> npages s"
  shows "\<exists>r s'. alloc sz s = Ok r s'"
  using alloc_room [OF assms(1-4)] assms(5) unfolding room_def by blast

end
