(* ===== verification/Page_Table_Inv.thy ===== *)
theory Page_Table_Inv
  imports Page_Provider
begin

unbundle bit_operations_syntax

text \<open>
  The invariant of a page table and its abstract view.  A table is a first level of 2048 or 4096
  entries at a 16 KiB boundary and second-level tables, one page each, all in pages it owns and
  none shared; the view gives for each virtual page whether it is free, reserved or mapped, and to
  which physical page.
\<close>

subsection \<open>Entries\<close>

abbreviation root :: "PageTable \<Rightarrow> u32" where
  "root pt \<equiv> first_level_table pt"

definition nent :: "PageTable \<Rightarrow> nat" where
  "nent pt = unat (first_level_num_entries pt)"

definition fle :: "PageTable \<Rightarrow> kstate \<Rightarrow> nat \<Rightarrow> u32" where
  "fle pt s i = ld s (slot (root pt) i)"

definition is_table :: "u32 \<Rightarrow> bool" where
  "is_table e \<longleftrightarrow> e AND 0x3 = 1"

definition table_of :: "u32 \<Rightarrow> u32" where
  "table_of e = e AND 0xfffffc00"

definition sle :: "PageTable \<Rightarrow> kstate \<Rightarrow> nat \<Rightarrow> nat \<Rightarrow> u32" where
  "sle pt s i j = ld s (slot (table_of (fle pt s i)) j)"

text \<open>A descriptor that is free, reserved or committed.\<close>

definition plain :: "u32 \<Rightarrow> bool" where
  "plain e \<longleftrightarrow> e AND 0x7 \<in> {0, 4, 2}"

definition root_frames :: "PageTable \<Rightarrow> nat set" where
  "root_frames pt = {frame (root pt)..<frame (root pt) + 4}"

definition table_frame :: "PageTable \<Rightarrow> kstate \<Rightarrow> nat \<Rightarrow> nat" where
  "table_frame pt s i = frame (table_of (fle pt s i))"

definition table_frames :: "PageTable \<Rightarrow> kstate \<Rightarrow> nat set" where
  "table_frames pt s = root_frames pt \<union> table_frame pt s ` {i. i < nent pt \<and> is_table (fle pt s i)}"

subsection \<open>Invariant\<close>

definition entry_ok :: "PageTable \<Rightarrow> kstate \<Rightarrow> nat \<Rightarrow> bool" where
  "entry_ok pt s i \<longleftrightarrow>
     (if is_table (fle pt s i)
      then aligned 12 (table_of (fle pt s i)) \<and> owned s (table_frame pt s i) \<and>
        table_frame pt s i \<notin> root_frames pt \<and> (\<forall>j < 256. plain (sle pt s i j))
      else plain (fle pt s i))"

definition pt_wf :: "PageTable \<Rightarrow> kstate \<Rightarrow> bool" where
  "pt_wf pt s \<longleftrightarrow> pa_wf s \<and> nent pt \<in> {2048, 4096} \<and> aligned 14 (root pt) \<and>
     (\<forall>f \<in> root_frames pt. owned s f) \<and> (\<forall>i < nent pt. entry_ok pt s i) \<and>
     inj_on (table_frame pt s) {i. i < nent pt \<and> is_table (fle pt s i)}"

lemma pt_wfD:
  assumes "pt_wf pt s"
  shows "pa_wf s" "nent pt \<le> 4096" "0 < nent pt" "aligned 14 (root pt)" "aligned 12 (root pt)"
    "aligned 2 (root pt)"
    "f \<in> root_frames pt \<Longrightarrow> owned s f" "i < nent pt \<Longrightarrow> entry_ok pt s i"
    "i < nent pt \<Longrightarrow> j < nent pt \<Longrightarrow> is_table (fle pt s i) \<Longrightarrow> is_table (fle pt s j) \<Longrightarrow>
      table_frame pt s i = table_frame pt s j \<Longrightarrow> i = j"
  using assms aligned_mono [of 14 "root pt"] unfolding pt_wf_def by (auto dest: inj_onD)

lemma entry_tableD:
  assumes "pt_wf pt s" "i < nent pt" "is_table (fle pt s i)"
  shows "aligned 12 (table_of (fle pt s i))" "aligned 2 (table_of (fle pt s i))"
    "owned s (table_frame pt s i)" "table_frame pt s i \<notin> root_frames pt"
    "j < 256 \<Longrightarrow> plain (sle pt s i j)"
  using pt_wfD(8) [OF assms(1,2)] assms(3) aligned_mono [of 12 "table_of (fle pt s i)" 2]
  by (auto simp: entry_ok_def)

lemma entry_plainD: "pt_wf pt s \<Longrightarrow> i < nent pt \<Longrightarrow> \<not> is_table (fle pt s i) \<Longrightarrow> plain (fle pt s i)"
  using pt_wfD(8) [of pt s i] by (simp add: entry_ok_def)

lemma plainE:
  assumes "plain e" obtains "e AND 0x7 = 0" "e AND 0x3 = 0" "e AND 0x2 = 0"
  | "e AND 0x7 = 4" "e AND 0x3 = 0" "e AND 0x2 = 0"
  | "e AND 0x7 = 2" "e AND 0x3 = 2" "e AND 0x2 = 2"
  using assms and_3_7 [of e] and_2_7 [of e] unfolding plain_def by fastforce

lemma plain_not_table: "plain e \<Longrightarrow> \<not> is_table e"
  by (erule plainE) (simp_all add: is_table_def)

lemma free_not_table: "e AND 0x7 = 0 \<Longrightarrow> \<not> is_table e" "e AND 0x7 = 4 \<Longrightarrow> \<not> is_table e"
  using and_3_7 [of e] by (simp_all add: is_table_def)

lemma plain_free [simp]: "plain 0" "plain 4"
  by (simp_all add: plain_def)

subsection \<open>Where the entries lie\<close>

lemma slot_wrap: "aligned 12 t \<Longrightarrow> j < 1024 \<Longrightarrow> unat t + 4 * j < 2 ^ 32"
  using aligned_no_wrap [of 12 t "4 * j"] by simp

lemma frame_table_slot: "aligned 12 t \<Longrightarrow> j < 1024 \<Longrightarrow> frame (slot t j) = frame t"
  using frame_slot [of t j] slot_wrap [of t j] by simp

lemma frame_root_slot: "aligned 14 t \<Longrightarrow> i < 4096 \<Longrightarrow> frame (slot t i) = frame t + i div 1024"
  using frame_slot [of t i] aligned_no_wrap [of 14 t "4 * i"] aligned_mono [of 14 t 12] by simp

lemma root_slot_frame: "pt_wf pt s \<Longrightarrow> i < nent pt \<Longrightarrow> frame (slot (root pt) i) \<in> root_frames pt"
  using frame_root_slot [of "root pt" i] pt_wfD(2,4) [of pt s]
  by (auto simp: root_frames_def div_less_iff_less_mult)

lemma root_slot_owned: "pt_wf pt s \<Longrightarrow> i < nent pt \<Longrightarrow> owned s (frame (slot (root pt) i))"
  using root_slot_frame pt_wfD(7) by blast

lemma table_slot_frame:
  assumes "pt_wf pt s" "i < nent pt" "is_table (fle pt s i)" "j < 256"
  shows "frame (slot (table_of (fle pt s i)) j) = table_frame pt s i"
  using entry_tableD(1) [OF assms(1-3)] assms(4) by (simp add: frame_table_slot table_frame_def)

lemma table_frames_owned: "pt_wf pt s \<Longrightarrow> f \<in> table_frames pt s \<Longrightarrow> owned s f"
  using pt_wfD(7) entry_tableD(3) by (auto simp: table_frames_def)

lemma root_in_table_frames: "root_frames pt \<subseteq> table_frames pt s"
  by (simp add: table_frames_def)

lemma table_in_table_frames:
  "i < nent pt \<Longrightarrow> is_table (fle pt s i) \<Longrightarrow> table_frame pt s i \<in> table_frames pt s"
  by (auto simp: table_frames_def)

subsection \<open>View\<close>

datatype page_view = VOutside | VFree | VReserved | VMapped nat

text \<open>Of a second-level descriptor, and of a first-level one for the page \<open>p\<close> it covers.\<close>

definition descriptor_view :: "u32 \<Rightarrow> page_view" where
  "descriptor_view d = (if d AND 0x7 = 0 then VFree else if d AND 0x7 = 4 then VReserved
     else VMapped (frame d))"

definition entry_view :: "u32 \<Rightarrow> nat \<Rightarrow> page_view" where
  "entry_view e p = (if e AND 0x7 = 0 then VFree else if e AND 0x7 = 4 then VReserved
     else if e AND 0x00040000 \<noteq> 0 then VMapped (frame e div 4096 * 4096 + p mod 4096)
     else VMapped (frame e div 256 * 256 + p mod 256))"

definition pview :: "PageTable \<Rightarrow> kstate \<Rightarrow> nat \<Rightarrow> page_view" where
  "pview pt s p =
     (let i = p div 256
      in if nent pt \<le> i then VOutside
         else if is_table (fle pt s i) then descriptor_view (sle pt s i (p mod 256))
         else entry_view (fle pt s i) p)"

text \<open>A page mapped through a second-level table, a page of a section.\<close>

definition by_page :: "PageTable \<Rightarrow> kstate \<Rightarrow> nat \<Rightarrow> bool" where
  "by_page pt s p \<longleftrightarrow> p div 256 < nent pt \<and> is_table (fle pt s (p div 256))"

lemma entry_view_simps [simp]:
  "entry_view 0 p = VFree" "entry_view 4 p = VReserved"
  "descriptor_view 0 = VFree" "descriptor_view 4 = VReserved"
  by (simp_all add: entry_view_def descriptor_view_def)

lemma entry_view_free: "e AND 0x7 = 0 \<Longrightarrow> entry_view e p = VFree"
  by (simp add: entry_view_def)

lemma view_eq_iff:
  "descriptor_view d = VFree \<longleftrightarrow> d AND 0x7 = 0" "descriptor_view d = VReserved \<longleftrightarrow> d AND 0x7 = 4"
  "entry_view d p = VFree \<longleftrightarrow> d AND 0x7 = 0" "entry_view d p = VReserved \<longleftrightarrow> d AND 0x7 = 4"
  "descriptor_view d \<noteq> VOutside" "entry_view d p \<noteq> VOutside"
  by (auto simp: entry_view_def descriptor_view_def)

lemma pview_outside: "pview pt s p = VOutside \<longleftrightarrow> nent pt \<le> p div 256"
  by (simp add: pview_def Let_def view_eq_iff)

lemma pview_table:
  "p div 256 < nent pt \<Longrightarrow> is_table (fle pt s (p div 256)) \<Longrightarrow>
   pview pt s p = descriptor_view (sle pt s (p div 256) (p mod 256))"
  by (simp add: pview_def)

lemma pview_section:
  "p div 256 < nent pt \<Longrightarrow> \<not> is_table (fle pt s (p div 256)) \<Longrightarrow>
   pview pt s p = entry_view (fle pt s (p div 256)) p"
  by (simp add: pview_def)

subsection \<open>The walk\<close>

lemma page_address_join:
  assumes "n \<le> 32"
  shows "unat (x AND NOT (mask n) OR va AND mask n :: u32) = unat x div 2 ^ n * 2 ^ n + unat va mod 2 ^ n"
proof -
  have "(x AND NOT (mask n)) AND (va AND mask n) = 0"
    by (rule bit_word_eqI) (simp add: bit_simps)
  then have e: "x AND NOT (mask n) OR va AND mask n = (x AND NOT (mask n)) + (va AND mask n)"
    by (rule or_disj_add)
  have "unat (x AND NOT (mask n)) + unat va mod 2 ^ n < 2 ^ 32"
    by (rule aligned_no_wrap [OF aligned_and_not_mask _ assms]) simp
  then have "unat ((x AND NOT (mask n)) + (va AND mask n))
      = unat (x AND NOT (mask n)) + unat (va AND mask n)"
    by (intro unat_add32) (simp add: unat_and_mask)
  then show ?thesis unfolding e by (simp add: unat_and_not_mask unat_and_mask)
qed

lemma address_mod_section: "v mod 1048576 = v div 4096 mod 256 * 4096 + v mod (4096::nat)"
  using mod_mult2_eq [of v 4096 256] by simp

lemma address_mod_supersection: "v mod 16777216 = v div 4096 mod 4096 * 4096 + v mod (4096::nat)"
  using mod_mult2_eq [of v 4096 4096] by simp

text \<open>The three ways the code joins a descriptor and an address give the page number and offset.\<close>

lemma join_page:
  "unat ((d AND 0xfffff000) OR (va AND 0x00000fff)) = frame d * 4096 + unat va mod 4096"
proof -
  have "(d AND 0xfffff000) OR (va AND 0x00000fff) = (d AND NOT (mask 12)) OR (va AND mask 12)"
    by (simp only: not_masks masks)
  then show ?thesis by (simp only: page_address_join frame_def) simp
qed

lemma join_section:
  "unat ((e AND 0xfff00000) OR (va AND 0x000fffff))
    = (frame e div 256 * 256 + frame va mod 256) * 4096 + unat va mod 4096"
proof -
  have "(e AND 0xfff00000) OR (va AND 0x000fffff) = (e AND NOT (mask 20)) OR (va AND mask 20)"
    by (simp only: not_masks masks)
  then have "unat ((e AND 0xfff00000) OR (va AND 0x000fffff))
      = unat e div 1048576 * 1048576 + unat va mod 1048576"
    by (simp only: page_address_join) simp
  then show ?thesis
    by (simp add: frame_def address_mod_section div_mult2_eq [symmetric] add_mult_distrib)
qed

lemma join_supersection:
  "unat ((e AND 0xff000000) OR (va AND 0x00ffffff))
    = (frame e div 4096 * 4096 + frame va mod 4096) * 4096 + unat va mod 4096"
proof -
  have "(e AND 0xff000000) OR (va AND 0x00ffffff) = (e AND NOT (mask 24)) OR (va AND mask 24)"
    by (simp only: not_masks masks)
  then have "unat ((e AND 0xff000000) OR (va AND 0x00ffffff))
      = unat e div 16777216 * 16777216 + unat va mod 16777216"
    by (simp only: page_address_join) simp
  then show ?thesis
    by (simp add: frame_def address_mod_supersection div_mult2_eq [symmetric] add_mult_distrib)
qed

text \<open>The address of an offset in a physical page.\<close>

definition phys_address :: "nat \<Rightarrow> u32 \<Rightarrow> u32" where
  "phys_address f va = of_nat (f * 4096 + unat va mod 4096)"

lemma phys_addressI: "unat a = f * 4096 + unat va mod 4096 \<Longrightarrow> a = phys_address f va"
  using unat_lt32 [of a] by (simp only: phys_address_def word_eq_iff_unat32 unat_of_nat32)

lemma entry_index: "unat (drop_bit 20 va) = frame va div 256" "frame va div 256 < 4096"
  using frame_less [of va] by (simp_all add: frame_div_256 div_less_iff_less_mult)

lemma entry_range: "first_level_num_entries pt \<le> drop_bit 20 va \<longleftrightarrow> nent pt \<le> frame va div 256"
  by (simp add: word_le_nat_alt nent_def entry_index)

lemma walk_view:
  assumes wf: "pt_wf pt s"
  shows "virtual_to_physical_internal pt va s
    = (case pview pt s (frame va) of VMapped f \<Rightarrow> Success (phys_address f va) | _ \<Rightarrow> Failure)"
proof (cases "nent pt \<le> frame va div 256")
  case True
  then show ?thesis
    by (simp add: virtual_to_physical_internal_def Let_def entry_range pview_def)
next
  case False
  let ?i = "frame va div 256"
  let ?e = "fle pt s ?i"
  have i: "?i < nent pt" using False by simp
  have ld_e: "ld s (slot (get_first_level_table_address pt) (unat (drop_bit 20 va))) = ?e"
    by (simp add: get_first_level_table_address_def entry_index fle_def)
  show ?thesis
  proof (cases "is_table ?e")
    case True
    let ?d = "sle pt s ?i (frame va mod 256)"
    have ld_d: "ld s (slot (get_second_level_table_address (?e AND 0xfffffc00))
        (unat (drop_bit 12 va AND 0xff))) = ?d"
      by (simp add: get_second_level_table_address_def frame_mod_256 sle_def table_of_def)
    have "plain ?d" using entry_tableD(5) [OF wf i True] by simp
    then show ?thesis
      using True i phys_addressI [OF join_page [of ?d va]] ld_d
      by (elim plainE) (simp_all add: virtual_to_physical_internal_def Let_def entry_range ld_e
          is_table_def pview_table descriptor_view_def)
  next
    case nt: False
    have "plain ?e" using entry_plainD [OF wf i nt] .
    then show ?thesis
      using nt i phys_addressI [OF join_section [of ?e va]] phys_addressI [OF join_supersection [of ?e va]]
      by (elim plainE) (simp_all add: virtual_to_physical_internal_def Let_def entry_range ld_e
          is_table_def pview_section entry_view_def)
  qed
qed

end
