(* ===== verification/Page_Table_Step.thy ===== *)
theory Page_Table_Step
  imports Page_Table_Inv
begin

unbundle bit_operations_syntax

text \<open>
  The primitive changes the operations are made of: words written in pages the table owns, and a
  fresh second-level table.  Each keeps the allocator's invariant, and a change confined to
  some entries keeps the table's.
\<close>

subsection \<open>Writes in owned pages\<close>

definition writes :: "nat set \<Rightarrow> kstate \<Rightarrow> kstate \<Rightarrow> bool" where
  "writes F s s' \<longleftrightarrow> palloc s' = palloc s \<and> held s' = held s \<and> console s' = console s \<and>
     (\<forall>b. frame b \<notin> F \<longrightarrow> mem s' b = mem s b)"

lemma writes_trans: "writes F s t \<Longrightarrow> writes G t u \<Longrightarrow> writes (F \<union> G) s u"
  by (simp add: writes_def)

lemma writes_mono: "writes F s t \<Longrightarrow> F \<subseteq> G \<Longrightarrow> writes G s t"
  by (auto simp: writes_def)

lemma writes_refl [simp]: "writes F s s"
  by (simp add: writes_def)

lemma writes_st: "aligned 2 a \<Longrightarrow> writes {frame a} s (st a v s)"
  by (simp add: writes_def st_def store32_other_frame)

lemma writes_fill:
  "aligned 2 base \<Longrightarrow> (\<And>i. a \<le> i \<Longrightarrow> i < b \<Longrightarrow> frame (slot base i) \<in> F) \<Longrightarrow>
   writes F s (fill base a b v s)"
proof -
  assume al: "aligned 2 base" and F: "\<And>i. a \<le> i \<Longrightarrow> i < b \<Longrightarrow> frame (slot base i) \<in> F"
  have "fill_words base a b v (mem s) c = mem s c" if "frame c \<notin> F" for c
  proof (rule fill_words_other_frame [OF al])
    fix i assume "a \<le> i" "i < b"
    then show "frame c \<noteq> frame (slot base i)" using F that by metis
  qed
  then show ?thesis by (simp add: writes_def fill_def)
qed

lemma writes_ld: "writes F s s' \<Longrightarrow> aligned 2 a \<Longrightarrow> frame a \<notin> F \<Longrightarrow> ld s' a = ld s a"
  unfolding ld_def by (rule load32_cong) (simp add: writes_def frame_aligned_add_word)

text \<open>The counts do not see writes in pages that are not part of their table.\<close>

lemma writes_counts:
  assumes w: "writes F s s'" and F: "\<And>f. f \<in> F \<Longrightarrow> owned s f"
  shows "npages s' = npages s" "p < npages s \<Longrightarrow> rc s' p = rc s p" "used s' = used s"
    "pinned s' = pinned s" "owned s' = owned s" "pa_wf s \<Longrightarrow> pa_wf s'"
proof -
  have p: "palloc s' = palloc s" using w by (simp add: writes_def)
  show n: "npages s' = npages s" by (simp add: npages_def p)
  have rc: "rc s' p = rc s p" if "p < npages s" for p
  proof -
    have "frame (rtab s + of_nat p) \<notin> F" using owned_not_table [OF F that] by blast
    then show ?thesis using w by (intro rc_cong) (simp_all add: writes_def)
  qed
  show "p < npages s \<Longrightarrow> rc s' p = rc s p" by (rule rc)
  show u: "used s' = used s" using rc by (auto simp: used_def n)
  show pin: "pinned s' = pinned s" by (rule ext, rule pinned_cong) (simp_all add: p n)
  show "owned s' = owned s" by (simp add: fun_eq_iff owned_def u pin)
  show "pa_wf s'" if "pa_wf s"
    using that rc pa_wfD(4,5) [OF that] by (intro pa_wf_step [OF that]) (simp_all add: p n u)
qed

lemma ld_fill:
  "aligned 12 base \<Longrightarrow> b \<le> 4096 \<Longrightarrow> j < 4096 \<Longrightarrow>
   ld (fill base a b v s) (slot base j) = (if a \<le> j \<and> j < b then v else ld s (slot base j))"
  using aligned_mono [of 12 base 2] by (simp add: ld_def fill_def load32_fill_words)

lemma ld_st: "aligned 2 a \<Longrightarrow> aligned 2 b \<Longrightarrow> ld (st a v s) b = (if a = b then v else ld s b)"
  by (simp add: ld_def st_def load32_store32_other)

lemma slot_eq_iff: "i < 4096 \<Longrightarrow> j < 4096 \<Longrightarrow> slot base i = slot base j \<longleftrightarrow> i = j"
  by (simp add: slot_inj)

subsection \<open>Entries under a step\<close>

lemma table_frames_cong:
  assumes "\<And>k. k < nent pt \<Longrightarrow> is_table (fle pt s' k) = is_table (fle pt s k)"
    and "\<And>k. k < nent pt \<Longrightarrow> is_table (fle pt s k) \<Longrightarrow> table_frame pt s' k = table_frame pt s k"
  shows "table_frames pt s' = table_frames pt s"
proof -
  have "{i. i < nent pt \<and> is_table (fle pt s' i)} = {i. i < nent pt \<and> is_table (fle pt s i)}"
    using assms(1) by blast
  moreover have "table_frame pt s' ` {i. i < nent pt \<and> is_table (fle pt s i)}
      = table_frame pt s ` {i. i < nent pt \<and> is_table (fle pt s i)}"
    using assms(2) by (intro image_cong) simp_all
  ultimately show ?thesis by (simp add: table_frames_def)
qed

text \<open>
  A step that touches the entries \<open>S\<close> only, leaves each of them well-formed, and brings in at most
  one second-level table, in a page that was not owned before, keeps the invariant.
\<close>

lemma pt_wf_stepI:
  assumes wf: "pt_wf pt s" and pa: "pa_wf s'" and own: "\<And>f. owned s f \<Longrightarrow> owned s' f"
    and other: "\<And>k. k < nent pt \<Longrightarrow> k \<notin> S \<Longrightarrow> fle pt s' k = fle pt s k"
    and other2: "\<And>k j. k < nent pt \<Longrightarrow> k \<notin> S \<Longrightarrow> is_table (fle pt s k) \<Longrightarrow> j < 256 \<Longrightarrow>
      sle pt s' k j = sle pt s k j"
    and changed: "\<And>k. k < nent pt \<Longrightarrow> k \<in> S \<Longrightarrow> entry_ok pt s' k"
    and tables: "\<And>k. k < nent pt \<Longrightarrow> k \<in> S \<Longrightarrow> is_table (fle pt s' k) \<Longrightarrow>
      is_table (fle pt s k) \<and> table_of (fle pt s' k) = table_of (fle pt s k) \<or>
      S = {k} \<and> \<not> owned s (table_frame pt s' k)"
  shows "pt_wf pt s'"
proof -
  have old: "is_table (fle pt s k) \<and> table_frame pt s' k = table_frame pt s k \<or>
      S = {k} \<and> \<not> owned s (table_frame pt s' k)"
    if "k < nent pt" "is_table (fle pt s' k)" for k
  proof (cases "k \<in> S")
    case True
    then show ?thesis using tables [OF that(1) True that(2)] by (metis table_frame_def)
  next
    case False
    then show ?thesis using other [OF that(1) False] that(2) by (simp add: table_frame_def)
  qed
  have "i = j" if ij: "i < nent pt" "is_table (fle pt s' i)" "j < nent pt" "is_table (fle pt s' j)"
    "table_frame pt s' i = table_frame pt s' j" for i j
  proof (rule ccontr)
    assume ne: "i \<noteq> j"
    have not_new: False
      if "x < nent pt" "is_table (fle pt s' x)" "y < nent pt" "is_table (fle pt s' y)"
        "table_frame pt s' x = table_frame pt s' y" "x \<noteq> y" "S = {x}" "\<not> owned s (table_frame pt s' x)" for x y
    proof -
      have "y \<notin> S" using that by simp
      then have "fle pt s' y = fle pt s y" using other that(3) by simp
      then show False using entry_tableD(3) [OF wf that(3)] that(4,5,8) by (simp add: table_frame_def)
    qed
    have "is_table (fle pt s i) \<and> table_frame pt s' i = table_frame pt s i"
      using old [OF ij(1,2)] not_new [of i j] ij ne by auto
    moreover have "is_table (fle pt s j) \<and> table_frame pt s' j = table_frame pt s j"
      using old [OF ij(3,4)] not_new [of j i] ij ne by auto
    ultimately show False using pt_wfD(9) [OF wf ij(1,3)] ij(5) ne by simp
  qed
  then have "inj_on (table_frame pt s') {i. i < nent pt \<and> is_table (fle pt s' i)}"
    by (auto intro: inj_onI)
  moreover have "entry_ok pt s' i" if "i < nent pt" for i
  proof (cases "i \<in> S")
    case True
    then show ?thesis using changed that by blast
  next
    case False
    then show ?thesis
      using pt_wfD(8) [OF wf that] other [OF that False] other2 [OF that False] own
      by (auto simp: entry_ok_def table_frame_def)
  qed
  ultimately show ?thesis
    using wf pa own unfolding pt_wf_def by blast
qed

text \<open>The view outside \<open>S\<close> is unchanged.\<close>

lemma pview_other:
  assumes "\<And>k. k < nent pt \<Longrightarrow> k \<notin> S \<Longrightarrow> fle pt s' k = fle pt s k"
    and "\<And>k j. k < nent pt \<Longrightarrow> k \<notin> S \<Longrightarrow> is_table (fle pt s k) \<Longrightarrow> j < 256 \<Longrightarrow>
      sle pt s' k j = sle pt s k j"
    and "p div 256 \<notin> S"
  shows "pview pt s' p = pview pt s p" "by_page pt s' p = by_page pt s p"
  using assms by (auto simp: pview_def by_page_def Let_def)

subsection \<open>Writes in the first level\<close>

lemma root_fill_step:
  assumes wf: "pt_wf pt s" and b: "b \<le> nent pt" and v: "plain v"
    and old: "\<And>k. a \<le> k \<Longrightarrow> k < b \<Longrightarrow> \<not> is_table (fle pt s k)"
  defines "s' \<equiv> fill (root pt) a b v s"
  shows "pt_wf pt s'" "writes (root_frames pt) s s'"
    "k < nent pt \<Longrightarrow> fle pt s' k = (if a \<le> k \<and> k < b then v else fle pt s k)"
    "k < nent pt \<Longrightarrow> is_table (fle pt s k) \<Longrightarrow> j < 256 \<Longrightarrow> sle pt s' k j = sle pt s k j"
    "table_frames pt s' = table_frames pt s"
    "pview pt s' p = (if a \<le> p div 256 \<and> p div 256 < b then entry_view v p else pview pt s p)"
    "by_page pt s' p = by_page pt s p"
proof -
  note rt = pt_wfD(2,4-6) [OF wf]
  show w: "writes (root_frames pt) s s'"
    unfolding s'_def using root_slot_frame [OF wf] b rt(4) by (intro writes_fill) auto
  have cnt: "owned s' = owned s" "pa_wf s'"
    using writes_counts [OF w] pt_wfD(1,7) [OF wf] by auto
  show f: "fle pt s' k = (if a \<le> k \<and> k < b then v else fle pt s k)" if "k < nent pt" for k
    unfolding s'_def fle_def using that b rt(1) by (intro ld_fill [OF rt(3)]) simp_all
  show d: "sle pt s' k j = sle pt s k j" if k: "k < nent pt" "is_table (fle pt s k)" "j < 256" for k j
  proof -
    have "\<not> (a \<le> k \<and> k < b)" using old k(2) by blast
    moreover have "ld s' (slot (table_of (fle pt s k)) j) = ld s (slot (table_of (fle pt s k)) j)"
      using entry_tableD [OF wf k(1,2)] table_slot_frame [OF wf k]
      by (intro writes_ld [OF w]) simp_all
    ultimately show ?thesis unfolding sle_def f [OF k(1)] by auto
  qed
  let ?S = "{a..<b}"
  have nt: "\<not> is_table (fle pt s' k)" if "k < nent pt" "k \<in> ?S" for k
    using f [OF that(1)] that(2) plain_not_table [OF v] by simp
  show "pt_wf pt s'"
    using f d nt v cnt
    by (intro pt_wf_stepI [where S = ?S, OF wf]) (auto simp: entry_ok_def)
  have "is_table (fle pt s' k) = is_table (fle pt s k)" if "k < nent pt" for k
    using f [OF that] plain_not_table [OF v] old by auto
  moreover have "table_frame pt s' k = table_frame pt s k" if "k < nent pt" "is_table (fle pt s k)" for k
    using f [OF that(1)] old that(2) by (auto simp: table_frame_def)
  ultimately show "table_frames pt s' = table_frames pt s" by (rule table_frames_cong)
  show "by_page pt s' p = by_page pt s p"
    using f [of "p div 256"] old [of "p div 256"] plain_not_table [OF v]
    by (auto simp: by_page_def split: if_splits)
  show "pview pt s' p = (if a \<le> p div 256 \<and> p div 256 < b then entry_view v p else pview pt s p)"
  proof (cases "a \<le> p div 256 \<and> p div 256 < b")
    case True
    then show ?thesis
      using f [of "p div 256"] b plain_not_table [OF v] by (simp add: pview_section)
  next
    case False
    have "pview pt s' p = pview pt s p"
    proof (rule pview_other(1) [where S = ?S])
      show "fle pt s' k = fle pt s k" if "k < nent pt" "k \<notin> ?S" for k
        unfolding f [OF that(1)] using that(2) by auto
    qed (use d False in auto)
    then show ?thesis using False by auto
  qed
qed

lemma fill_one: "fill base i (Suc i) v s = st (slot base i) v s"
  by (simp add: fill_def st_def fill_words_def)

subsection \<open>Writes in a second-level table\<close>

lemma table_fill_step:
  fixes a b i :: nat
  assumes wf: "pt_wf pt s" and i: "i < nent pt" "is_table (fle pt s i)" and b: "b \<le> 256" and v: "plain v"
  defines "s' \<equiv> fill (table_of (fle pt s i)) a b v s"
  shows "pt_wf pt s'" "writes {table_frame pt s i} s s'"
    "k < nent pt \<Longrightarrow> fle pt s' k = fle pt s k"
    "table_frames pt s' = table_frames pt s"
    "pview pt s' p = (if p div 256 = i \<and> a \<le> p mod 256 \<and> p mod 256 < b
       then descriptor_view v else pview pt s p)"
    "by_page pt s' p = by_page pt s p"
proof -
  let ?t = "table_of (fle pt s i)"
  note t = entry_tableD [OF wf i]
  show w: "writes {table_frame pt s i} s s'"
    unfolding s'_def using table_slot_frame [OF wf i] b t(2) by (intro writes_fill) auto
  have cnt: "owned s' = owned s" "pa_wf s'"
    using writes_counts [OF w] t(3) pt_wfD(1) [OF wf] by auto
  show f: "fle pt s' k = fle pt s k" if "k < nent pt" for k
    unfolding fle_def using root_slot_frame [OF wf that] t(4) pt_wfD(6) [OF wf]
    by (intro writes_ld [OF w]) auto
  have d: "sle pt s' k j = sle pt s k j"
    if k: "k < nent pt" "k \<noteq> i" "is_table (fle pt s k)" "j < 256" for k j
  proof -
    have "table_frame pt s k \<noteq> table_frame pt s i" using pt_wfD(9) [OF wf k(1) i(1)] i(2) k by blast
    then have "ld s' (slot (table_of (fle pt s k)) j) = ld s (slot (table_of (fle pt s k)) j)"
      using entry_tableD [OF wf k(1,3)] table_slot_frame [OF wf k(1,3,4)]
      by (intro writes_ld [OF w]) simp_all
    then show ?thesis using f [OF k(1)] by (simp add: sle_def)
  qed
  have di: "sle pt s' i j = (if a \<le> j \<and> j < b then v else sle pt s i j)" if "j < 256" for j
    unfolding sle_def f [OF i(1)] unfolding s'_def using that b by (intro ld_fill [OF t(1)]) simp_all
  have "entry_ok pt s' i"
    using t di v f [OF i(1)] i(2) cnt by (simp add: entry_ok_def table_frame_def)
  then show "pt_wf pt s'"
    using f d cnt by (intro pt_wf_stepI [where S = "{i}", OF wf]) auto
  show "table_frames pt s' = table_frames pt s"
    using f by (intro table_frames_cong) (simp_all add: table_frame_def)
  show "by_page pt s' p = by_page pt s p" using f by (auto simp: by_page_def)
  show "pview pt s' p = (if p div 256 = i \<and> a \<le> p mod 256 \<and> p mod 256 < b
       then descriptor_view v else pview pt s p)"
  proof (cases "p div 256 = i")
    case True
    then show ?thesis using i f [OF i(1)] di [of "p mod 256"] by (simp add: pview_table)
  next
    case False
    then show ?thesis using pview_other(1) [of pt "{i}" s' s p] f d by auto
  qed
qed

subsection \<open>What an operation on one table leaves alone\<close>

text \<open>
  The table grows by pages nobody owned; counts change only for those; memory changes only in the
  pages of the table and in the bytes of the count table.  Locks and console are as before.
\<close>

definition new_frames :: "PageTable \<Rightarrow> kstate \<Rightarrow> kstate \<Rightarrow> nat set" where
  "new_frames pt s s' = table_frames pt s' - table_frames pt s"

definition table_op :: "PageTable \<Rightarrow> kstate \<Rightarrow> kstate \<Rightarrow> bool" where
  "table_op pt s s' \<longleftrightarrow> pt_wf pt s' \<and> npages s' = npages s \<and> rtab s' = rtab s \<and>
     held s' = held s \<and> console s' = console s \<and> table_frames pt s \<subseteq> table_frames pt s' \<and>
     (\<forall>f. owned s f \<longrightarrow> owned s' f) \<and>
     (\<forall>f \<in> new_frames pt s s'. f < npages s \<and> rc s f = 0 \<and> rc s' f = 1) \<and>
     (\<forall>p < npages s. p \<notin> new_frames pt s s' \<longrightarrow> rc s' p = rc s p) \<and>
     (\<forall>b. (\<forall>q < npages s. b \<noteq> rtab s + of_nat q) \<longrightarrow> frame b \<notin> table_frames pt s' \<longrightarrow>
        mem s' b = mem s b)"

lemma table_op_refl: "pt_wf pt s \<Longrightarrow> table_op pt s s"
  by (simp add: table_op_def new_frames_def)

lemma table_op_wf: "table_op pt s s' \<Longrightarrow> pt_wf pt s'"
  by (simp add: table_op_def)

lemma new_not_owned: "table_op pt s s' \<Longrightarrow> f \<in> new_frames pt s s' \<Longrightarrow> \<not> owned s f"
  by (auto simp: table_op_def owned_def used_def)

lemma table_op_trans:
  assumes a: "table_op pt s t" and b: "table_op pt t u"
  shows "table_op pt s u"
proof -
  note A = a [unfolded table_op_def] and B = b [unfolded table_op_def]
  have sub: "new_frames pt s u = new_frames pt s t \<union> new_frames pt t u"
    using A B by (auto simp: new_frames_def)
  have disj: "f \<notin> new_frames pt t u" if "f \<in> new_frames pt s t" for f
    using that by (simp add: new_frames_def)
  have "f < npages s \<and> rc s f = 0 \<and> rc u f = 1" if "f \<in> new_frames pt s u" for f
  proof (cases "f \<in> new_frames pt s t")
    case True
    then have "f < npages s" "rc s f = 0" "rc t f = 1" using A by simp_all
    moreover have "rc u f = rc t f" using B A disj [OF True] calculation(1) by simp
    ultimately show ?thesis by simp
  next
    case False
    then have n: "f \<in> new_frames pt t u" using that sub by blast
    then have "f < npages s" "rc t f = 0" "rc u f = 1" using A B by simp_all
    moreover have "rc t f = rc s f" using A False calculation(1) by simp
    ultimately show ?thesis by simp
  qed
  moreover have "rc u p = rc s p" if "p < npages s" "p \<notin> new_frames pt s u" for p
    using that A B sub by simp
  ultimately show ?thesis
    using A B unfolding table_op_def by (auto dest: subsetD)
qed

lemma table_op_writes:
  assumes wf: "pt_wf pt s" and w: "writes F s s'" and F: "F \<subseteq> table_frames pt s"
    and wf': "pt_wf pt s'" and tf: "table_frames pt s' = table_frames pt s"
  shows "table_op pt s s'"
proof -
  have own: "owned s f" if "f \<in> F" for f using that F table_frames_owned [OF wf] by blast
  note c = writes_counts [OF w own]
  show ?thesis
    using w F wf' tf c by (auto simp: table_op_def new_frames_def writes_def)
qed

lemma root_fill_op:
  assumes "pt_wf pt s" "b \<le> nent pt" "plain v" "\<And>k. a \<le> k \<Longrightarrow> k < b \<Longrightarrow> \<not> is_table (fle pt s k)"
  shows "table_op pt s (fill (root pt) a b v s)"
  using root_fill_step(1,2,5) [OF assms] root_in_table_frames [of pt s]
  by (intro table_op_writes [OF assms(1)]) simp_all

lemma table_fill_op:
  assumes "pt_wf pt s" "i < nent pt" "is_table (fle pt s i)" "b \<le> 256" "plain v"
  shows "table_op pt s (fill (table_of (fle pt s i)) a b v s)"
  using table_fill_step(1,2,4) [OF assms] table_in_table_frames [OF assms(2,3)]
  by (intro table_op_writes [OF assms(1)]) auto

lemma root_st:
  assumes "pt_wf pt s" "i < nent pt" "plain v" "\<not> is_table (fle pt s i)"
  shows "table_op pt s (st (slot (root pt) i) v s)"
    "pview pt (st (slot (root pt) i) v s) p = (if p div 256 = i then entry_view v p else pview pt s p)"
    "by_page pt (st (slot (root pt) i) v s) p = by_page pt s p"
proof -
  have old: "\<And>k. i \<le> k \<Longrightarrow> k < Suc i \<Longrightarrow> \<not> is_table (fle pt s k)" using assms(4) by (metis le_less_Suc_eq)
  have le: "Suc i \<le> nent pt" using assms(2) by simp
  show "table_op pt s (st (slot (root pt) i) v s)"
    using root_fill_op [where a = i, OF assms(1) le assms(3) old] by (simp only: fill_one)
  show "pview pt (st (slot (root pt) i) v s) p = (if p div 256 = i then entry_view v p else pview pt s p)"
    using root_fill_step(6) [where a = i and p = p, OF assms(1) le assms(3) old]
    unfolding fill_one by auto
  show "by_page pt (st (slot (root pt) i) v s) p = by_page pt s p"
    using root_fill_step(7) [where a = i, OF assms(1) le assms(3) old] by (simp only: fill_one)
qed

lemma table_st:
  assumes "pt_wf pt s" "i < nent pt" "is_table (fle pt s i)" "j < 256" "plain v"
  defines "a \<equiv> slot (table_of (fle pt s i)) j"
  shows "table_op pt s (st a v s)"
    "pview pt (st a v s) p = (if p = 256 * i + j then descriptor_view v else pview pt s p)"
    "by_page pt (st a v s) p = by_page pt s p"
proof -
  have le: "Suc j \<le> 256" using assms(4) by simp
  note fs = table_fill_step [where a = j, OF assms(1-3) le assms(5)]
  show "table_op pt s (st a v s)"
    using table_fill_op [where a = j, OF assms(1-3) le assms(5)] unfolding a_def by (simp only: fill_one)
  have "(p div 256 = i \<and> j \<le> p mod 256 \<and> p mod 256 < Suc j) \<longleftrightarrow> p = 256 * i + j"
  proof -
    have "(p div 256 = i \<and> p mod 256 = j) \<longleftrightarrow> p = 256 * i + j" using assms(4) by auto
    then show ?thesis by (metis le_antisym less_Suc_eq_le order_refl)
  qed
  then show "pview pt (st a v s) p = (if p = 256 * i + j then descriptor_view v else pview pt s p)"
    using fs(5) [of p] unfolding a_def fill_one by simp
  show "by_page pt (st a v s) p = by_page pt s p"
    using fs(6) unfolding a_def by (simp only: fill_one)
qed

text \<open>
  Two tables do not interfere: an operation on one keeps the invariant, the pages and the whole
  view of another.
\<close>

lemma table_op_other_word:
  assumes op: "table_op pt s s'" and o: "owned s (frame a)" "frame a \<notin> table_frames pt s" "aligned 2 a"
  shows "ld s' a = ld s a"
  unfolding ld_def
proof (rule load32_cong)
  fix k :: nat assume "k < 4"
  then have f: "frame (a + of_nat k) = frame a" using o(3) by (rule frame_aligned_add_word [rotated])
  have "frame a \<notin> table_frames pt s'"
    using new_not_owned [OF op, of "frame a"] o by (auto simp: new_frames_def)
  then show "mem s' (a + of_nat k) = mem s (a + of_nat k)"
    using op owned_not_table [OF o(1)] f unfolding table_op_def by metis
qed

text \<open>
  A table whose own pages keep their words and stay in use is the same table, whatever else happened.
\<close>

lemma words_keep_table:
  assumes wf: "pt_wf pt s" and pa: "pa_wf s'" and own: "\<And>f. f \<in> table_frames pt s \<Longrightarrow> owned s' f"
    and word: "\<And>a. frame a \<in> table_frames pt s \<Longrightarrow> aligned 2 a \<Longrightarrow> ld s' a = ld s a"
  shows "pt_wf pt s'" "pview pt s' = pview pt s" "by_page pt s' = by_page pt s" "table_frames pt s' = table_frames pt s"
proof -
  have f: "fle pt s' k = fle pt s k" if "k < nent pt" for k
    unfolding fle_def using root_slot_frame [OF wf that] root_in_table_frames pt_wfD(6) [OF wf] by (intro word) auto
  have d: "sle pt s' k j = sle pt s k j" if "k < nent pt" "is_table (fle pt s k)" "j < 256" for k j
    unfolding sle_def f [OF that(1)]
    using table_slot_frame [OF wf that] table_in_table_frames [OF that(1,2)] entry_tableD(2) [OF wf that(1,2)]
    by (intro word) simp_all
  have t: "table_frame pt s' k = table_frame pt s k" if "k < nent pt" for k using f that by (simp add: table_frame_def)
  have "entry_ok pt s' k" if "k < nent pt" for k
    using pt_wfD(8) [OF wf that] f [OF that] d [OF that] t [OF that] own table_in_table_frames [OF that]
    by (auto simp: entry_ok_def)
  moreover have "inj_on (table_frame pt s') {i. i < nent pt \<and> is_table (fle pt s' i)}"
    using pt_wfD(9) [OF wf] f t by (auto intro!: inj_onI)
  moreover have "owned s' g" if "g \<in> root_frames pt" for g using own root_in_table_frames that by blast
  ultimately show "pt_wf pt s'" using wf pa unfolding pt_wf_def by blast
  show "pview pt s' = pview pt s" "by_page pt s' = by_page pt s"
    using pview_other [of pt "{}" s' s] f d by (auto simp: fun_eq_iff)
  show "table_frames pt s' = table_frames pt s" using f t by (intro table_frames_cong) simp_all
qed

lemma table_op_isolated:
  assumes op: "table_op pt s s'" and wf2: "pt_wf pt2 s"
    and apart: "table_frames pt2 s \<inter> table_frames pt s = {}"
  shows "pt_wf pt2 s'" "pview pt2 s' p = pview pt2 s p" "by_page pt2 s' p = by_page pt2 s p"
    "table_frames pt2 s' = table_frames pt2 s" "table_frames pt2 s' \<inter> table_frames pt s' = {}"
proof -
  have word: "ld s' a = ld s a" if "frame a \<in> table_frames pt2 s" "aligned 2 a" for a
    using table_op_other_word [OF op _ _ that(2)] table_frames_owned [OF wf2 that(1)] apart that(1) by blast
  have pa: "pa_wf s'" using op pt_wfD(1) [of pt s'] by (simp add: table_op_def)
  have own: "owned s' g" if "g \<in> table_frames pt2 s" for g
    using op table_frames_owned [OF wf2 that] by (simp add: table_op_def)
  note keep = words_keep_table [OF wf2 pa own word]
  show "pt_wf pt2 s'" "pview pt2 s' p = pview pt2 s p" "by_page pt2 s' p = by_page pt2 s p"
    "table_frames pt2 s' = table_frames pt2 s"
    by (simp_all only: keep)
  show "table_frames pt2 s' \<inter> table_frames pt s' = {}"
    using apart new_not_owned [OF op] table_frames_owned [OF wf2] by (auto simp: keep new_frames_def)
qed


end
