(* ===== verification/Table_Reserve.thy ===== *)
theory Table_Reserve
  imports Page_Table_Step
begin

unbundle bit_operations_syntax

text \<open>
  Reservation at a given address: the loops of \<open>reserve_pages\<close>, \<open>reserve_sections\<close> and
  \<open>reserve_supersections\<close> refine one specification on the view: either every page of the request
  was free and is now reserved, or nothing has changed.
\<close>

subsection \<open>A fresh second-level table\<close>

lemma sizes_1: "(1 :: u32) \<in> sizes" "unat (1 :: u32) dvd n"
  by (simp_all add: sizes_def)

lemma alloc_1_cases:
  assumes "pa_wf s" "\<not> held s PageAllocLock"
  obtains r s' where "alloc 1 s = Ok r s'" | t where "alloc 1 s = panic OutOfMemory t"
  using alloc_eq [OF assms(1) sizes_1 assms(2)] by (auto simp: Let_def split: option.splits if_splits)

lemma create_cases:
  assumes "pa_wf s" "\<not> held s PageAllocLock"
  obtains r s0 where "alloc 1 s = Ok r s0" "create_second_level_table s = Ok r (fill r 0 256 0 s0)"
  | t where "create_second_level_table s = panic OutOfMemory t"
  by (rule alloc_1_cases [OF assms]) (auto simp: create_second_level_table_def)

definition install :: "PageTable \<Rightarrow> nat \<Rightarrow> u32 \<Rightarrow> kstate \<Rightarrow> kstate" where
  "install pt i r s0 = st (slot (root pt) i) (r OR 0x1) (fill r 0 256 0 s0)"

lemma new_table_step:
  assumes wf: "pt_wf pt s" and i: "i < nent pt" and free: "fle pt s i AND 0x7 = 0"
    and al: "alloc 1 s = Ok r s0"
  defines "s' \<equiv> install pt i r s0"
  shows "table_op pt s s'" "fle pt s' i = r OR 0x1" "is_table (fle pt s' i)" "table_of (fle pt s' i) = r"
    "pview pt s' p = pview pt s p" "by_page pt s' p \<longleftrightarrow> p div 256 = i \<or> by_page pt s p"
proof -
  note pa = pt_wfD(1) [OF wf]
  have r: "aligned 12 r" "aligned 2 r" "pa_wf s0" "owned s0 (frame r)" "\<not> owned s (frame r)"
    using page1.fresh_aligned [of s r s0] page1.inv_kept [of s r s0] page1.fresh_owned [of s r s0 0]
      page1.fresh_not_owned [of s r s0 0] pa al aligned_mono [of 12 r 2] by simp_all
  have kept: "owned s0 f" if "owned s f" for f using page1.owned_kept [OF _ al that] pa by simp
  note ak = alloc_keeps [OF pa sizes_1 al]
  let ?s1 = "fill r 0 256 0 s0"
  let ?a = "slot (root pt) i"
  have a: "frame ?a \<in> root_frames pt" "owned s (frame ?a)" "aligned 2 ?a"
    using root_slot_frame [OF wf i] root_slot_owned [OF wf i] pt_wfD(6) [OF wf] by simp_all
  have ra: "frame ?a \<noteq> frame r" using a(2) r(5) by auto
  have w1: "writes {frame r} s0 ?s1"
    using r(1,2) by (intro writes_fill) (simp_all add: frame_table_slot)
  have w: "writes {frame r, frame ?a} s0 s'"
    unfolding s'_def install_def using writes_trans [OF w1 writes_st [OF a(3)]] by (simp add: insert_commute)
  have own: "owned s0 f" if "f \<in> {frame r, frame ?a}" for f using that r(4) kept [OF a(2)] by auto
  note cnt = writes_counts [OF w own]
  have word: "ld s' c = (if c = ?a then r OR 0x1 else ld s c)" if "owned s (frame c)" "aligned 2 c" for c
  proof -
    have "frame c \<noteq> frame r" using that(1) r(5) by metis
    then have "ld ?s1 c = ld s0 c" using writes_ld [OF w1 that(2)] by simp
    moreover have "ld s0 c = ld s c"
      unfolding ld_def using page1.word_kept [OF _ al that(2,1)] pa by simp
    ultimately show ?thesis unfolding s'_def install_def using ld_st [OF a(3) that(2)] by auto
  qed
  have f: "fle pt s' k = (if k = i then r OR 0x1 else fle pt s k)" if "k < nent pt" for k
    unfolding fle_def
    using word [OF root_slot_owned [OF wf that]] pt_wfD(2,6) [OF wf] slot_eq_iff [of k i] that i by auto
  show fi: "fle pt s' i = r OR 0x1" using f [OF i] by simp
  show ti: "is_table (fle pt s' i)" "table_of (fle pt s' i) = r"
    unfolding fi using table_descriptor [OF r(1)] by (simp_all add: is_table_def table_of_def)
  have d: "sle pt s' k j = sle pt s k j" if k: "k < nent pt" "k \<noteq> i" "is_table (fle pt s k)" "j < 256" for k j
  proof -
    let ?c = "slot (table_of (fle pt s k)) j"
    have "frame ?c = table_frame pt s k" using table_slot_frame [OF wf k(1,3,4)] .
    moreover from this have "?c \<noteq> ?a" using entry_tableD(4) [OF wf k(1,3)] a(1) by auto
    ultimately show ?thesis
      unfolding sle_def using f [OF k(1)] k(2) word [of ?c] entry_tableD(2,3) [OF wf k(1,3)] by simp
  qed
  have z: "sle pt s' i j = 0" if "j < 256" for j
  proof -
    have "ld s' (slot r j) = ld ?s1 (slot r j)"
      unfolding s'_def install_def using ld_st [OF a(3), of "slot r j"] r(2) ra frame_table_slot [OF r(1), of j] that
      by auto
    then show ?thesis unfolding sle_def ti(2) using that r(1) by (simp add: ld_fill)
  qed
  have nt: "\<not> is_table (fle pt s i)" using free_not_table(1) [OF free] .
  have tfi: "table_frame pt s' i = frame r" by (simp add: table_frame_def ti(2))
  have "frame r \<notin> root_frames pt" using pt_wfD(7) [OF wf] r(5) by blast
  then have ok: "entry_ok pt s' i"
    unfolding entry_ok_def tfi using ti r(1,4) z cnt(5) by simp
  have wf': "pt_wf pt s'"
    using cnt(5,6) r(3) kept f d ok tfi r(5)
    by (intro pt_wf_stepI [where S = "{i}", OF wf]) auto
  show view: "pview pt s' p = pview pt s p"
  proof (cases "p div 256 = i")
    case True
    then show ?thesis
      using i ti(1) z [of "p mod 256"] nt free by (simp add: pview_table pview_section entry_view_free)
  next
    case False
    then show ?thesis using pview_other(1) [of pt "{i}" s' s p] f d by auto
  qed
  show "by_page pt s' p \<longleftrightarrow> p div 256 = i \<or> by_page pt s p"
    using f [of "p div 256"] i ti(1) by (auto simp: by_page_def fi)
  have tfs: "table_frames pt s' = insert (frame r) (table_frames pt s)"
  proof -
    have "{k. k < nent pt \<and> is_table (fle pt s' k)} = insert i {k. k < nent pt \<and> is_table (fle pt s k)}"
      using f i ti(1) nt by (auto simp: fi)
    moreover have "table_frame pt s' ` {k. k < nent pt \<and> is_table (fle pt s k)}
        = table_frame pt s ` {k. k < nent pt \<and> is_table (fle pt s k)}"
      using f nt by (intro image_cong) (auto simp: table_frame_def)
    ultimately show ?thesis unfolding table_frames_def by (simp add: tfi)
  qed
  have nf: "new_frames pt s s' = {frame r}"
    unfolding new_frames_def tfs using table_frames_owned [OF wf] r(5) by auto
  have p: "palloc s' = palloc s0" using w by (simp add: writes_def)
  show "table_op pt s s'"
    unfolding table_op_def nf
  proof (intro conjI allI impI ballI)
    show "rc s' p = rc s p" if "p < npages s" "p \<notin> {frame r}" for p
      using cnt(2) [of p] ak(3,6) that by auto
    show "f < npages s" "rc s f = 0" "rc s' f = 1" if "f \<in> {frame r}" for f
      using that cnt(2) [of "frame r"] ak(3,6,9,10) by simp_all
    show "mem s' b = mem s b"
      if b: "\<forall>q < npages s. b \<noteq> rtab s + of_nat q" "frame b \<notin> table_frames pt s'" for b
    proof -
      have "frame b \<notin> {frame r, frame ?a}" using b(2) tfs a(1) root_in_table_frames [of pt s] by auto
      then have "mem s' b = mem s0 b" using w by (simp add: writes_def)
      then show ?thesis using ak(7) [of b] b(1) \<open>frame b \<notin> {frame r, frame ?a}\<close> by simp
    qed
    show "rtab s' = rtab s" using p ak(4) by simp
  qed (use wf' cnt(1,5) ak w tfs kept in \<open>auto simp: writes_def\<close>)
qed

subsection \<open>One chunk of a page reservation\<close>

lemma section_descriptor_at:
  "get_section_descriptor pt va allow s
    = (if nent pt \<le> frame va div 256 then Failure
       else if is_table (fle pt s (frame va div 256)) \<and> \<not> allow then Failure
       else Success (slot (root pt) (frame va div 256)))"
  by (simp add: get_section_descriptor_def Let_def entry_range entry_index fle_def is_table_def
      get_first_level_table_address_def)

lemma page_descriptor_at:
  "get_page_descriptor pt va s
    = (if by_page pt s (frame va)
       then Success (slot (table_of (fle pt s (frame va div 256))) (frame va mod 256))
       else Failure)"
  by (simp add: get_page_descriptor_def Let_def entry_range entry_index fle_def is_table_def by_page_def
      get_first_level_table_address_def get_second_level_table_address_def frame_mod_256 table_of_def)

text \<open>The pages a chunk covers: within one section.\<close>

definition chunk_ok :: "u32 \<Rightarrow> u32 \<Rightarrow> bool" where
  "chunk_ok b n \<longleftrightarrow> 0 < unat n \<and> frame b mod 256 + unat n \<le> 256"

definition chunk_pages :: "u32 \<Rightarrow> u32 \<Rightarrow> nat set" where
  "chunk_pages b n = {frame b..<frame b + unat n}"

lemma chunk_index:
  assumes "chunk_ok b n" "i < unat n"
  shows "(frame b + i) div 256 = frame b div 256" "(frame b + i) mod 256 = frame b mod 256 + i"
    "frame b + i < 2 ^ 20"
proof -
  have m: "frame b mod 256 + i < 256" using assms by (simp add: chunk_ok_def)
  have e: "frame b + i = frame b div 256 * 256 + (frame b mod 256 + i)" by simp
  obtain q r where q: "q = frame b div 256" "r = frame b mod 256" by blast
  then have b: "frame b = 256 * q + r" by (metis mult_div_mod_eq)
  have "(256 * q + (r + i)) div 256 = q" "(256 * q + (r + i)) mod 256 = r + i" using m q(2) by simp_all
  then show "(frame b + i) div 256 = frame b div 256" "(frame b + i) mod 256 = frame b mod 256 + i"
    unfolding q(1,2) [symmetric] b by (simp_all add: add.assoc)
  have "frame b div 256 < 4096" using frame_less [of b] by (simp add: div_less_iff_less_mult)
  then have "frame b div 256 * 256 + 256 \<le> 2 ^ 20" by simp
  then show "frame b + i < 2 ^ 20" using e m by linarith
qed

lemma in_chunk: "chunk_ok b n \<Longrightarrow> p \<in> chunk_pages b n \<longleftrightarrow>
   p div 256 = frame b div 256 \<and> frame b mod 256 \<le> p mod 256 \<and> p mod 256 < frame b mod 256 + unat n"
proof
  assume c: "chunk_ok b n" and "p \<in> chunk_pages b n"
  then obtain i where "p = frame b + i" "i < unat n"
    unfolding chunk_pages_def by (metis atLeastLessThan_iff le_iff_add nat_add_left_cancel_less)
  then show "p div 256 = frame b div 256 \<and> frame b mod 256 \<le> p mod 256 \<and> p mod 256 < frame b mod 256 + unat n"
    using chunk_index [OF c] by simp
next
  assume "chunk_ok b n" and p: "p div 256 = frame b div 256 \<and> frame b mod 256 \<le> p mod 256 \<and> p mod 256 < frame b mod 256 + unat n"
  obtain q r x where q: "p div 256 = q" "p mod 256 = r" "frame b mod 256 = x" by blast
  then have "p = 256 * q + r" "frame b = 256 * q + x" using p by (metis mult_div_mod_eq)+
  then show "p \<in> chunk_pages b n" unfolding chunk_pages_def using p q by simp
qed

text \<open>The check says exactly that every page of the chunk is free.\<close>

lemma check_section_iff:
  assumes wf: "pt_wf pt s" and c: "chunk_ok b n"
  shows "check_section_partially_reservable pt b n s
    \<longleftrightarrow> (\<forall>p \<in> chunk_pages b n. pview pt s p = VFree)"
proof -
  let ?i = "frame b div 256"
  have pages: "(\<forall>p \<in> chunk_pages b n. P p) \<longleftrightarrow> (\<forall>k < unat n. P (frame b + k))" for P
    unfolding chunk_pages_def
    by (metis atLeastLessThan_iff le_add1 le_iff_add nat_add_left_cancel_less)
  have some: "0 < unat n" using c by (simp add: chunk_ok_def)
  have k0: "(\<forall>k < unat n. Q) \<longleftrightarrow> Q" for Q using some by blast
  note ix = chunk_index [OF c]
  show ?thesis
  proof (cases "nent pt \<le> ?i")
    case True
    then have "pview pt s (frame b + k) = VOutside" if "k < unat n" for k
      using ix(1) [OF that] by (simp add: pview_outside)
    then show ?thesis
      using True some by (auto simp: pages check_section_partially_reservable_def section_descriptor_at)
  next
    case in_range: False
    show ?thesis
    proof (cases "is_table (fle pt s ?i)")
      case True
      then have nf: "fle pt s ?i AND 0x7 \<noteq> 0" using free_not_table(1) by blast
      have v: "pview pt s (frame b + k) = VFree \<longleftrightarrow>
          (case get_page_descriptor pt (b + of_nat k * PAGE_SIZE) s of
             Failure \<Rightarrow> False | Success p \<Rightarrow> ld s p AND 0x7 = 0)"
        if k: "k < unat n" for k
        using ix [OF k] True in_range frame_add_page [of b k]
        by (simp add: page_descriptor_at by_page_def pview_table view_eq_iff sle_def)
      show ?thesis
        using True in_range nf v
        by (auto simp: pages check_section_partially_reservable_def section_descriptor_at fle_def
            is_table_def list_all_iff)
    next
      case False
      then have "pview pt s (frame b + k) = VFree \<longleftrightarrow> fle pt s ?i AND 0x7 = 0" if "k < unat n" for k
        using ix(1) [OF that] in_range by (simp add: pview_section view_eq_iff)
      then show ?thesis
        using False in_range k0
        by (simp add: pages check_section_partially_reservable_def section_descriptor_at fle_def
            is_table_def)
    qed
  qed
qed

text \<open>
  The specification of a reservation of a set of pages: they become reserved, in second-level
  tables if asked for, and nothing else changes; new second-level tables are only for their sections.
\<close>

definition reserves :: "PageTable \<Rightarrow> bool \<Rightarrow> nat set \<Rightarrow> kstate \<Rightarrow> kstate \<Rightarrow> bool" where
  "reserves pt paged P s s' \<longleftrightarrow> table_op pt s s' \<and>
     (\<forall>p. pview pt s' p = (if p \<in> P then VReserved else pview pt s p)) \<and>
     (\<forall>p \<in> P. by_page pt s' p = paged) \<and>
     (\<forall>p. (by_page pt s p \<longrightarrow> by_page pt s' p) \<and>
        (by_page pt s' p \<longrightarrow> by_page pt s p \<or> paged \<and> p div 256 \<in> (\<lambda>q. q div 256) ` P))"

lemma reserves_op: "reserves pt paged P s s' \<Longrightarrow> table_op pt s s'"
  by (simp add: reserves_def)

lemma reserves_wf: "reserves pt paged P s s' \<Longrightarrow> pt_wf pt s'"
  by (rule table_op_wf [OF reserves_op])

lemma reserves_empty: "pt_wf pt s \<Longrightarrow> reserves pt paged {} s s"
  by (simp add: reserves_def table_op_refl)

lemma reserves_trans:
  assumes st: "reserves pt paged P s t" and tu: "reserves pt paged Q t u"
  shows "reserves pt paged (P \<union> Q) s u"
proof -
  have "table_op pt s u"
    using st tu by (intro table_op_trans [of pt s t u]) (simp_all add: reserves_def)
  moreover have "pview pt u p = (if p \<in> P \<union> Q then VReserved else pview pt s p)" for p
    using st tu by (simp add: reserves_def)
  moreover have "by_page pt u p = paged" if "p \<in> P \<union> Q" for p
  proof (cases "p \<in> Q")
    case True
    then show ?thesis using tu by (simp add: reserves_def)
  next
    case False
    then have "by_page pt t p = paged" using st that by (simp add: reserves_def)
    then show ?thesis using tu unfolding reserves_def by blast
  qed
  moreover have "(by_page pt s p \<longrightarrow> by_page pt u p) \<and>
      (by_page pt u p \<longrightarrow> by_page pt s p \<or> paged \<and> p div 256 \<in> (\<lambda>q. q div 256) ` (P \<union> Q))" for p
    using st tu unfolding reserves_def image_Un by blast
  ultimately show ?thesis unfolding reserves_def by blast
qed

lemma reserve_chunk:
  assumes wf: "pt_wf pt s" and c: "chunk_ok b n" and l: "\<not> held s PageAllocLock"
    and free: "\<forall>p \<in> chunk_pages b n. pview pt s p = VFree"
  shows "(\<exists>s'. reserve_pages_from_section pt b n s = Ok () s' \<and> reserves pt True (chunk_pages b n) s s') \<or>
    (\<exists>t. reserve_pages_from_section pt b n s = panic OutOfMemory t)"
proof -
  let ?i = "frame b div 256" and ?j = "frame b mod 256"
  have some: "0 < unat n" and le: "?j + unat n \<le> 256" using c by (simp_all add: chunk_ok_def)
  have v: "pview pt s (frame b) = VFree" using free some by (simp add: chunk_pages_def)
  then have i: "?i < nent pt" using pview_outside [of pt s "frame b"] by (cases "nent pt \<le> ?i") simp_all
  have start: "unat (drop_bit 12 (b AND 0x000ff000)) = ?j"
  proof -
    have "drop_bit 12 (b AND 0x000ff000) = drop_bit 12 b AND 0xff"
      by (rule bit_word_eqI) (simp add: bit_simps)
    then show ?thesis by (simp add: frame_mod_256)
  qed
  have fill: "reserves pt True (chunk_pages b n) s (fill (table_of (fle pt t ?i)) ?j (?j + unat n) 4 t)"
    if t: "table_op pt s t" "is_table (fle pt t ?i)" "\<And>p. pview pt t p = pview pt s p"
      "\<And>p. by_page pt t p \<longleftrightarrow> p div 256 = ?i \<or> by_page pt s p" for t
  proof -
    note wft = table_op_wf [OF t(1)]
    note st = table_fill_step [OF wft i t(2) le plain_free(2), of ?j]
    have "table_op pt s (fill (table_of (fle pt t ?i)) ?j (?j + unat n) 4 t)"
      using table_op_trans [OF t(1)] table_fill_op [OF wft i t(2) le plain_free(2)] by blast
    moreover have "by_page pt t p" if "p \<in> chunk_pages b n" for p
      using in_chunk [OF c] that t(2) i by (simp add: by_page_def)
    moreover have "p div 256 \<in> (\<lambda>q. q div 256) ` chunk_pages b n" if "p div 256 = ?i" for p
      using some that by (intro image_eqI [of _ _ "frame b"]) (simp_all add: chunk_pages_def)
    ultimately show ?thesis
      using st(5,6) t(3,4) in_chunk [OF c] by (auto simp: reserves_def)
  qed
  show ?thesis
  proof (cases "is_table (fle pt s ?i)")
    case True
    then have "fle pt s ?i AND 0x7 \<noteq> 0" using free_not_table(1) by blast
    then have "reserve_pages_from_section pt b n s
        = Ok () (fill (table_of (fle pt s ?i)) ?j (?j + unat n) 4 s)"
      using i start True
      by (simp add: reserve_pages_from_section_def section_descriptor_at fle_def table_of_def
          get_second_level_table_address_def Let_def)
    moreover have "by_page pt s p \<longleftrightarrow> p div 256 = ?i \<or> by_page pt s p" for p
      using True i by (auto simp: by_page_def)
    ultimately show ?thesis using fill [OF table_op_refl [OF wf] True] by blast
  next
    case False
    then have e: "fle pt s ?i AND 0x7 = 0" using v i by (simp add: pview_section view_eq_iff)
    show ?thesis
    proof (rule create_cases [OF pt_wfD(1) [OF wf] l])
      fix r s0 assume al: "alloc 1 s = Ok r s0"
        and cr: "create_second_level_table s = Ok r (fill r 0 256 0 s0)"
      note st = new_table_step [OF wf i e al]
      have "reserve_pages_from_section pt b n s
          = Ok () (fill r ?j (?j + unat n) 4 (install pt ?i r s0))"
        using i start e cr
        by (simp add: reserve_pages_from_section_def section_descriptor_at fle_def
            get_second_level_table_address_def Let_def install_def)
      then show ?thesis using fill [OF st(1,3,5)] st(4,6) by auto
    next
      fix t assume "create_second_level_table s = panic OutOfMemory t"
      then show ?thesis
        using i e by (auto simp: reserve_pages_from_section_def section_descriptor_at fle_def)
    qed
  qed
qed

subsection \<open>The walk over the sections of a request\<close>

lemma unat_pages_in_rest: "unat (pages_in_rest_of_section b) = 256 - frame b mod 256" if "aligned 12 b"
proof -
  have o: "(b AND 0xfff00000) = b - (b AND mask 20)" unfolding not_masks by (rule and_not_mask_eq)
  have m: "unat (b AND mask 20) = frame b mod 256 * 4096"
    using unat_frame [OF that] mod_mult_mult1 [of 4096 "frame b" 256] by (simp add: unat_and_mask)
  have "frame b mod 256 < 256" by simp
  then have le: "b AND mask 20 \<le> SECTION_SIZE" using m by (simp add: word_le_nat_alt)
  have "pages_in_rest_of_section b = (SECTION_SIZE - (b AND mask 20)) div PAGE_SIZE"
    by (simp add: pages_in_rest_of_section_def o)
  then have "unat (pages_in_rest_of_section b) = (unat SECTION_SIZE - frame b mod 256 * 4096) div 4096"
    using le m by (simp add: unat_div32 unat_sub)
  also have "\<dots> = ((256 - frame b mod 256) * 4096) div 4096" by (simp add: diff_mult_distrib)
  finally show ?thesis by simp
qed

lemma frame_next_section:
  "frame b div 256 * 256 + 256 < 2 ^ 20 \<Longrightarrow> frame (next_section b) = frame b div 256 * 256 + 256"
  using frame_add_section [of "b AND 0xfff00000" 1] by (simp add: next_section_def frame_and_section)

text \<open>
  For a request that does not pass the top of the address space: the chunks are well-formed, end
  to end, and cover it.
\<close>

fun chain :: "nat \<Rightarrow> (u32 \<times> u32) list \<Rightarrow> nat \<Rightarrow> bool" where
  "chain a [] e = (a = e)"
| "chain a ((b, n) # cs) e = (frame b = a \<and> aligned 12 b \<and> chunk_ok b n \<and> chain (a + unat n) cs e)"

definition chunks_pages :: "(u32 \<times> u32) list \<Rightarrow> nat set" where
  "chunks_pages cs = (\<Union>(b, n) \<in> set cs. chunk_pages b n)"

lemma chain_le: "chain a cs e \<Longrightarrow> a \<le> e"
  by (induction a cs e rule: chain.induct) auto

lemma chain_pages: "chain a cs e \<Longrightarrow> chunks_pages cs = {a..<e}"
proof (induction a cs e rule: chain.induct)
  case (2 a b n cs e)
  then have "chain (a + unat n) cs e" by simp
  then have "chunks_pages cs = {a + unat n..<e}" "a + unat n \<le> e" using 2(1) chain_le by blast+
  then show ?case
    using 2(2) by (auto simp: chunks_pages_def chunk_pages_def)
qed (simp add: chunks_pages_def)

lemma chain_section_chunks:
  "aligned 12 b \<Longrightarrow> frame b + unat n \<le> 2 ^ 20 \<Longrightarrow> chain (frame b) (section_chunks b n) (frame b + unat n)"
proof (induction b n rule: section_chunks.induct)
  case (1 b n)
  let ?r = "pages_in_rest_of_section b" and ?m = "frame b mod 256"
  note r = unat_pages_in_rest [OF 1(2)]
  show ?case
  proof (cases "n > 0")
    case False
    then show ?thesis by (subst section_chunks.simps) (simp add: word_gt_0)
  next
    case True
    have n0: "0 < unat n" using True by (simp add: word_less_nat_alt)
    show ?thesis
    proof (cases "unat n \<le> 256 - ?m")
      case True
      then have "min n ?r = n" using r by (simp add: min_def word_le_nat_alt)
      moreover have "section_chunks x 0 = []" for x by (subst section_chunks.simps) simp
      moreover have "?m + unat n \<le> 256" using True n0 by linarith
      ultimately show ?thesis
        using \<open>n > 0\<close> 1(2) n0 by (subst section_chunks.simps) (simp add: chunk_ok_def Let_def)
    next
      case more: False
      then have mn: "min n ?r = ?r" using r by (simp add: min_def word_le_nat_alt)
      have un: "unat (n - ?r) = unat n - (256 - ?m)"
        using more r by (subst unat_sub) (simp_all add: word_le_nat_alt)
      have "?m < 256" by simp
      obtain q x where qx: "q = frame b div 256" "x = frame b mod 256" by blast
      then have fb: "frame b = 256 * q + x" by (metis mult_div_mod_eq)
      have x: "x < 256" using qx(2) by simp
      have nx: "256 < x + unat n" using more unfolding qx(2) [symmetric] by linarith
      have lt: "q * 256 + 256 < 2 ^ 20" using nx 1(3) unfolding fb by linarith
      have "frame (next_section b) = frame b + (256 - x)"
        using frame_next_section [of b, folded qx(1)] lt x fb by linarith
      then have fn: "frame (next_section b) = frame b + (256 - ?m)" unfolding qx(2) .
      have sc: "section_chunks b n = (b, ?r) # section_chunks (next_section b) (n - ?r)"
        using True mn by (subst section_chunks.simps) (simp add: Let_def)
      have al: "aligned 12 (next_section b)" using aligned_mono [OF aligned_next_section] by simp
      have bound: "frame (next_section b) + unat (n - ?r) = frame b + unat n"
        using fn un more by linarith
      have "chain (frame (next_section b)) (section_chunks (next_section b) (n - ?r))
          (frame b + unat n)"
        using 1(1) [OF True refl, unfolded mn] al bound 1(3) by metis
      moreover have "chunk_ok b ?r" using r \<open>?m < 256\<close> by (simp add: chunk_ok_def)
      moreover have "frame b + unat ?r = frame (next_section b)" using fn r by simp
      ultimately show ?thesis unfolding sc by (simp only: chain.simps 1(2) simp_thms)
    qed
  qed
qed

text \<open>The second loop, over chunks whose pages are all free.\<close>

lemma reserve_chunks:
  assumes "chain a cs e" "pt_wf pt s" "\<not> held s PageAllocLock" "\<forall>p. a \<le> p \<and> p < e \<longrightarrow> pview pt s p = VFree"
  shows "(\<exists>s'. for_each (\<lambda>(b, n). reserve_pages_from_section pt b n) cs s = Ok () s' \<and>
      reserves pt True {a..<e} s s') \<or>
    (\<exists>t. for_each (\<lambda>(b, n). reserve_pages_from_section pt b n) cs s = panic OutOfMemory t)"
  using assms
proof (induction a cs e arbitrary: s rule: chain.induct)
  case (1 a e)
  then show ?case using reserves_empty [of pt s True] by simp
next
  case (2 a b n cs e)
  have c: "chunk_ok b n" "frame b = a" "chain (a + unat n) cs e" using 2(2) by simp_all
  have le: "a + unat n \<le> e" using chain_le [OF c(3)] .
  have "\<forall>p \<in> chunk_pages b n. pview pt s p = VFree" using 2(5) c(2) le by (simp add: chunk_pages_def)
  then consider s1 where "reserve_pages_from_section pt b n s = Ok () s1"
      "reserves pt True (chunk_pages b n) s s1"
    | t where "reserve_pages_from_section pt b n s = panic OutOfMemory t"
    using reserve_chunk [OF 2(3) c(1) 2(4)] by blast
  then show ?case
  proof cases
    case 1
    have P: "chunk_pages b n = {a..<a + unat n}" using c(2) by (simp add: chunk_pages_def)
    have op: "table_op pt s s1" using 1(2) by (simp add: reserves_def)
    have "\<not> held s1 PageAllocLock" using op 2(4) by (simp add: table_op_def)
    moreover have "\<forall>p. a + unat n \<le> p \<and> p < e \<longrightarrow> pview pt s1 p = VFree"
      using 1(2) 2(5) by (simp add: reserves_def P)
    ultimately have IH: "(\<exists>s'. for_each (\<lambda>(b, n). reserve_pages_from_section pt b n) cs s1 = Ok () s' \<and>
        reserves pt True {a + unat n..<e} s1 s') \<or>
      (\<exists>t. for_each (\<lambda>(b, n). reserve_pages_from_section pt b n) cs s1 = panic OutOfMemory t)"
      using 2(1) [OF c(3) table_op_wf [OF op]] by blast
    have "reserves pt True {a..<e} s s'" if "reserves pt True {a + unat n..<e} s1 s'" for s'
      using reserves_trans [OF 1(2) that] le by (simp add: P ivl_disj_un)
    then show ?thesis using IH 1(1) by auto
  next
    case 2
    then show ?thesis by auto
  qed
qed

lemma reserve_pages_at_spec:
  assumes wf: "pt_wf pt s" and l: "\<not> held s PageAllocLock" and r: "frame va + unat num \<le> 2 ^ 20"
  shows "if \<forall>p. frame va \<le> p \<and> p < frame va + unat num \<longrightarrow> pview pt s p = VFree
    then (\<exists>s'. reserve_pages_at pt va num s = Ok (Success (va AND 0xfffff000)) s' \<and>
        reserves pt True {frame va..<frame va + unat num} s s') \<or>
      (\<exists>t. reserve_pages_at pt va num s = panic OutOfMemory t)
    else reserve_pages_at pt va num s = Ok Failure s"
proof -
  let ?b = "va AND 0xfffff000"
  have b: "aligned 12 ?b" unfolding not_masks by (rule aligned_and_not_mask)
  have ch: "chain (frame va) (section_chunks ?b num) (frame va + unat num)"
    using chain_section_chunks [OF b, of num] r by simp
  have ok: "chunk_ok b n" if "(b, n) \<in> set cs" "chain a cs e" for a b n cs e
    using that by (induction a cs e rule: chain.induct) auto
  have check: "list_all (\<lambda>(b, n). check_section_partially_reservable pt b n s) (section_chunks ?b num)
      \<longleftrightarrow> (\<forall>p. frame va \<le> p \<and> p < frame va + unat num \<longrightarrow> pview pt s p = VFree)"
  proof -
    have "list_all (\<lambda>(b, n). check_section_partially_reservable pt b n s) (section_chunks ?b num)
        \<longleftrightarrow> (\<forall>p \<in> chunks_pages (section_chunks ?b num). pview pt s p = VFree)"
      using check_section_iff [OF wf ok [OF _ ch]] by (auto simp: list_all_iff chunks_pages_def)
    then show ?thesis using chain_pages [OF ch] by auto
  qed
  show ?thesis
  proof (cases "\<forall>p. frame va \<le> p \<and> p < frame va + unat num \<longrightarrow> pview pt s p = VFree")
    case True
    note cases = reserve_chunks [OF ch wf l True]
    show ?thesis unfolding reserve_pages_at_def Let_def check if_P [OF True] not_not
      using cases by (elim disjE exE conjE) (auto simp: True intro: exI [of _ "_ :: kstate"])
  next
    case False
    then show ?thesis unfolding reserve_pages_at_def Let_def check by (simp only: if_False if_True not_False_eq_True)
  qed
qed

subsection \<open>Sections\<close>

text \<open>The pages of \<open>n\<close> sections from the section-aligned \<open>base\<close> on.\<close>

definition sections_pages :: "u32 \<Rightarrow> nat \<Rightarrow> nat set" where
  "sections_pages base n = {frame base..<frame base + 256 * n}"

lemma section_aligned_frame: "aligned 20 base \<Longrightarrow> frame base = 256 * (frame base div 256)"
  using aligned_frame_iff [of base 8] aligned_mono [of 20 base 12] by simp

lemma section_at:
  assumes "aligned 20 base" "frame base + 256 * n \<le> 2 ^ 20" "i < n"
  shows "frame (base + of_nat i * SECTION_SIZE) div 256 = frame base div 256 + i"
proof -
  obtain q where q: "q = frame base div 256" by blast
  then have "frame base = 256 * q" using section_aligned_frame [OF assms(1)] by simp
  then have "frame (base + of_nat i * SECTION_SIZE) = 256 * (q + i)"
    using frame_add_section [of base i] assms(2,3) by simp
  then show ?thesis using q by simp
qed

text \<open>Sections that hold a second-level table do not count as free, even when all its pages are.\<close>

lemma sections_free_iff:
  assumes wf: "pt_wf pt s" and b: "aligned 20 base" and r: "frame base + 256 * unat n \<le> 2 ^ 20"
  shows "sections_free pt base n s \<longleftrightarrow>
    (\<forall>p \<in> sections_pages base (unat n). pview pt s p = VFree \<and> \<not> by_page pt s p)"
proof -
  let ?i = "\<lambda>k. frame base div 256 + k"
  have one: "(case get_section_descriptor pt (base + of_nat k * SECTION_SIZE) False s of
         Failure \<Rightarrow> False | Success d \<Rightarrow> ld s d AND 0x7 = 0)
      \<longleftrightarrow> (\<forall>p. p div 256 = ?i k \<longrightarrow> pview pt s p = VFree \<and> \<not> by_page pt s p)" (is "?L \<longleftrightarrow> ?R")
    if k: "k < unat n" for k
  proof -
    note at = section_at [OF b r k]
    have d: "?L \<longleftrightarrow> ?i k < nent pt \<and> \<not> is_table (fle pt s (?i k)) \<and> fle pt s (?i k) AND 0x7 = 0"
      unfolding section_descriptor_at at by (simp add: fle_def not_le)
    show ?thesis
    proof
      assume ?L
      then show ?R unfolding d by (simp add: by_page_def pview_section view_eq_iff)
    next
      assume ?R
      then have v: "pview pt s (256 * ?i k) = VFree" "\<not> by_page pt s (256 * ?i k)" by simp_all
      then have "?i k < nent pt" using pview_outside [of pt s "256 * ?i k"] by (cases "nent pt \<le> ?i k") simp_all
      then show ?L using v unfolding d by (simp add: by_page_def pview_section view_eq_iff)
    qed
  qed
  have set: "p \<in> sections_pages base (unat n) \<longleftrightarrow> (\<exists>k < unat n. p div 256 = ?i k)" for p
  proof
    assume p: "p \<in> sections_pages base (unat n)"
    then have "p div 256 = ?i (p div 256 - frame base div 256)"
      by (simp add: sections_pages_def div_le_mono)
    moreover have "p div 256 < frame base div 256 + unat n"
      using p section_aligned_frame [OF b] by (simp add: sections_pages_def div_less_iff_less_mult)
    ultimately show "\<exists>k < unat n. p div 256 = ?i k" by (intro exI [of _ "p div 256 - frame base div 256"]) linarith
  next
    assume "\<exists>k < unat n. p div 256 = ?i k"
    then obtain k where "k < unat n" "p div 256 = ?i k" by blast
    then have "256 * ?i k \<le> p" "p < 256 * ?i k + 256"
      by (metis mult_div_mod_eq le_add1, metis dividend_less_div_times mult.commute add.commute zero_less_numeral)
    then show "p \<in> sections_pages base (unat n)"
      using section_aligned_frame [OF b] \<open>k < unat n\<close> by (simp add: sections_pages_def)
  qed
  show ?thesis
    unfolding sections_free_def list_all_iff using one set by auto
qed

lemma mark_one:
  assumes wf: "pt_wf pt s" and i: "i < nent pt" "\<not> is_table (fle pt s i)"
  shows "reserves pt False {256 * i..<256 * i + 256} s (st (slot (root pt) i) 4 s)"
proof -
  have "p \<in> {256 * i..<256 * i + 256} \<longleftrightarrow> p div 256 = i" for p by (auto simp: div_nat_eqI)
  then show ?thesis
    using root_st [OF wf i(1) plain_free(2) i(2)] i by (auto simp: reserves_def by_page_def)
qed

lemma mark_loop:
  assumes wf: "pt_wf pt s" and b: "aligned 20 base" and r: "frame base + 256 * n \<le> 2 ^ 20"
    and free: "\<forall>p \<in> sections_pages base n. pview pt s p = VFree \<and> \<not> by_page pt s p"
    and k: "k \<le> n"
  shows "\<exists>s'. for_each (\<lambda>i s. case get_section_descriptor pt (base + of_nat i * SECTION_SIZE) False s of
         Failure \<Rightarrow> Undef | Success d \<Rightarrow> Ok () (st d 0x00000004 s)) [0..<k] s = Ok () s' \<and>
      reserves pt False (sections_pages base k) s s'"
  using k
proof (induction k)
  case 0
  then show ?case using reserves_empty [OF wf] by (simp add: sections_pages_def)
next
  case (Suc k)
  let ?f = "\<lambda>i s. case get_section_descriptor pt (base + of_nat i * SECTION_SIZE) False s of
         Failure \<Rightarrow> Undef | Success d \<Rightarrow> Ok () (st d 0x00000004 s)"
  obtain t where t: "for_each ?f [0..<k] s = Ok () t" "reserves pt False (sections_pages base k) s t"
    using Suc by auto
  have wft: "pt_wf pt t" using reserves_wf [OF t(2)] .
  obtain q where q: "q = frame base div 256" by blast
  then have fb: "frame base = 256 * q" using section_aligned_frame [OF b] by simp
  have i: "frame (base + of_nat k * SECTION_SIZE) div 256 = q + k"
    using section_at [OF b r, of k] Suc(2) q by simp
  let ?p = "256 * (q + k)"
  have "?p \<in> sections_pages base n" "?p \<notin> sections_pages base k"
    using Suc(2) by (simp_all add: sections_pages_def fb)
  then have v: "pview pt t ?p = VFree" "\<not> by_page pt t ?p"
    using free t(2) unfolding reserves_def by (metis, blast)
  have lt: "q + k < nent pt" using v(1) pview_outside [of pt t ?p] by (cases "nent pt \<le> q + k") simp_all
  have nt: "\<not> is_table (fle pt t (q + k))" using v(2) lt by (simp add: by_page_def)
  have "?f k t = Ok () (st (slot (root pt) (q + k)) 4 t)"
    unfolding section_descriptor_at i using lt nt by simp
  then have "for_each ?f [0..<Suc k] s = Ok () (st (slot (root pt) (q + k)) 4 t)"
    using t(1) by (simp add: for_each_append)
  moreover have "sections_pages base k \<union> {256 * (q + k)..<256 * (q + k) + 256} = sections_pages base (Suc k)"
    by (auto simp: sections_pages_def fb)
  ultimately show ?case
    using reserves_trans [OF t(2) mark_one [OF wft lt nt]] by metis
qed

lemma reserve_sections_spec:
  assumes wf: "pt_wf pt s" and b: "aligned 20 base" and r: "frame base + 256 * unat n \<le> 2 ^ 20"
  shows "if \<forall>p \<in> sections_pages base (unat n). pview pt s p = VFree \<and> \<not> by_page pt s p
    then sections_free pt base n s \<and>
      (\<exists>s'. mark_sections pt base n s = Ok () s' \<and> reserves pt False (sections_pages base (unat n)) s s')
    else \<not> sections_free pt base n s"
  using sections_free_iff [OF assms] mark_loop [OF wf b r _ order_refl] unfolding mark_sections_def by auto

lemma reserve_sections_at_spec:
  fixes va num
  assumes wf: "pt_wf pt s" and r: "frame va div 256 * 256 + 256 * unat num \<le> 2 ^ 20"
  defines "base \<equiv> va AND 0xfff00000"
  shows "if \<forall>p \<in> sections_pages base (unat num). pview pt s p = VFree \<and> \<not> by_page pt s p
    then \<exists>s'. reserve_sections_at pt va num s = Ok (Success base) s' \<and>
        reserves pt False (sections_pages base (unat num)) s s'
    else reserve_sections_at pt va num s = Ok Failure s"
proof -
  have b: "aligned 20 base" unfolding base_def not_masks by (rule aligned_and_not_mask)
  have "frame base + 256 * unat num \<le> 2 ^ 20" using r by (simp add: base_def frame_and_section)
  then show ?thesis
    using reserve_sections_spec [OF wf b, of num]
    by (auto simp: reserve_sections_at_def Let_def base_def [symmetric] split: if_splits)
qed

lemma reserve_supersections_at_spec:
  fixes va num
  assumes wf: "pt_wf pt s" and r: "frame va div 4096 * 4096 + 4096 * unat num \<le> 2 ^ 20"
  defines "base \<equiv> va AND 0xff000000"
  shows "if \<forall>p \<in> sections_pages base (16 * unat num). pview pt s p = VFree \<and> \<not> by_page pt s p
    then \<exists>s'. reserve_supersections_at pt va num s = Ok (Success base) s' \<and>
        reserves pt False (sections_pages base (16 * unat num)) s s'
    else reserve_supersections_at pt va num s = Ok Failure s"
proof -
  have "aligned 24 base" unfolding base_def not_masks by (rule aligned_and_not_mask)
  then have b: "aligned 20 base" by (rule aligned_mono) simp
  have n: "unat (num * 16) = 16 * unat num" using r by (subst unat_mult32) simp_all
  have "frame base + 256 * unat (num * 16) \<le> 2 ^ 20" using r n by (simp add: base_def frame_and_supersection)
  then show ?thesis
    using reserve_sections_spec [OF wf b, of "num * 16"] unfolding n
    by (auto simp: reserve_supersections_at_def Let_def base_def [symmetric] split: if_splits)
qed

end
