(* ===== verification/Table_Commit.thy ===== *)
theory Table_Commit
  imports Table_Reserve
begin

unbundle bit_operations_syntax

text \<open>
  Committing: a unit whose pages are all reserved at its own granularity is mapped, any other is
  refused and left alone.  The three functions of the code refine one specification, from which
  the loops of \<open>map\<close> and \<open>allocate\<close> follow.
\<close>

subsection \<open>Units\<close>

fun gran_pages :: "AllocationGranularity \<Rightarrow> nat" where
  "gran_pages GPage = 1"
| "gran_pages GSection = 256"
| "gran_pages GSupersection = 4096"

lemma gran_pages_word: "unat (get_allocation_pages g) = gran_pages g"
  by (cases g) (simp_all add: get_allocation_pages_def)

lemma gran_pages_pos [simp]: "0 < gran_pages g"
  by (cases g) simp_all

lemma gran_pages_dvd: "gran_pages g dvd 4096"
  by (cases g) simp_all

definition unit_pages :: "AllocationGranularity \<Rightarrow> nat \<Rightarrow> nat set" where
  "unit_pages g p0 = {p. p div gran_pages g = p0 div gran_pages g}"

text \<open>The physical page behind page \<open>p\<close> of a unit mapped to \<open>pa\<close>.\<close>

definition unit_frame :: "AllocationGranularity \<Rightarrow> u32 \<Rightarrow> nat \<Rightarrow> nat" where
  "unit_frame g pa p = frame pa div gran_pages g * gran_pages g + p mod gran_pages g"

definition committable :: "PageTable \<Rightarrow> AllocationGranularity \<Rightarrow> nat \<Rightarrow> kstate \<Rightarrow> bool" where
  "committable pt g p0 s \<longleftrightarrow>
     (\<forall>p \<in> unit_pages g p0. pview pt s p = VReserved \<and> by_page pt s p = (g = GPage))"

definition commits :: "PageTable \<Rightarrow> AllocationGranularity \<Rightarrow> nat \<Rightarrow> u32 \<Rightarrow> kstate \<Rightarrow> kstate \<Rightarrow> bool" where
  "commits pt g p0 pa s s' \<longleftrightarrow> table_op pt s s' \<and>
     (\<forall>p. pview pt s' p = (if p \<in> unit_pages g p0 then VMapped (unit_frame g pa p) else pview pt s p)) \<and>
     (\<forall>p. by_page pt s' p = by_page pt s p)"

subsection \<open>Pages\<close>

lemma frame_or_2: "frame ((pa AND 0xfffff000) OR 0x2) = frame pa"
proof -
  have "aligned 12 (pa AND 0xfffff000)" unfolding not_masks by (rule aligned_and_not_mask)
  then show ?thesis using page_descriptor(4) [of "pa AND 0xfffff000"] frame_and_page by metis
qed

lemma commit_page_spec:
  assumes wf: "pt_wf pt s"
  shows "if committable pt GPage (frame va) s
    then \<exists>s'. commit_page pt va pa s = (True, s') \<and> commits pt GPage (frame va) pa s s'
    else commit_page pt va pa s = (False, s)"
proof -
  let ?p = "frame va"
  let ?i = "?p div 256" and ?j = "?p mod 256"
  let ?v = "(pa AND 0xfffff000) OR 0x2"
  have al: "aligned 12 (pa AND 0xfffff000)" unfolding not_masks by (rule aligned_and_not_mask)
  note pd = page_descriptor [OF al]
  have c: "committable pt GPage ?p s \<longleftrightarrow> by_page pt s ?p \<and> pview pt s ?p = VReserved"
    by (auto simp: committable_def unit_pages_def)
  show ?thesis
  proof (cases "by_page pt s ?p")
    case False
    then show ?thesis by (simp add: c commit_page_def Let_def page_descriptor_at)
  next
    case True
    then have i: "?i < nent pt" "is_table (fle pt s ?i)" by (simp_all add: by_page_def)
    let ?s = "st (slot (table_of (fle pt s ?i)) ?j) ?v s"
    have v: "pview pt s ?p = VReserved \<longleftrightarrow> sle pt s ?i ?j AND 0x7 = 4"
      using i by (simp add: pview_table view_eq_iff)
    have eq: "commit_page pt va pa s = (if pview pt s ?p = VReserved then (True, ?s) else (False, s))"
      unfolding v using True by (simp add: commit_page_def Let_def page_descriptor_at sle_def)
    have j: "?j < 256" and pl: "plain ?v" using pd by (simp_all add: plain_def)
    have "descriptor_view ?v = VMapped (frame pa)" using pd frame_or_2 by (simp add: descriptor_view_def)
    then have "commits pt GPage ?p pa s ?s"
      using table_st [OF wf i j pl] by (simp add: commits_def unit_pages_def unit_frame_def)
    then show ?thesis using eq c True by simp
  qed
qed

subsection \<open>Sections\<close>

lemma commit_section_spec:
  assumes wf: "pt_wf pt s"
  shows "if committable pt GSection (frame va) s
    then \<exists>s'. commit_section pt va pa s = (True, s') \<and> commits pt GSection (frame va) pa s s'
    else commit_section pt va pa s = (False, s)"
proof -
  let ?i = "frame va div 256"
  let ?v = "(pa AND 0xfff00000) OR 0x2"
  have al: "aligned 20 (pa AND 0xfff00000)" unfolding not_masks by (rule aligned_and_not_mask)
  note sd = section_descriptor [OF al] page_descriptor [OF aligned_mono [OF al, of 12, simplified]]
  have vfr: "frame ?v div 256 * 256 = frame pa div 256 * 256"
    using sd(2) frame_and_section [of ?v] frame_and_section [of pa] by metis
  have i': "frame (va AND 0xfff00000) div 256 = ?i" by (simp add: frame_and_section)
  have c: "committable pt GSection (frame va) s \<longleftrightarrow>
      ?i < nent pt \<and> \<not> is_table (fle pt s ?i) \<and> fle pt s ?i AND 0x7 = 4" (is "_ \<longleftrightarrow> ?R")
  proof
    assume "committable pt GSection (frame va) s"
    then have v: "pview pt s (frame va) = VReserved" "\<not> by_page pt s (frame va)"
      by (simp_all add: committable_def unit_pages_def)
    then have "?i < nent pt" using pview_outside [of pt s "frame va"] by (cases "nent pt \<le> ?i") simp_all
    then show ?R using v by (simp add: by_page_def pview_section view_eq_iff)
  next
    assume ?R
    then show "committable pt GSection (frame va) s"
      by (simp add: committable_def unit_pages_def by_page_def pview_section view_eq_iff)
  qed
  let ?s = "st (slot (root pt) ?i) ?v s"
  have eq: "commit_section pt va pa s =
      (if committable pt GSection (frame va) s then (True, ?s) else (False, s))"
    unfolding commit_section_def Let_def section_descriptor_at i' c by (simp add: fle_def)
  show ?thesis
  proof (cases "committable pt GSection (frame va) s")
    case True
    then have i: "?i < nent pt" "\<not> is_table (fle pt s ?i)" using c by simp_all
    have pl: "plain ?v" using sd by (simp add: plain_def)
    have "entry_view ?v p = VMapped (unit_frame GSection pa p)" for p
      using sd vfr by (simp add: entry_view_def unit_frame_def)
    then have "commits pt GSection (frame va) pa s ?s"
      using root_st [OF wf i(1) pl i(2)] by (auto simp: commits_def unit_pages_def)
    then show ?thesis using eq True by simp
  next
    case False
    then show ?thesis using eq by simp
  qed
qed

subsection \<open>Supersections\<close>

lemma slot_slot: "slot (slot base i) k = slot base (i + k)"
  by (simp add: slot_def algebra_simps)

lemma fill_shift: "fill (slot base i) 0 n v s = fill base i (i + n) v s"
proof -
  have "[i..<i + n] = map (\<lambda>k. k + i) [0..<n]" using map_add_upt [of i n] by (simp add: add.commute)
  then show ?thesis
    by (simp add: fill_def fill_words_def fold_map comp_def slot_slot add.commute)
qed

lemma nent_16: "pt_wf pt s \<Longrightarrow> 16 dvd nent pt"
  unfolding pt_wf_def by (elim conjE) auto

lemma super_index: "i div 16 = q \<Longrightarrow> q * 16 \<le> i \<and> i < q * 16 + (16::nat)"
  by (metis div_mult_mod_eq le_add1 mod_less_divisor add_less_cancel_left zero_less_numeral)

lemma commit_supersection_spec:
  assumes wf: "pt_wf pt s"
  shows "if committable pt GSupersection (frame va) s
    then \<exists>s'. commit_supersection pt va pa s = (True, s') \<and> commits pt GSupersection (frame va) pa s s'
    else commit_supersection pt va pa s = (False, s)"
proof -
  let ?q = "frame va div 4096"
  let ?i = "?q * 16"
  let ?v = "(pa AND 0xff000000) OR 0x00040002"
  have al: "aligned 24 (pa AND 0xff000000)" unfolding not_masks by (rule aligned_and_not_mask)
  note sd = supersection_descriptor [OF al]
  have vfr: "frame ?v div 4096 * 4096 = frame pa div 4096 * 4096"
    using sd(4) frame_and_supersection [of ?v] frame_and_supersection [of pa] by metis
  have i': "frame (va AND 0xff000000) div 256 = ?i"
    using div_mult_mult1 [of 256 "?q * 16" 1] by (simp add: frame_and_supersection)
  have unit: "p \<in> unit_pages GSupersection (frame va) \<longleftrightarrow> ?i \<le> p div 256 \<and> p div 256 < ?i + 16" for p
  proof -
    have "p div 4096 = p div 256 div 16" by (simp add: div_mult2_eq [symmetric])
    moreover have "p div 256 div 16 = ?q \<longleftrightarrow> ?i \<le> p div 256 \<and> p div 256 < ?i + 16"
      using super_index [of "p div 256" ?q] by (auto intro!: div_nat_eqI simp: mult.commute)
    ultimately show ?thesis by (simp add: unit_pages_def)
  qed
  obtain m where m: "nent pt = 16 * m" using nent_16 [OF wf] by (auto elim: dvdE)
  have le: "?i + 16 \<le> nent pt" if "?i < nent pt" using that m by simp
  have c: "committable pt GSupersection (frame va) s \<longleftrightarrow>
      ?i < nent pt \<and> (\<forall>k < 16. fle pt s (?i + k) AND 0x7 = 4)" (is "_ \<longleftrightarrow> ?R")
  proof
    assume com: "committable pt GSupersection (frame va) s"
    have v: "pview pt s (256 * (?i + k)) = VReserved" "\<not> by_page pt s (256 * (?i + k))" if "k < 16" for k
      using com that unit [of "256 * (?i + k)"] by (simp_all add: committable_def)
    have r: "?i + k < nent pt" if "k < 16" for k
      using v(1) [OF that] pview_outside [of pt s "256 * (?i + k)"]
      by (cases "nent pt \<le> ?i + k") simp_all
    have "fle pt s (?i + k) AND 0x7 = 4" if "k < 16" for k
      using v [OF that] r [OF that]
      by (simp add: by_page_def pview_section view_eq_iff mult.commute [of _ 16])
    then show ?R using r [of 0] by simp
  next
    assume R: ?R
    have "pview pt s p = VReserved \<and> \<not> by_page pt s p" if "p \<in> unit_pages GSupersection (frame va)" for p
    proof -
      have p: "?i \<le> p div 256" "p div 256 < ?i + 16" using that unit by simp_all
      then have "fle pt s (?i + (p div 256 - ?i)) AND 0x7 = 4" using R by (intro conjunct2 [OF R, rule_format]) linarith
      then have e: "fle pt s (p div 256) AND 0x7 = 4" using p(1) by simp
      then show ?thesis
        using free_not_table(2) [OF e] p(2) le R by (simp add: by_page_def pview_section view_eq_iff)
    qed
    then show "committable pt GSupersection (frame va) s" by (simp add: committable_def)
  qed
  let ?s = "fill (root pt) ?i (?i + 16) ?v s"
  have nt: "\<not> is_table (fle pt s ?i)" if "\<forall>k < 16. fle pt s (?i + k) AND 0x7 = 4"
    using that free_not_table(2) [of "fle pt s ?i"] by (metis add.right_neutral zero_less_numeral)
  have eq: "commit_supersection pt va pa s =
      (if committable pt GSupersection (frame va) s then (True, ?s) else (False, s))"
  proof -
    have "list_all (\<lambda>k. ld s (slot (slot (root pt) ?i) k) AND 0x07 = 0x04) [0..<16]
        \<longleftrightarrow> (\<forall>k < 16. fle pt s (?i + k) AND 0x7 = 4)"
      unfolding slot_slot fle_def [symmetric] list_all_iff by auto
    then show ?thesis
      unfolding commit_supersection_def Let_def section_descriptor_at i' c
      using nt fill_shift [of "root pt" ?i 16 ?v s] by auto
  qed
  show ?thesis
  proof (cases "committable pt GSupersection (frame va) s")
    case True
    then have R: "?i < nent pt" "\<forall>k < 16. fle pt s (?i + k) AND 0x7 = 4" using c by simp_all
    have pl: "plain ?v" using sd by (simp add: plain_def)
    have old: "\<not> is_table (fle pt s k)" if "?i \<le> k" "k < ?i + 16" for k
    proof -
      have "fle pt s (?i + (k - ?i)) AND 0x7 = 4" using R(2) that by (intro R(2) [rule_format]) linarith
      then show ?thesis using that(1) free_not_table(2) by simp
    qed
    note fs = root_fill_op [OF wf le [OF R(1)] pl old] root_fill_step(6,7) [OF wf le [OF R(1)] pl old]
    have "entry_view ?v p = VMapped (unit_frame GSupersection pa p)" for p
      using sd vfr by (simp add: entry_view_def unit_frame_def)
    then have "commits pt GSupersection (frame va) pa s ?s"
      using fs unfolding commits_def unit by simp
    then show ?thesis using eq True by simp
  next
    case False
    then show ?thesis using eq by simp
  qed
qed

lemma commit_spec:
  assumes "pt_wf pt s"
  shows "if committable pt g (frame va) s
    then \<exists>s'. commit pt g va pa s = (True, s') \<and> commits pt g (frame va) pa s s'
    else commit pt g va pa s = (False, s)"
  using commit_page_spec [OF assms, of va pa] commit_section_spec [OF assms, of va pa]
    commit_supersection_spec [OF assms, of va pa]
  by (cases g) (simp_all only: commit_def AllocationGranularity.case)

subsection \<open>The loop of map\<close>

text \<open>\<open>n\<close> units from page \<open>A\<close> on mapped to physical pages from \<open>B\<close> on.\<close>

definition maps ::
  "PageTable \<Rightarrow> AllocationGranularity \<Rightarrow> nat \<Rightarrow> nat \<Rightarrow> nat \<Rightarrow> kstate \<Rightarrow> kstate \<Rightarrow> bool" where
  "maps pt g A B n s s' \<longleftrightarrow> table_op pt s s' \<and>
     (\<forall>p. pview pt s' p = (if A \<le> p \<and> p < A + n * gran_pages g then VMapped (B + (p - A)) else pview pt s p)) \<and>
     (\<forall>p. by_page pt s' p = by_page pt s p)"

definition mappable :: "PageTable \<Rightarrow> AllocationGranularity \<Rightarrow> nat \<Rightarrow> nat \<Rightarrow> kstate \<Rightarrow> bool" where
  "mappable pt g A n s \<longleftrightarrow> (\<forall>p. A \<le> p \<and> p < A + n * gran_pages g \<longrightarrow>
     pview pt s p = VReserved \<and> by_page pt s p = (g = GPage))"

definition unit_base :: "AllocationGranularity \<Rightarrow> u32 \<Rightarrow> nat" where
  "unit_base g va = frame va div gran_pages g * gran_pages g"

lemma unit_offset:
  assumes "unit_base g va + n * gran_pages g \<le> 2 ^ 20" "i < n"
  shows "frame (va + of_nat i * get_allocation_pages g * PAGE_SIZE) = frame va + i * gran_pages g"
proof -
  have w: "of_nat i * get_allocation_pages g = (of_nat (i * gran_pages g) :: u32)"
    by (cases g) (simp_all add: get_allocation_pages_def)
  have "frame va < unit_base g va + gran_pages g"
    unfolding unit_base_def by (metis add.commute dividend_less_div_times gran_pages_pos)
  moreover have "gran_pages g + i * gran_pages g \<le> n * gran_pages g"
    using assms(2) mult_le_mono1 [of "Suc i" n "gran_pages g"] by simp
  ultimately have "frame va + i * gran_pages g < 2 ^ 20" using assms(1) by linarith
  then show ?thesis unfolding w by (rule frame_add_page)
qed

lemma div_eq_range: "0 < G \<Longrightarrow> p div G = m \<longleftrightarrow> m * G \<le> p \<and> p < m * G + (G::nat)"
proof
  assume G: "0 < G" and "m * G \<le> p \<and> p < m * G + G"
  then show "p div G = m" by (intro div_nat_eqI) (simp_all add: mult.commute)
next
  assume "0 < G" "p div G = m"
  then show "m * G \<le> p \<and> p < m * G + G"
    using dividend_less_div_times [of G p] by (auto simp: add.commute)
qed

lemma unit_pages_offset:
  "unit_pages g (frame va + i * gran_pages g)
    = {unit_base g va + i * gran_pages g..<unit_base g va + Suc i * gran_pages g}"
proof -
  let ?G = "gran_pages g" and ?q = "frame va div gran_pages g"
  have "unit_pages g (frame va + i * ?G) = {p. p div ?G = ?q + i}" by (simp add: unit_pages_def add.commute)
  also have "\<dots> = {(?q + i) * ?G..<(?q + i) * ?G + ?G}"
    using div_eq_range [of ?G] by auto
  finally show ?thesis by (simp add: unit_base_def add_mult_distrib add.assoc add.commute [of ?G])
qed

lemma unit_frame_offset:
  assumes "p \<in> unit_pages g (frame va + i * gran_pages g)"
    and "frame pa' = frame pa + i * gran_pages g"
  shows "unit_frame g pa' p = unit_base g pa + (p - unit_base g va)"
proof -
  let ?G = "gran_pages g"
  have "p div ?G = frame va div ?G + i" using assms(1) by (simp add: unit_pages_def)
  then have "p = unit_base g va + i * ?G + p mod ?G"
    using div_mult_mod_eq [of p ?G] by (simp add: unit_base_def add_mult_distrib)
  moreover have "unit_frame g pa' p = unit_base g pa + i * ?G + p mod ?G"
    using assms(2) by (simp add: unit_frame_def unit_base_def add_mult_distrib)
  ultimately show ?thesis by linarith
qed

lemma map_loop:
  assumes wf: "pt_wf pt s" and m: "mappable pt g (unit_base g va) n s"
    and r: "unit_base g va + n * gran_pages g \<le> 2 ^ 20" "unit_base g pa + n * gran_pages g \<le> 2 ^ 20"
    and k: "k \<le> n"
  shows "\<exists>s'. while_ok (map_unit pt va pa g) [0..<k] s = Ok True s' \<and>
    maps pt g (unit_base g va) (unit_base g pa) k s s'"
  using k
proof (induction k)
  case 0
  then show ?case using table_op_refl [OF wf] by (auto simp: maps_def)
next
  case (Suc k)
  let ?G = "gran_pages g"
  let ?va = "va + of_nat k * get_allocation_pages g * PAGE_SIZE"
  let ?pa = "pa + of_nat k * get_allocation_pages g * PAGE_SIZE"
  obtain t where t: "while_ok (map_unit pt va pa g) [0..<k] s = Ok True t"
    "maps pt g (unit_base g va) (unit_base g pa) k s t"
    using Suc by auto
  have wft: "pt_wf pt t" using t(2) table_op_wf by (simp add: maps_def) blast
  have fv: "frame ?va = frame va + k * ?G" using unit_offset [OF r(1)] Suc(2) by simp
  have fp: "frame ?pa = frame pa + k * ?G" using unit_offset [OF r(2)] Suc(2) by simp
  have up: "unit_pages g (frame ?va) = {unit_base g va + k * ?G..<unit_base g va + Suc k * ?G}"
    unfolding fv by (rule unit_pages_offset)
  have le: "Suc k * ?G \<le> n * ?G" using Suc(2) by (rule mult_le_mono1)
  have "committable pt g (frame ?va) t"
    using m t(2) le unfolding committable_def up mappable_def maps_def by auto
  then obtain u where u: "commit pt g ?va ?pa t = (True, u)" "commits pt g (frame ?va) ?pa t u"
    using commit_spec [OF wft, of g ?va ?pa] by auto
  have "map_unit pt va pa g k t = Ok True u" using u(1) by (simp add: map_unit_def Let_def)
  then have "while_ok (map_unit pt va pa g) [0..<Suc k] s = Ok True u"
    using t(1) by (simp add: while_ok_append)
  moreover have "maps pt g (unit_base g va) (unit_base g pa) (Suc k) s u"
  proof -
    have "table_op pt s u"
      using t(2) u(2) by (intro table_op_trans [of pt s t u]) (simp_all add: maps_def commits_def)
    moreover have "unit_frame g ?pa p = unit_base g pa + (p - unit_base g va)"
      if "p \<in> unit_pages g (frame ?va)" for p
      using unit_frame_offset [of p g va k ?pa pa] that fv fp by simp
    ultimately show ?thesis
      using t(2) u(2) unfolding maps_def commits_def up by auto
  qed
  ultimately show ?case by blast
qed

subsection \<open>The view and the lock flags\<close>

lemma held_view [simp]:
  "ld (s\<lparr>held := h\<rparr>) = ld s" "fle pt (s\<lparr>held := h\<rparr>) = fle pt s" "sle pt (s\<lparr>held := h\<rparr>) = sle pt s"
  "table_frames pt (s\<lparr>held := h\<rparr>) = table_frames pt s" "pview pt (s\<lparr>held := h\<rparr>) = pview pt s"
  "by_page pt (s\<lparr>held := h\<rparr>) = by_page pt s" "owned (s\<lparr>held := h\<rparr>) = owned s"
  "table_frame pt (s\<lparr>held := h\<rparr>) = table_frame pt s"
proof -
  show l: "ld (s\<lparr>held := h\<rparr>) = ld s" by (simp add: fun_eq_iff ld_def)
  show f: "fle pt (s\<lparr>held := h\<rparr>) = fle pt s" by (simp add: fun_eq_iff fle_def l)
  show g: "sle pt (s\<lparr>held := h\<rparr>) = sle pt s" by (simp add: fun_eq_iff sle_def f l)
  show t: "table_frame pt (s\<lparr>held := h\<rparr>) = table_frame pt s" by (simp add: fun_eq_iff table_frame_def f)
  show "table_frames pt (s\<lparr>held := h\<rparr>) = table_frames pt s" by (simp add: table_frames_def f t)
  show "pview pt (s\<lparr>held := h\<rparr>) = pview pt s" by (simp add: fun_eq_iff pview_def Let_def f g)
  show "by_page pt (s\<lparr>held := h\<rparr>) = by_page pt s" by (simp add: fun_eq_iff by_page_def f)
  show "owned (s\<lparr>held := h\<rparr>) = owned s" by (simp add: fun_eq_iff owned_def)
qed

lemma held_pt_wf [simp]: "pt_wf pt (s\<lparr>held := h\<rparr>) = pt_wf pt s"
  by (simp add: pt_wf_def entry_ok_def)

lemma table_op_held:
  "table_op pt (s\<lparr>held := h\<rparr>) t \<Longrightarrow> table_op pt s (t\<lparr>held := held s\<rparr>)"
  by (simp add: table_op_def new_frames_def)

text \<open>A body that runs as specified, run under the table's lock.\<close>

lemma with_lock_run:
  assumes "\<not> held s l" "body (s\<lparr>held := (held s)(l := True)\<rparr>) = Ok r t"
    and "held t = (held s)(l := True)"
  shows "with_lock l body s = Ok r (t\<lparr>held := held s\<rparr>)"
  using assms by (simp add: with_lock_def fun_upd_idem)

end
