(* ===== verification/Table_Ops.thy ===== *)
theory Table_Ops
  imports Table_Commit
begin

unbundle bit_operations_syntax

text \<open>
  The public operations of a page table under its lock: construction, reservation at an address,
  mapping, translation and the state of a unit, each reduced to the view.
\<close>

definition unlocked :: "PageTable \<Rightarrow> kstate \<Rightarrow> bool" where
  "unlocked pt s \<longleftrightarrow> \<not> held s (pt_lock pt) \<and> \<not> held s PageAllocLock"

definition locked :: "PageTable \<Rightarrow> kstate \<Rightarrow> kstate" where
  "locked pt s = s\<lparr>held := (held s)(pt_lock pt := True)\<rparr>"

lemma locked_simps [simp]:
  "pt_wf pt' (locked pt s) = pt_wf pt' s" "pview pt' (locked pt s) = pview pt' s"
  "by_page pt' (locked pt s) = by_page pt' s" "held (locked pt s) PageAllocLock = held s PageAllocLock"
  "held (locked pt s) = (held s)(pt_lock pt := True)"
  by (simp_all add: locked_def pt_lock_def)

lemma with_pt_lock_panic:
  "unlocked pt s \<Longrightarrow> body (locked pt s) = panic c t \<Longrightarrow> with_lock (pt_lock pt) body s = panic c t"
  by (simp add: with_lock_def unlocked_def locked_def)

text \<open>A body that fails without touching the state, and one that makes an operation on the table.\<close>

lemma with_pt_lock_same:
  assumes "unlocked pt s" "body (locked pt s) = Ok r (locked pt s)"
  shows "with_lock (pt_lock pt) body s = Ok r s"
  using assms by (simp add: with_lock_def unlocked_def locked_def fun_upd_idem)

lemma with_pt_lock_op:
  assumes "unlocked pt s" "body (locked pt s) = Ok r t" "table_op pt (locked pt s) t"
  shows "with_lock (pt_lock pt) body s = Ok r (t\<lparr>held := held s\<rparr>)"
    "table_op pt s (t\<lparr>held := held s\<rparr>)"
proof -
  have "held t = (held s)(pt_lock pt := True)" using assms(3) by (simp add: table_op_def)
  then show "with_lock (pt_lock pt) body s = Ok r (t\<lparr>held := held s\<rparr>)"
    using assms(1,2) by (intro with_lock_run) (simp_all add: unlocked_def locked_def)
  show "table_op pt s (t\<lparr>held := held s\<rparr>)"
    using assms(3) unfolding locked_def by (rule table_op_held)
qed

subsection \<open>Reservation\<close>

text \<open>
  What can be reserved at a granularity: free pages, and for sections and supersections not
  in a second-level table.
\<close>

definition unit_range :: "AllocationGranularity \<Rightarrow> u32 \<Rightarrow> u32 \<Rightarrow> nat set" where
  "unit_range g va n = {unit_base g va..<unit_base g va + unat n * gran_pages g}"

definition reservable :: "PageTable \<Rightarrow> AllocationGranularity \<Rightarrow> u32 \<Rightarrow> u32 \<Rightarrow> kstate \<Rightarrow> bool" where
  "reservable pt g va n s \<longleftrightarrow>
     (\<forall>p \<in> unit_range g va n. pview pt s p = VFree \<and> (g = GPage \<or> \<not> by_page pt s p))"

definition in_range :: "AllocationGranularity \<Rightarrow> u32 \<Rightarrow> u32 \<Rightarrow> bool" where
  "in_range g va n \<longleftrightarrow> unit_base g va + unat n * gran_pages g \<le> 2 ^ 20"

definition unit_address :: "AllocationGranularity \<Rightarrow> u32 \<Rightarrow> u32" where
  "unit_address g va = of_nat (unit_base g va) * PAGE_SIZE"

lemma unit_base_simps:
  "unit_base GPage va = frame va" "unit_base GSection va = frame va div 256 * 256"
  "unit_base GSupersection va = frame va div 4096 * 4096"
  by (simp_all add: unit_base_def)

lemma unit_address_mask:
  "unit_address GPage va = va AND 0xfffff000" "unit_address GSection va = va AND 0xfff00000"
  "unit_address GSupersection va = va AND 0xff000000"
proof -
  have a: "aligned 12 (va AND 0xfffff000)" "aligned 20 (va AND 0xfff00000)" "aligned 24 (va AND 0xff000000)"
    unfolding not_masks by (rule aligned_and_not_mask)+
  show "unit_address GPage va = va AND 0xfffff000"
    using aligned_frame [OF a(1)] by (simp add: unit_address_def unit_base_simps)
  show "unit_address GSection va = va AND 0xfff00000"
    using aligned_frame [OF aligned_mono [OF a(2), of 12]]
    by (simp add: unit_address_def unit_base_simps frame_and_section)
  show "unit_address GSupersection va = va AND 0xff000000"
    using aligned_frame [OF aligned_mono [OF a(3), of 12]]
    by (simp add: unit_address_def unit_base_simps frame_and_supersection)
qed

lemma sections_pages_range:
  "sections_pages (va AND 0xfff00000) (unat n) = unit_range GSection va n"
  "sections_pages (va AND 0xff000000) (16 * unat n) = unit_range GSupersection va n"
  by (simp_all add: sections_pages_def unit_range_def unit_base_simps frame_and_section frame_and_supersection
      mult.commute)

definition reserve_body ::
  "PageTable \<Rightarrow> u32 \<Rightarrow> u32 \<Rightarrow> AllocationGranularity \<Rightarrow> kstate \<Rightarrow> (kstate, u32 Result) outcome" where
  "reserve_body pt va n g = (case g of GPage \<Rightarrow> reserve_pages_at pt va n
      | GSection \<Rightarrow> reserve_sections_at pt va n | GSupersection \<Rightarrow> reserve_supersections_at pt va n)"

lemma reserve_body_spec:
  assumes wf: "pt_wf pt s" and l: "\<not> held s PageAllocLock" and r: "in_range g va n"
  shows "if reservable pt g va n s
    then (\<exists>s'. reserve_body pt va n g s = Ok (Success (unit_address g va)) s' \<and>
        reserves pt (g = GPage) (unit_range g va n) s s') \<or>
      g = GPage \<and> (\<exists>t. reserve_body pt va n g s = panic OutOfMemory t)
    else reserve_body pt va n g s = Ok Failure s"
proof (cases g)
  case GPage
  have "frame va + unat n \<le> 2 ^ 20" using r GPage by (simp add: in_range_def unit_base_simps)
  moreover have "unit_range GPage va n = {frame va..<frame va + unat n}"
    by (simp add: unit_range_def unit_base_simps)
  ultimately show ?thesis
    using reserve_pages_at_spec [OF wf l, of va n] GPage
    by (simp add: reserve_body_def reservable_def unit_address_mask Ball_def)
next
  case GSection
  have "frame va div 256 * 256 + 256 * unat n \<le> 2 ^ 20"
    using r GSection by (simp add: in_range_def unit_base_simps mult.commute)
  then show ?thesis
    using reserve_sections_at_spec [OF wf, of va n, unfolded sections_pages_range] GSection
    by (simp add: reserve_body_def reservable_def unit_address_mask)
next
  case GSupersection
  have "frame va div 4096 * 4096 + 4096 * unat n \<le> 2 ^ 20"
    using r GSupersection by (simp add: in_range_def unit_base_simps mult.commute)
  then show ?thesis
    using reserve_supersections_at_spec [OF wf, of va n, unfolded sections_pages_range] GSupersection
    by (simp add: reserve_body_def reservable_def unit_address_mask)
qed

lemma reserve_at_body: "reserve_at pt va n g = with_lock (pt_lock pt) (reserve_body pt va n g)"
  by (simp add: fun_eq_iff reserve_at_def reserve_body_def)

lemma reserve_at_cases:
  assumes wf: "pt_wf pt s" and l: "unlocked pt s" and r: "in_range g va n"
  shows "if reservable pt g va n s
    then (\<exists>s'. reserve_at pt va n g s = Ok (Success (unit_address g va)) s' \<and>
        reserves pt (g = GPage) (unit_range g va n) s s') \<or>
      g = GPage \<and> (\<exists>t. reserve_at pt va n g s = panic OutOfMemory t)
    else reserve_at pt va n g s = Ok Failure s"
proof -
  have res: "reservable pt g va n (locked pt s) = reservable pt g va n s" by (simp add: reservable_def)
  have spec: "if reservable pt g va n s
    then (\<exists>s'. reserve_body pt va n g (locked pt s) = Ok (Success (unit_address g va)) s' \<and>
        reserves pt (g = GPage) (unit_range g va n) (locked pt s) s') \<or>
      g = GPage \<and> (\<exists>t. reserve_body pt va n g (locked pt s) = panic OutOfMemory t)
    else reserve_body pt va n g (locked pt s) = Ok Failure (locked pt s)"
    using reserve_body_spec [of pt "locked pt s", OF _ _ r] wf l unfolding res by (simp add: unlocked_def pt_lock_def)
  show ?thesis
  proof (cases "reservable pt g va n s")
    case True
    then consider s' where "reserve_body pt va n g (locked pt s) = Ok (Success (unit_address g va)) s'"
        "reserves pt (g = GPage) (unit_range g va n) (locked pt s) s'"
      | t where "g = GPage" "reserve_body pt va n g (locked pt s) = panic OutOfMemory t"
      using spec by auto
    then show ?thesis
    proof cases
      case 1
      then have "reserve_at pt va n g s = Ok (Success (unit_address g va)) (s'\<lparr>held := held s\<rparr>)"
          "table_op pt s (s'\<lparr>held := held s\<rparr>)"
        unfolding reserve_at_body
        using with_pt_lock_op [where body = "reserve_body pt va n g", OF l 1(1) reserves_op [OF 1(2)]]
        by simp_all
      moreover from this have "reserves pt (g = GPage) (unit_range g va n) s (s'\<lparr>held := held s\<rparr>)"
        using 1(2) by (simp add: reserves_def)
      ultimately show ?thesis using True by auto
    next
      case 2
      then show ?thesis using with_pt_lock_panic [where body = "reserve_body pt va n g", OF l 2(2)] True unfolding reserve_at_body by auto
    qed
  next
    case False
    then show ?thesis using spec with_pt_lock_same [OF l] unfolding reserve_at_body by simp
  qed
qed

subsection \<open>Mapping\<close>

lemma map_units_Ok:
  assumes wf: "pt_wf pt s" and l: "unlocked pt s" and nrc: "\<not> reference_counted pt"
    and r: "in_range g va n" "in_range g pa n" and m: "mappable pt g (unit_base g va) (unat n) s"
  obtains s' where "map_units pt va pa n g s = Ok True s'"
    "maps pt g (unit_base g va) (unit_base g pa) (unat n) s s'"
proof -
  have wf': "pt_wf pt (locked pt s)" using wf by simp
  have m': "mappable pt g (unit_base g va) (unat n) (locked pt s)" using m by (simp add: mappable_def)
  obtain t where t: "while_ok (map_unit pt va pa g) [0..<unat n] (locked pt s) = Ok True t"
    "maps pt g (unit_base g va) (unit_base g pa) (unat n) (locked pt s) t"
    using map_loop [OF wf' m'] r by (auto simp: in_range_def)
  have op: "table_op pt (locked pt s) t" using t(2) by (simp add: maps_def)
  let ?body = "\<lambda>s. bind_ok (while_ok (map_unit pt va pa g) [0..<unat n] s)
       (\<lambda>success s. if \<not> success then Ok False s
          else if reference_counted pt
            then bind_ok (ref_acquire_range pa (n * get_allocation_pages g) s) (\<lambda>_. Ok True)
            else Ok True s)"
  have body: "?body (locked pt s) = Ok True t" using t(1) nrc by simp
  note run = with_pt_lock_op [where body = ?body, OF l body op]
  have "map_units pt va pa n g s = Ok True (t\<lparr>held := held s\<rparr>)"
    unfolding map_units_def using run(1) .
  moreover have "maps pt g (unit_base g va) (unit_base g pa) (unat n) s (t\<lparr>held := held s\<rparr>)"
    using t(2) run(2) by (simp add: maps_def)
  ultimately show thesis by (rule that)
qed

subsection \<open>Translation and state\<close>

lemma virtual_to_physical_view:
  assumes "pt_wf pt s" "unlocked pt s"
  shows "virtual_to_physical pt va s
    = Ok (case pview pt s (frame va) of VMapped f \<Rightarrow> Success (phys_address f va) | _ \<Rightarrow> Failure) s"
  unfolding virtual_to_physical_def
  using assms walk_view [of pt "locked pt s" va] by (intro with_pt_lock_same) simp_all

lemma phys_address_same: "phys_address (frame va) va = va"
  using phys_addressI [of va "frame va" va] by (simp add: frame_def)

lemma frame_phys_address: "f < 2 ^ 20 \<Longrightarrow> frame (phys_address f va) = f"
proof -
  assume f: "f < 2 ^ 20"
  have "unat va mod 4096 < 4096" by simp
  then have "f * 4096 + unat va mod 4096 < 2 ^ 32" using f by simp
  then have "unat (phys_address f va) = f * 4096 + unat va mod 4096"
    unfolding phys_address_def by (rule unat_of_nat32)
  then show ?thesis by (simp add: frame_def)
qed

fun state_of_view :: "page_view \<Rightarrow> UnitState Result" where
  "state_of_view VOutside = Failure"
| "state_of_view VFree = Success UFree"
| "state_of_view VReserved = Success UReserved"
| "state_of_view (VMapped f) = Success UCommitted"

lemma state_of_descriptor:
  "state_of_view (descriptor_view d) = Success (get_state_from_descriptor d)"
  "state_of_view (entry_view d p) = Success (get_state_from_descriptor d)"
  by (auto simp: get_state_from_descriptor_def descriptor_view_def entry_view_def)

lemma page_state_view: "page_unit_state pt va s = state_of_view (pview pt s (frame va))"
  by (simp add: page_unit_state_def section_descriptor_at page_descriptor_at by_page_def pview_def Let_def
      state_of_descriptor fle_def sle_def)

lemma section_state_view:
  "section_unit_state pt va s
    = (if by_page pt s (frame va) then Failure else state_of_view (pview pt s (frame va)))"
  by (simp add: section_unit_state_def section_descriptor_at by_page_def pview_def Let_def
      state_of_descriptor fle_def)

text \<open>The flags of the supersection loop say whether all sections seen are in one state.\<close>

definition section_state :: "PageTable \<Rightarrow> u32 \<Rightarrow> kstate \<Rightarrow> nat \<Rightarrow> UnitState Result" where
  "section_state pt base s i = section_unit_state pt (base + of_nat i * SECTION_SIZE) s"

lemma supersection_flags_eq:
  "supersection_flags pt base s is (a, b, c) =
    (if \<exists>i \<in> set is. section_state pt base s i = Failure then Failure
     else Success (a \<and> (\<forall>i \<in> set is. section_state pt base s i = Success UFree),
       b \<and> (\<forall>i \<in> set is. section_state pt base s i = Success UReserved),
       c \<and> (\<forall>i \<in> set is. section_state pt base s i = Success UCommitted)))"
proof (induction "is" arbitrary: a b c)
  case (Cons i "is")
  then show ?case
    by (auto simp: section_state_def section_unit_state_def get_state_from_descriptor_def
        split: Result.splits)
qed simp

lemma supersection_state_iff:
  "supersection_unit_state pt va s = Success x \<longleftrightarrow>
   (\<forall>i < 16. section_state pt (va AND 0xff000000) s i = Success x)"
proof -
  let ?st = "section_state pt (va AND 0xff000000) s"
  have all: "(\<forall>i \<in> set [0..<16]. P i) \<longleftrightarrow> (\<forall>i < 16. P i)" for P :: "nat \<Rightarrow> bool" by auto
  have ex: "(\<exists>i \<in> set [0..<16]. P i) \<longleftrightarrow> (\<exists>i < 16. P i)" for P :: "nat \<Rightarrow> bool" by auto
  define A where "A = (\<lambda>x. \<forall>i < 16. ?st i = Success x)"
  define B where "B \<longleftrightarrow> (\<exists>i < 16. ?st i = Failure)"
  have fold: "(\<forall>i < 16. ?st i = Success x) = A x" "(\<exists>i < 16. ?st i = Failure) = B" for x
    unfolding A_def B_def by simp_all
  have z: "(0 :: nat) < 16" by simp
  have u: "A x \<Longrightarrow> A y \<Longrightarrow> x = y" for x y using z unfolding A_def by (metis Result.inject)
  have nf: "A x \<Longrightarrow> \<not> B" for x unfolding A_def B_def by (metis Result.distinct(1))
  have "supersection_unit_state pt va s = (if B then Failure else if A UFree then Success UFree
      else if A UReserved then Success UReserved else if A UCommitted then Success UCommitted else Failure)"
    unfolding supersection_unit_state_def supersection_flags_eq all ex fold by simp
  then show ?thesis
    unfolding fold using u nf by (cases x) (auto split: if_splits)
qed

lemma unit_state_iff:
  assumes wf: "pt_wf pt s" and l: "unlocked pt s"
  shows "\<exists>r. get_unit_state pt va g s = Ok r s \<and>
    (\<forall>x. r = Success x \<longleftrightarrow> (\<forall>p \<in> unit_pages g (frame va).
       state_of_view (pview pt s p) = Success x \<and> (g = GPage \<or> \<not> by_page pt s p)))"
proof -
  let ?r = "case g of GPage \<Rightarrow> page_unit_state pt va s | GSection \<Rightarrow> section_unit_state pt va s
      | GSupersection \<Rightarrow> supersection_unit_state pt va s"
  have r: "get_unit_state pt va g s = Ok ?r s"
  proof -
    have "page_unit_state pt va (locked pt s) = page_unit_state pt va s"
      "section_unit_state pt va (locked pt s) = section_unit_state pt va s" for va
      by (simp_all add: page_state_view section_state_view)
    moreover from this(2) have "supersection_unit_state pt va (locked pt s) = supersection_unit_state pt va s"
      by (simp add: supersection_unit_state_def supersection_flags_eq section_state_def)
    ultimately show ?thesis
      unfolding get_unit_state_def using l by (intro with_pt_lock_same) (simp_all split: AllocationGranularity.split)
  qed
  have sec: "section_unit_state pt a s = Success x \<longleftrightarrow>
      (\<forall>p. p div 256 = frame a div 256 \<longrightarrow> state_of_view (pview pt s p) = Success x \<and> \<not> by_page pt s p)"
    (is "?L \<longleftrightarrow> ?R") for a x
  proof
    assume L: ?L
    then have nb: "\<not> by_page pt s (frame a)" and st: "state_of_view (pview pt s (frame a)) = Success x"
      by (simp_all add: section_state_view split: if_splits)
    show ?R
    proof (intro allI impI)
      fix p assume p: "p div 256 = frame a div 256"
      then have "state_of_view (pview pt s p) = state_of_view (pview pt s (frame a))" "\<not> by_page pt s p"
        using nb by (auto simp: by_page_def pview_def Let_def state_of_descriptor)
      then show "state_of_view (pview pt s p) = Success x \<and> \<not> by_page pt s p" using st by simp
    qed
  qed (simp add: section_state_view)
  have sup: "supersection_unit_state pt va s = Success x \<longleftrightarrow>
      (\<forall>p. p div 4096 = frame va div 4096 \<longrightarrow> state_of_view (pview pt s p) = Success x \<and> \<not> by_page pt s p)" for x
  proof -
    let ?b = "va AND 0xff000000"
    have "aligned 24 ?b" unfolding not_masks by (rule aligned_and_not_mask)
    then have b: "aligned 20 ?b" by (rule aligned_mono) simp
    have fb: "frame ?b = frame va div 4096 * 4096" by (rule frame_and_supersection)
    have lt: "frame va div 4096 < 256" using frame_less [of va] by (simp add: div_less_iff_less_mult)
    then have le: "frame ?b + 256 * 16 \<le> 2 ^ 20" unfolding fb by simp
    have fb256: "frame ?b div 256 = frame va div 4096 * 16"
      using div_mult_mult1 [of 256 "frame va div 4096 * 16" 1] by (simp add: fb)
    have at: "frame (?b + of_nat i * SECTION_SIZE) div 256 = frame va div 4096 * 16 + i" if "i < 16" for i
      using section_at [OF b le that] fb256 by simp
    have "(p div 4096 = frame va div 4096) \<longleftrightarrow> (\<exists>i < 16. p div 256 = frame va div 4096 * 16 + i)" for p
    proof -
      have "p div 4096 = p div 256 div 16" by (simp add: div_mult2_eq [symmetric])
      then have "p div 4096 = frame va div 4096 \<longleftrightarrow>
          frame va div 4096 * 16 \<le> p div 256 \<and> p div 256 < frame va div 4096 * 16 + 16"
        using div_eq_range [of 16 "p div 256" "frame va div 4096"] by simp
      also have "\<dots> \<longleftrightarrow> (\<exists>i < 16. p div 256 = frame va div 4096 * 16 + i)"
        by (metis le_add1 le_iff_add nat_add_left_cancel_less)
      finally show ?thesis .
    qed
    then show ?thesis
      unfolding supersection_state_iff section_state_def sec using at by (simp cong: conj_cong) metis
  qed
  show ?thesis
    unfolding r using page_state_view [of pt va s] sec [of va] sup
    by (cases g) (simp_all add: unit_pages_def)
qed

subsection \<open>Construction\<close>

lemma sizes_4: "(4 :: u32) \<in> sizes"
  by (simp add: sizes_def)

lemma zero_view:
  assumes "\<And>i. i < nent pt \<Longrightarrow> fle pt s i = 0"
  shows "pview pt s p = (if p div 256 < nent pt then VFree else VOutside)" "\<not> by_page pt s p"
  using assms [of "p div 256"] plain_not_table [OF plain_free(1)] by (auto simp: pview_def by_page_def)

lemma construct_spec:
  assumes wf: "pa_wf s" and d: "4 dvd npages s" and ok: "construct su rcd s = Ok pt s'"
  shows "pt_wf pt s'" "nent pt = (if su then 4096 else 2048)" "reference_counted pt = rcd"
    "i < nent pt \<Longrightarrow> fle pt s' i = 0" "f \<in> root_frames pt \<Longrightarrow> \<not> owned s f"
    "held s' = (held s)(pt_lock pt := False)" "console s' = console s" "npages s' = npages s"
    "\<And>a. owned s (frame a) \<Longrightarrow> aligned 2 a \<Longrightarrow> ld s' a = ld s a" "\<And>f. owned s f \<Longrightarrow> owned s' f"
    "p < npages s \<Longrightarrow> rc s' p = (if p \<in> root_frames pt then 1 else rc s p)"
    "f \<in> root_frames pt \<Longrightarrow> f < npages s \<Longrightarrow> rc s f = 0" "\<And>b. owned s (frame b) \<Longrightarrow> mem s' b = mem s b"
proof -
  let ?n = "if su then FIRST_LEVEL_SUPERVISOR_ENTRIES else FIRST_LEVEL_USER_ENTRIES"
  obtain r s0 where al: "alloc 4 s = Ok r s0"
    and pt: "pt = \<lparr>first_level_table = r, first_level_num_entries = ?n, reference_counted = rcd\<rparr>"
    and s': "s' = fill r 0 (unat ?n) 0 (s0\<lparr>held := (held s0)(PageTableLock r := False)\<rparr>)"
    using ok by (auto simp: construct_def bind_ok_eq_Ok Let_def)
  have sv: "serves 4 s" using wf d by (simp add: serves_def)
  note pf = page4.fresh_aligned [OF sv al] page4.inv_kept [OF sv al]
  have n4: "unat (4 :: u32) = 4" by simp
  have r: "aligned 12 r" "4 dvd frame r" using pf(1) by simp_all
  then have r14: "aligned 14 r" "aligned 2 r"
    using aligned_frame_iff [of r 2] aligned_mono [of 12 r 2] by simp_all
  have wf0: "pa_wf s0" using pf(2) by (simp add: serves_def)
  note ak = alloc_keeps [OF wf sizes_4 _ al, unfolded n4, OF d]
  let ?s1 = "s0\<lparr>held := (held s0)(PageTableLock r := False)\<rparr>"
  show nent: "nent pt = (if su then 4096 else 2048)" by (simp add: nent_def pt)
  show "reference_counted pt = rcd" by (simp add: pt)
  have n: "unat ?n = nent pt" by (simp add: nent_def pt)
  have root: "root pt = r" by (simp add: pt)
  have rf: "f \<in> root_frames pt \<longleftrightarrow> (\<exists>j < 4. f = frame r + j)" for f
    unfolding root_frames_def root
    by (metis atLeastLessThan_iff le_add1 le_iff_add nat_add_left_cancel_less)
  have fresh: "\<not> owned s f" "owned s0 f" if f: "f \<in> root_frames pt" for f
  proof -
    obtain j where j: "f = frame r + j" "j < 4" using f rf by blast
    then show "\<not> owned s f" "owned s0 f"
      using page4.fresh_not_owned [OF sv al, of j] page4.fresh_owned [OF sv al, of j] by simp_all
  qed
  show "f \<in> root_frames pt \<Longrightarrow> \<not> owned s f" by (rule fresh)
  have w: "writes (root_frames pt) ?s1 s'"
    unfolding s' n
  proof (rule writes_fill [OF r14(2)])
    fix i assume "i < nent pt"
    then have "i < 4096" using nent by (auto split: if_splits)
    then show "frame (slot r i) \<in> root_frames pt"
      using frame_root_slot [OF r14(1)] by (auto simp: rf div_less_iff_less_mult)
  qed
  have own1: "owned ?s1 f" if "f \<in> root_frames pt" for f using fresh(2) that by simp
  note cnt = writes_counts [OF w own1]
  have own': "owned s' = owned s0" using cnt(5) by simp
  show f0: "fle pt s' i = 0" if "i < nent pt" for i
    using that nent unfolding fle_def root s' n by (subst ld_fill [OF r(1)]) (auto split: if_splits)
  show kept: "owned s' f" if "owned s f" for f using page4.owned_kept [OF sv al that] own' by simp
  show "pt_wf pt s'"
    unfolding pt_wf_def
  proof (intro conjI ballI allI impI)
    show "pa_wf s'" using cnt(6) wf0 by simp
    show "nent pt \<in> {2048, 4096}" using nent by simp
    show "aligned 14 (root pt)" using r14 root by simp
    show "owned s' f" if "f \<in> root_frames pt" for f using fresh(2) [OF that] own' by simp
    show "entry_ok pt s' i" if "i < nent pt" for i
      using f0 [OF that] plain_not_table [OF plain_free(1)] by (simp add: entry_ok_def)
    show "inj_on (table_frame pt s') {i. i < nent pt \<and> is_table (fle pt s' i)}"
      using f0 plain_not_table [OF plain_free(1)] by (auto intro!: inj_onI)
  qed
  show "held s' = (held s)(pt_lock pt := False)" "console s' = console s"
    using w ak(1,2) by (simp_all add: writes_def pt_lock_def root)
  show "npages s' = npages s" using cnt(1) ak(3) by (simp add: npages_def)
  have rc0: "rc s0 p = (if p \<in> root_frames pt then 1 else rc s p)" if "p < npages s" for p
    using ak(6) [OF that] by (simp add: root_frames_def root)
  show "p < npages s \<Longrightarrow> rc s' p = (if p \<in> root_frames pt then 1 else rc s p)"
    using cnt(2) [of p] rc0 [of p] ak(3) by simp
  show "f \<in> root_frames pt \<Longrightarrow> f < npages s \<Longrightarrow> rc s f = 0"
  proof -
    assume f: "f \<in> root_frames pt" "f < npages s"
    then have "\<not> owned s f" "\<not> pinned s0 f" using fresh by (auto simp: owned_def)
    moreover have "pinned s0 f = pinned s f" using ak(3,4) by (intro pinned_cong) simp_all
    ultimately show "rc s f = 0" using f(2) by (simp add: owned_def used_def)
  qed
  show "ld s' a = ld s a" if "owned s (frame a)" "aligned 2 a" for a
  proof -
    have "frame a \<notin> root_frames pt" using fresh(1) that(1) by blast
    then have "ld s' a = ld ?s1 a" using writes_ld [OF w that(2)] by simp
    then show ?thesis using page4.word_kept [OF sv al that(2,1)] by (simp add: ld_def)
  qed
  show "mem s' b = mem s b" if "owned s (frame b)" for b
  proof -
    have "frame b \<notin> root_frames pt" using fresh(1) that by blast
    then have "mem s' b = mem ?s1 b" using w by (simp add: writes_def)
    then show ?thesis using page4.contents_kept [OF sv al that] by simp
  qed
qed

text \<open>Other tables are as before.\<close>

lemma construct_keeps_table:
  assumes "pa_wf s" "4 dvd npages s" "construct su rcd s = Ok pt s'" and wf2: "pt_wf pt2 s"
  shows "pt_wf pt2 s'" "pview pt2 s' = pview pt2 s" "by_page pt2 s' = by_page pt2 s"
    "table_frames pt2 s' = table_frames pt2 s" "table_frames pt2 s \<inter> root_frames pt = {}"
proof -
  note c = construct_spec [OF assms(1-3)]
  have own: "owned s f" if "f \<in> table_frames pt2 s" for f by (rule table_frames_owned [OF wf2 that])
  have own': "owned s' f" if "f \<in> table_frames pt2 s" for f by (rule c(10) [OF own [OF that]])
  have word: "ld s' a = ld s a" if "frame a \<in> table_frames pt2 s" "aligned 2 a" for a
    by (rule c(9) [OF own [OF that(1)] that(2)])
  show "pt_wf pt2 s'" "pview pt2 s' = pview pt2 s" "by_page pt2 s' = by_page pt2 s"
    "table_frames pt2 s' = table_frames pt2 s"
    by (simp_all only: words_keep_table [OF wf2 pt_wfD(1) [OF c(1)] own' word])
  show "table_frames pt2 s \<inter> root_frames pt = {}" using own c(5) by blast
qed

end
