(* ===== verification/Table_Life.thy ===== *)
theory Table_Life
  imports Table_Ops
begin

unbundle bit_operations_syntax

text \<open>
  The reverse search, and the number of units a size takes: the lemmas behind the properties of
  \<open>Table_Correct\<close> about them.
\<close>

subsection \<open>The reverse search\<close>

lemma first_success_Success: "first_success f xs = Success v \<Longrightarrow> \<exists>x \<in> set xs. f x = Success v"
  by (induction xs) (auto split: Result.splits)

lemma join_same:
  fixes e pa :: u32
  assumes "e AND NOT (mask n) = pa AND NOT (mask n)"
  shows "(e AND NOT (mask n)) OR (pa AND mask n) = pa"
  unfolding assms by (rule bit_word_eqI) (auto simp: bit_simps)

lemma match_section_Success:
  assumes "match_section pt pa s i = Success va"
  shows "va = pa \<or> is_table (fle pt s i) \<and> frame va = table_frame pt s i"
proof -
  let ?e = "fle pt s i"
  note d = assms [unfolded match_section_def Let_def get_first_level_table_address_def fle_def [symmetric]]
  have join: "e AND 0xfff00000 = pa AND 0xfff00000 \<Longrightarrow> (e AND 0xfff00000) OR (pa AND 0x000fffff) = pa"
    "e AND 0xff000000 = pa AND 0xff000000 \<Longrightarrow> (e AND 0xff000000) OR (pa AND 0x00ffffff) = pa" for e
    using join_same [of e 20 pa] join_same [of e 24 pa] unfolding not_masks masks by simp_all
  show ?thesis
  proof (cases "is_table ?e")
    case True
    then have "first_success (match_page ?e (get_second_level_table_address (?e AND 0xfffffc00)) pa s)
        [0..<unat SECOND_LEVEL_ENTRIES] = Success va"
      using d by (simp add: is_table_def)
    then obtain j where "match_page ?e (get_second_level_table_address (?e AND 0xfffffc00)) pa s j = Success va"
      using first_success_Success by metis
    then have va: "va = (?e AND 0xfffff000) OR (pa AND 0x00000fff)"
      by (simp add: match_page_def Let_def split: if_splits)
    have "frame va = frame ?e" unfolding va using join_page [of ?e pa] by (simp add: frame_def)
    moreover have "frame (table_of ?e) = frame ?e"
      by (simp add: frame_def table_of_def not_masks unat_and_not_mask div_mult2_eq [symmetric]) 
    ultimately show ?thesis using True by (simp add: table_frame_def)
  next
    case False
    then show ?thesis using d join [of ?e] by (auto simp: is_table_def split: if_splits)
  qed
qed

lemma physical_to_virtual_cases:
  assumes "unlocked pt s"
  obtains r where "physical_to_virtual pt pa s = Ok r s"
    "\<And>va. r = Success va \<Longrightarrow> va = pa \<or> (\<exists>i < nent pt. is_table (fle pt s i) \<and> frame va = table_frame pt s i)"
proof -
  let ?r = "physical_to_virtual_internal pt pa (locked pt s)"
  have "physical_to_virtual pt pa s = Ok ?r s"
    unfolding physical_to_virtual_def by (rule with_pt_lock_same [OF assms]) simp
  moreover have "va = pa \<or> (\<exists>i < nent pt. is_table (fle pt s i) \<and> frame va = table_frame pt s i)"
    if r: "?r = Success va" for va
  proof -
    obtain i where i: "i < nent pt" "match_section pt pa (locked pt s) i = Success va"
      using first_success_Success [OF r [unfolded physical_to_virtual_internal_def]] by (auto simp: nent_def)
    then show ?thesis using match_section_Success [OF i(2)] by (auto simp: locked_def)
  qed
  ultimately show thesis using that by blast
qed

subsection \<open>Units\<close>

lemma unit_count:
  fixes x :: u32
  assumes "n \<le> 31" "12 \<le> n"
  shows "unat (x div 2 ^ n + (if x AND mask n \<noteq> 0 then 1 else 0)) = (unat x + (2 ^ n - 1)) div 2 ^ n"
proof -
  have "(2 :: nat) ^ n < 2 ^ 32" using assms(1) by (intro power_strict_increasing) simp_all
  then have "unat (of_nat (2 ^ n) :: u32) = 2 ^ n" by (rule unat_of_nat32)
  then have p: "unat (2 ^ n :: u32) = 2 ^ n" by simp
  have m: "x AND mask n = 0 \<longleftrightarrow> unat x mod 2 ^ n = 0"
    by (simp add: word_eq_iff_unat32 unat_and_mask)
  have lt: "unat x div 2 ^ n < 2 ^ 20"
  proof -
    have "unat x div 2 ^ n \<le> unat x div 2 ^ 12" using assms(2) power_increasing [of 12 n "2 :: nat"]
      by (intro div_le_mono2) simp_all
    also have "\<dots> < 2 ^ 20" using frame_less [of x] by (simp add: frame_def)
    finally show ?thesis .
  qed
  have d: "unat (x div 2 ^ n) = unat x div 2 ^ n" by (simp add: unat_div32 p)
  have e: "unat x + (2 ^ n - 1) = (unat x mod 2 ^ n + (2 ^ n - 1)) + unat x div 2 ^ n * 2 ^ n"
    using div_mult_mod_eq [of "unat x" "2 ^ n"] by linarith
  have "(unat x + (2 ^ n - 1)) div 2 ^ n = unat x div 2 ^ n + (unat x mod 2 ^ n + (2 ^ n - 1)) div 2 ^ n"
    by (subst e) (rule div_mult_self1, simp)
  moreover have "(unat x mod 2 ^ n + (2 ^ n - 1)) div 2 ^ n = (if unat x mod 2 ^ n = 0 then 0 else 1)"
  proof (cases "unat x mod 2 ^ n = 0")
    case False
    have "unat x mod 2 ^ n < 2 ^ n" by simp
    then have "2 ^ n \<le> unat x mod 2 ^ n + (2 ^ n - 1)" "unat x mod 2 ^ n + (2 ^ n - 1) < 2 ^ n + 2 ^ n"
      using False by linarith+
    then have "(unat x mod 2 ^ n + (2 ^ n - 1)) div 2 ^ n = 1" by (intro div_nat_eqI) (simp_all add: mult_2_right)
    then show ?thesis using False by simp
  qed simp
  ultimately show ?thesis using lt d by (simp add: m unat_add32)
qed

lemma allocation_units:
  "unat (get_num_allocation_units bytes g) = (unat bytes + (gran_pages g * 4096 - 1)) div (gran_pages g * 4096)"
  using unit_count [of 12 bytes] unit_count [of 20 bytes] unit_count [of 24 bytes]
  by (cases g) (simp_all add: get_num_allocation_units_def mask_eq_exp_minus_1)

end
