(* ===== verification/Table_Search.thy ===== *)
theory Table_Search
  imports Table_Life Alloc_Room
begin

unbundle bit_operations_syntax

text \<open>
  Reservation anywhere: the three searches of \<open>reserve\<close> find a run of free units whenever there is
  one, and reserve exactly it.
\<close>

subsection \<open>The search for a run\<close>

definition run_at :: "('i \<Rightarrow> bool) \<Rightarrow> nat \<Rightarrow> nat \<Rightarrow> 'i list \<Rightarrow> nat \<Rightarrow> bool" where
  "run_at free num c xs k \<longleftrightarrow> k < length xs \<and> num \<le> c + Suc k \<and> (\<forall>j \<le> k. k < j + num \<longrightarrow> free (xs ! j))"

lemma run_at_Cons:
  "run_at free num c (x # xs) (Suc k) \<longleftrightarrow>
   run_at free num (Suc c) xs k \<and> (Suc k < num \<longrightarrow> free x)"
proof -
  have "(\<forall>j \<le> Suc k. Suc k < j + num \<longrightarrow> free ((x # xs) ! j)) \<longleftrightarrow>
      (\<forall>j \<le> k. k < j + num \<longrightarrow> free (xs ! j)) \<and> (Suc k < num \<longrightarrow> free x)" (is "?L \<longleftrightarrow> ?R")
  proof
    assume L: ?L
    have "free (xs ! j)" if "j \<le> k" "k < j + num" for j using L [rule_format, of "Suc j"] that by simp
    moreover have "free x" if "Suc k < num" using L [rule_format, of 0] that by simp
    ultimately show ?R by blast
  next
    assume R: ?R
    then show ?L by (auto simp: nth_Cons split: nat.split)
  qed
  then show ?thesis by (auto simp: run_at_def)
qed

lemma find_run_cases:
  assumes "unat c < unat num"
  shows "case find_run free num xs c of
      Some y \<Rightarrow> \<exists>k. y = xs ! k \<and> run_at free (unat num) (unat c) xs k
    | None \<Rightarrow> \<forall>k. \<not> run_at free (unat num) (unat c) xs k"
  using assms
proof (induction xs arbitrary: c)
  case Nil
  then show ?case by (simp add: run_at_def)
next
  case (Cons x xs)
  have zero: "run_at free (unat num) c' (x # xs) 0 \<longleftrightarrow> unat num \<le> Suc c' \<and> free x" for c'
    using Cons(2) by (auto simp: run_at_def)
  show ?case
  proof (cases "free x")
    case True
    have "unat num < 2 ^ 32" by (rule unat_lt32)
    then have "unat c + 1 < 2 ^ 32" using Cons(2) by linarith
    then have u: "unat (c + 1) = Suc (unat c)" by (subst unat_add32) simp_all
    show ?thesis
    proof (cases "c + 1 = num")
      case eq: True
      then have "unat num = Suc (unat c)" using u by simp
      then show ?thesis using True eq zero by (auto intro!: exI [of _ 0])
    next
      case False
      then have lt: "unat (c + 1) < unat num" using u Cons(2) by (metis Suc_lessI word_unat_eq_iff)
      have e: "run_at free (unat num) (unat c) (x # xs) (Suc k) \<longleftrightarrow> run_at free (unat num) (unat (c + 1)) xs k" for k
        using True by (simp add: run_at_Cons u)
      have "\<not> run_at free (unat num) (unat c) (x # xs) 0" using lt u by (simp add: zero)
      then have "(\<forall>k. \<not> run_at free (unat num) (unat c) (x # xs) k) \<longleftrightarrow> (\<forall>k. \<not> run_at free (unat num) (unat (c + 1)) xs k)"
        by (metis e not0_implies_Suc)
      then show ?thesis
        using Cons(1) [OF lt] True False e by (auto simp: Let_def split: option.splits) (metis nth_Cons_Suc)
    qed
  next
    case False
    have n0: "unat (0 :: u32) < unat num" "num \<noteq> 0" using Cons(2) by (auto simp: word_eq_iff_unat32)
    have e: "run_at free (unat num) (unat c) (x # xs) (Suc k) \<longleftrightarrow> run_at free (unat num) 0 xs k" for k
      using False by (auto simp: run_at_Cons) (auto simp: run_at_def)
    have "\<not> run_at free (unat num) (unat c) (x # xs) 0" using False by (simp add: zero)
    then have "(\<forall>k. \<not> run_at free (unat num) (unat c) (x # xs) k) \<longleftrightarrow> (\<forall>k. \<not> run_at free (unat num) 0 xs k)"
      by (metis e not0_implies_Suc)
    then show ?thesis
      using Cons(1) [OF n0(1)] False e n0 by (auto simp: Let_def split: option.splits) (metis nth_Cons_Suc)
  qed
qed

text \<open>Over the indices \<open>0..<m\<close>: the last index of a run of free ones, or there is no run.\<close>

lemma find_run_upt:
  assumes "0 < unat num"
  shows "find_run free num [0..<m] 0 = Some y \<Longrightarrow>
      y < m \<and> unat num \<le> Suc y \<and> (\<forall>j. Suc y - unat num \<le> j \<and> j \<le> y \<longrightarrow> free j)"
    "find_run free num [0..<m] 0 = None \<Longrightarrow> b + unat num \<le> m \<Longrightarrow> \<exists>j. b \<le> j \<and> j < b + unat num \<and> \<not> free j"
proof -
  have "unat (0 :: u32) < unat num" using assms by simp
  note c = find_run_cases [OF this, of free "[0..<m]", unfolded unat_0]
  show "y < m \<and> unat num \<le> Suc y \<and> (\<forall>j. Suc y - unat num \<le> j \<and> j \<le> y \<longrightarrow> free j)"
    if r: "find_run free num [0..<m] 0 = Some y"
  proof -
    obtain k where k: "y = [0..<m] ! k" "run_at free (unat num) 0 [0..<m] k" using c r by auto
    then have "y = k" "k < m" by (simp_all add: run_at_def)
    moreover have "free j" if "Suc y - unat num \<le> j" "j \<le> y" for j
      using k(2) that \<open>y = k\<close> \<open>k < m\<close> assms by (auto simp: run_at_def)
    ultimately show ?thesis using k(2) by (auto simp: run_at_def)
  qed
  show "\<exists>j. b \<le> j \<and> j < b + unat num \<and> \<not> free j" if "find_run free num [0..<m] 0 = None" "b + unat num \<le> m"
  proof (rule ccontr)
    assume "\<not> ?thesis"
    then have "run_at free (unat num) 0 [0..<m] (b + unat num - 1)"
      using assms that(2) by (auto simp: run_at_def)
    then show False using c that(1) by auto
  qed
qed

subsection \<open>Marking a run\<close>

lemma section_range: "p \<in> {256 * a..<256 * b} \<longleftrightarrow> a \<le> p div 256 \<and> p div 256 < b" for p :: nat
  by (auto simp: div_less_iff_less_mult less_eq_div_iff_mult_less_eq)

lemma root_fill_reserves:
  assumes wf: "pt_wf pt s" and b: "b \<le> nent pt" and free: "\<And>k. a \<le> k \<Longrightarrow> k < b \<Longrightarrow> fle pt s k AND 0x7 = 0"
  shows "reserves pt False {256 * a..<256 * b} s (fill (root pt) a b 4 s)"
    "\<forall>p \<in> {256 * a..<256 * b}. pview pt s p = VFree \<and> \<not> by_page pt s p"
proof -
  have nt: "\<And>k. a \<le> k \<Longrightarrow> k < b \<Longrightarrow> \<not> is_table (fle pt s k)" using free free_not_table(1) by blast
  note st = root_fill_step [OF wf b plain_free(2) nt]
  show f: "\<forall>p \<in> {256 * a..<256 * b}. pview pt s p = VFree \<and> \<not> by_page pt s p"
    unfolding section_range using free nt b by (auto simp: by_page_def pview_section view_eq_iff)
  show "reserves pt False {256 * a..<256 * b} s (fill (root pt) a b 4 s)"
    using st(6,7) root_fill_op [OF wf b plain_free(2) nt] f unfolding reserves_def section_range by auto
qed

lemma section_page: "j < 256 \<Longrightarrow> (256 * i + j) div 256 = i" "j < 256 \<Longrightarrow> (256 * i + j) mod 256 = (j::nat)"
  by simp_all

lemma table_range:
  assumes "b \<le> 256"
  shows "p \<in> {256 * i + a..<256 * i + b} \<longleftrightarrow> p div 256 = i \<and> a \<le> p mod 256 \<and> p mod 256 < (b::nat)"
proof
  assume "p \<in> {256 * i + a..<256 * i + b}"
  then obtain j where "p = 256 * i + j" "a \<le> j" "j < b" by (auto simp: le_iff_add)
  then show "p div 256 = i \<and> a \<le> p mod 256 \<and> p mod 256 < b" using assms by simp
next
  assume "p div 256 = i \<and> a \<le> p mod 256 \<and> p mod 256 < b"
  then show "p \<in> {256 * i + a..<256 * i + b}" using mult_div_mod_eq [of 256 p] by auto
qed

lemma table_fill_reserves:
  assumes wf: "pt_wf pt s" and i: "i < nent pt" "is_table (fle pt s i)" and b: "b \<le> 256"
  shows "reserves pt True {256 * i + a..<256 * i + b} s (fill (table_of (fle pt s i)) a b 4 s)"
  using table_fill_step(5,6) [OF wf i b plain_free(2)] table_fill_op [OF wf i b plain_free(2)] i
  unfolding reserves_def by (auto simp: by_page_def table_range [OF b] simp del: atLeastLessThan_iff)

lemma reserves_after_table:
  assumes op: "table_op pt s t" and v: "\<And>p. pview pt t p = pview pt s p"
    and bp: "\<And>p. by_page pt t p \<longleftrightarrow> p div 256 = i \<or> by_page pt s p"
    and r: "reserves pt True P t u" and i: "i \<in> (\<lambda>q. q div 256) ` P"
  shows "reserves pt True P s u"
proof -
  have "p div 256 \<in> (\<lambda>q. q div 256) ` P" if "p div 256 = i" for p using i that by simp
  then show ?thesis using r v bp table_op_trans [OF op] unfolding reserves_def by simp blast
qed

lemma table_run_free:
  assumes i: "i < nent pt" "is_table (fle pt s i)" and b: "b \<le> 256"
    and free: "\<And>j. a \<le> j \<Longrightarrow> j < b \<Longrightarrow> sle pt s i j AND 0x7 = 0"
  shows "\<forall>p \<in> {256 * i + a..<256 * i + b}. pview pt s p = VFree"
  using i free by (auto simp: pview_table view_eq_iff table_range [OF b] simp del: atLeastLessThan_iff)

subsection \<open>Pages\<close>

lemma first_success_Failure: "first_success f xs = Failure \<Longrightarrow> x \<in> set xs \<Longrightarrow> f x = Failure"
  by (induction xs) (auto split: Result.splits)

lemma run_index:
  fixes num :: u32
  assumes "y < 4096" "unat num \<le> Suc y"
  shows "unat (of_nat y - num + 1) = Suc y - unat num" "unat (of_nat y - num + 1 + num) = Suc y"
    "unat (of_nat y + 1 :: u32) = Suc y"
proof -
  have e: "of_nat y - num + 1 = of_nat (Suc y) - num" by simp
  have u: "unat (of_nat (Suc y) :: u32) = Suc y" using assms(1) by (intro unat_of_nat32) simp
  then have "num \<le> of_nat (Suc y)" using assms(2) by (simp only: word_le_nat_alt)
  then show "unat (of_nat y - num + 1) = Suc y - unat num" unfolding e using u by (simp only: unat_sub)
  show "unat (of_nat y - num + 1 + num) = Suc y" using u by (simp add: add.commute)
  show "unat (of_nat y + 1 :: u32) = Suc y" using u by (simp add: add.commute)
qed

lemma find_pages_Success:
  assumes "find_pages pt num s i = Success (i', t, y)" and n: "0 < unat num"
  shows "i' = i \<and> is_table (fle pt s i) \<and> t = table_of (fle pt s i) \<and> y < 256 \<and> unat num \<le> Suc y \<and>
    (\<forall>j. Suc y - unat num \<le> j \<and> j \<le> y \<longrightarrow> sle pt s i j AND 0x7 = 0)"
proof -
  have e: "ld s (slot (get_first_level_table_address pt) i) = fle pt s i"
    by (simp add: fle_def get_first_level_table_address_def)
  have "i' = i \<and> is_table (fle pt s i) \<and> t = table_of (fle pt s i) \<and>
      find_run (\<lambda>j. sle pt s i j AND 0x7 = 0) num [0..<256] 0 = Some y"
    using assms(1) unfolding find_pages_def Let_def e
    by (auto simp: is_table_def table_of_def sle_def get_second_level_table_address_def split: if_splits option.splits)
  then show ?thesis using find_run_upt(1) [OF n, of _ 256 y] by blast
qed

lemma find_pages_Failure:
  assumes "find_pages pt num s i = Failure" and n: "0 < unat num" and t: "is_table (fle pt s i)"
    and b: "b + unat num \<le> 256"
  shows "\<exists>j. b \<le> j \<and> j < b + unat num \<and> sle pt s i j AND 0x7 \<noteq> 0"
proof -
  have e: "ld s (slot (get_first_level_table_address pt) i) = fle pt s i"
    by (simp add: fle_def get_first_level_table_address_def)
  have "find_run (\<lambda>j. sle pt s i j AND 0x7 = 0) num [0..<256] 0 = None"
    using assms(1) t unfolding find_pages_def Let_def e
    by (auto simp: is_table_def table_of_def sle_def get_second_level_table_address_def split: if_splits option.splits)
  then show ?thesis using find_run_upt(2) [OF n _ b] by blast
qed

lemma page_address_of:
  "of_nat i * SECTION_SIZE + x * PAGE_SIZE = of_nat (256 * i + unat x) * (PAGE_SIZE :: u32)"
  by (simp add: algebra_simps)

text \<open>What a search at granularity \<open>g\<close> may return: a range inside the address space, and pages of one section.\<close>

definition eligible :: "AllocationGranularity \<Rightarrow> u32 \<Rightarrow> u32 \<Rightarrow> bool" where
  "eligible g va n \<longleftrightarrow> in_range g va n \<and> (g = GPage \<longrightarrow> frame va mod 256 + unat n \<le> 256)"

definition found :: "PageTable \<Rightarrow> AllocationGranularity \<Rightarrow> u32 \<Rightarrow> kstate \<Rightarrow> u32 \<Rightarrow> kstate \<Rightarrow> bool" where
  "found pt g n s a s' \<longleftrightarrow> unit_address g a = a \<and> eligible g a n \<and> reservable pt g a n s \<and>
     reserves pt (g = GPage) (unit_range g a n) s s'"

lemma found_page:
  assumes f: "f = 256 * i + x" "i < 4096" "x + unat n \<le> 256" "0 < unat n"
    and free: "\<forall>p \<in> {f..<f + unat n}. pview pt s p = VFree"
    and r: "reserves pt True {f..<f + unat n} s s'"
  shows "found pt GPage n s (of_nat f * PAGE_SIZE) s'"
proof -
  have lt: "f < 2 ^ 20" using f by simp
  have fr: "frame (of_nat f * PAGE_SIZE) = f" using lt by (rule frame_page_address)
  have "f mod 256 = x" using f by simp
  then show ?thesis
    using f free r lt fr
    by (simp add: found_def eligible_def in_range_def unit_base_simps unit_address_def reservable_def unit_range_def)
qed

lemma reserve_pages_spec:
  assumes wf: "pt_wf pt s" and l: "\<not> held s PageAllocLock" and n: "0 < unat n" "unat n \<le> 256"
  shows "(\<exists>a s'. reserve_pages pt n s = Ok (Success a) s' \<and> found pt GPage n s a s') \<or>
    (\<exists>t. reserve_pages pt n s = panic OutOfMemory t \<and> (\<forall>r s0. alloc 1 s \<noteq> Ok r s0)) \<or>
    reserve_pages pt n s = Ok Failure s \<and> (\<forall>va. eligible GPage va n \<longrightarrow> \<not> reservable pt GPage va n s)"
proof -
  let ?is = "[0..<unat (first_level_num_entries pt)]"
  have idx: "set ?is = {..<nent pt}" by (auto simp: nent_def)
  have fl: "ld s (slot (get_first_level_table_address pt) i) = fle pt s i" for i
    by (simp add: fle_def get_first_level_table_address_def)
  have le: "nent pt \<le> 4096" using pt_wfD(2) [OF wf] .
  show ?thesis
  proof (cases "first_success (find_pages pt n s) ?is")
    case (Success v)
    then obtain i where i: "i < nent pt" "find_pages pt n s i = Success v"
      using first_success_Success idx by (metis lessThan_iff)
    obtain i' t y where v: "v = (i', t, y)" by (cases v)
    note F = find_pages_Success [OF i(2) [unfolded v] n(1)]
    have y: "y < 4096" "unat n \<le> Suc y" "Suc y \<le> 256" using F by simp_all
    let ?a = "Suc y - unat n"
    let ?f = "256 * i + ?a"
    have ab: "?f + unat n = 256 * i + Suc y" using y(2) by simp
    have "reserves pt True {?f..<?f + unat n} s (fill (table_of (fle pt s i)) ?a (Suc y) 4 s)"
      unfolding ab using F y(3) by (intro table_fill_reserves [OF wf i(1)]) simp_all
    moreover have "\<forall>p \<in> {?f..<?f + unat n}. pview pt s p = VFree"
      unfolding ab using F y(3) by (intro table_run_free [OF i(1)]) simp_all
    ultimately have "found pt GPage n s (of_nat ?f * PAGE_SIZE) (fill (table_of (fle pt s i)) ?a (Suc y) 4 s)"
      using i(1) le y n(1) by (intro found_page [where i = i and x = ?a]) simp_all
    moreover have "reserve_pages pt n s = Ok (Success (of_nat ?f * PAGE_SIZE)) (fill (table_of (fle pt s i)) ?a (Suc y) 4 s)"
      using Success v F unfolding reserve_pages_def Let_def page_address_of
      by (simp add: run_index [OF y(1,2)])
    ultimately show ?thesis by blast
  next
    case Failure
    have nf: "find_pages pt n s i = Failure" if "i < nent pt" for i
      using first_success_Failure [OF Failure] that idx by blast
    show ?thesis
    proof (cases "find (\<lambda>i. fle pt s i AND 0x7 = 0) ?is")
      case None
      have "\<not> reservable pt GPage va n s" if e: "eligible GPage va n" for va
      proof
        assume r: "reservable pt GPage va n s"
        let ?i = "frame va div 256" and ?b = "frame va mod 256"
        have free: "pview pt s p = VFree" if "frame va \<le> p" "p < frame va + unat n" for p
          using r that by (simp add: reservable_def unit_range_def unit_base_simps)
        have v: "pview pt s (frame va) = VFree" using free n(1) by simp
        then have i: "?i < nent pt" using pview_outside [of pt s "frame va"] by (cases "nent pt \<le> ?i") simp_all
        have "fle pt s ?i AND 0x7 \<noteq> 0" using None i by (auto simp: find_None_iff nent_def)
        then have t: "is_table (fle pt s ?i)"
          using v i pview_section [of "frame va" pt s] by (cases "is_table (fle pt s ?i)") (simp_all add: view_eq_iff)
        have b: "?b + unat n \<le> 256" using e by (simp add: eligible_def)
        obtain j where j: "?b \<le> j" "j < ?b + unat n" "sle pt s ?i j AND 0x7 \<noteq> 0"
          using find_pages_Failure [OF nf [OF i] n(1) t b] by blast
        have p: "frame va = 256 * ?i + ?b" by simp
        have jj: "j < 256" using j(2) b by linarith
        have "pview pt s (256 * ?i + j) = VFree" using free [of "256 * ?i + j"] j(1,2) p by linarith
        then show False using j(3) i t jj by (simp add: pview_table view_eq_iff)
      qed
      then show ?thesis using Failure None by (simp add: reserve_pages_def Let_def fl)
    next
      case (Some i)
      have i: "i < nent pt" "fle pt s i AND 0x7 = 0"
        using Some idx unfolding find_Some_iff by auto
      show ?thesis
      proof (rule create_cases [OF pt_wfD(1) [OF wf] l])
        fix r s0 assume al: "alloc 1 s = Ok r s0"
          and cr: "create_second_level_table s = Ok r (fill r 0 256 0 s0)"
        note nt = new_table_step [OF wf i al]
        let ?t = "install pt i r s0"
        have run: "reserve_pages pt n s = Ok (Success (of_nat (256 * i) * PAGE_SIZE)) (fill r 0 (unat n) 4 ?t)"
          using Failure Some cr unfolding reserve_pages_def Let_def fl
          by (simp add: install_def get_second_level_table_address_def get_first_level_table_address_def)
        have "reserves pt True {256 * i..<256 * i + unat n} ?t (fill r 0 (unat n) 4 ?t)"
          using table_fill_reserves [OF table_op_wf [OF nt(1)] i(1) nt(3) n(2), of 0] nt(4) by simp
        then have R: "reserves pt True {256 * i..<256 * i + unat n} s (fill r 0 (unat n) 4 ?t)"
          by (rule reserves_after_table [OF nt(1,5,6)]) (use n(1) in \<open>auto intro!: image_eqI [of _ _ "256 * i"]\<close>)
        have v: "pview pt s (256 * i + j) = VFree" if "j < 256" for j
          using i free_not_table(1) that by (simp add: pview_section view_eq_iff)
        have "\<forall>p \<in> {256 * i..<256 * i + unat n}. pview pt s p = VFree"
          using v n(2) by (metis atLeastLessThan_iff le_iff_add less_le_trans nat_add_left_cancel_less)
        then have "found pt GPage n s (of_nat (256 * i) * PAGE_SIZE) (fill r 0 (unat n) 4 ?t)"
          using R i(1) le n by (intro found_page [where i = i and x = 0]) simp_all
        then show ?thesis using run by blast
      next
        fix t assume c: "create_second_level_table s = panic OutOfMemory t"
        have "alloc 1 s \<noteq> Ok r s0" for r s0
          using c by (auto simp: create_second_level_table_def)
        moreover have "reserve_pages pt n s = panic OutOfMemory t"
          using Failure Some c unfolding reserve_pages_def Let_def fl by simp
        ultimately show ?thesis by blast
      qed
    qed
  qed
qed

subsection \<open>Sections\<close>

lemma found_sections:
  fixes a :: nat
  assumes b: "a * 256 + unat n * gran_pages g \<le> 2 ^ 20" "0 < unat n" "g \<noteq> GPage" "gran_pages g dvd a * 256"
    and free: "\<forall>p \<in> {a * 256..<a * 256 + unat n * gran_pages g}. pview pt s p = VFree \<and> \<not> by_page pt s p"
    and r: "reserves pt False {a * 256..<a * 256 + unat n * gran_pages g} s s'"
  shows "found pt g n s (of_nat (a * 256) * PAGE_SIZE) s'"
proof -
  have "0 < unat n * gran_pages g" using b(2) by simp
  then have lt: "a * 256 < 2 ^ 20" using b(1) by linarith
  have fr: "unit_base g (of_nat (a * 256) * PAGE_SIZE) = a * 256"
    unfolding unit_base_def frame_page_address [OF lt] using b(4) by simp
  show ?thesis
    using b free r unfolding found_def eligible_def in_range_def reservable_def unit_range_def unit_address_def fr
    by simp
qed

lemma fle_ld: "ld s (slot (get_first_level_table_address pt) i) = fle pt s i"
  by (simp add: fle_def get_first_level_table_address_def)

lemma sections_free_entries:
  assumes v: "\<forall>p \<in> {256 * a..<256 * b}. pview pt s p = VFree \<and> \<not> by_page pt s p" and k: "a \<le> k" "k < b"
  shows "k < nent pt \<and> fle pt s k AND 0x7 = 0"
proof -
  have "256 * k \<in> {256 * a..<256 * b}" using k by (simp add: section_range)
  then have f: "pview pt s (256 * k) = VFree" "\<not> by_page pt s (256 * k)" using v by blast+
  then have "k < nent pt" using pview_outside [of pt s "256 * k"] by (cases "nent pt \<le> k") simp_all
  then show ?thesis using f by (simp add: by_page_def pview_section view_eq_iff)
qed

lemma reserve_sections_any_spec:
  assumes wf: "pt_wf pt s" and n: "0 < unat n"
  shows "(\<exists>a s'. reserve_sections pt n s = Ok (Success a) s' \<and> found pt GSection n s a s') \<or>
    reserve_sections pt n s = Ok Failure s \<and> (\<forall>va. eligible GSection va n \<longrightarrow> \<not> reservable pt GSection va n s)"
proof (cases "find_run (\<lambda>i. fle pt s i AND 0x7 = 0) n [0..<nent pt] 0")
  case None
  have "\<not> reservable pt GSection va n s" for va
  proof
    assume r: "reservable pt GSection va n s"
    let ?a = "frame va div 256"
    have v: "\<forall>p \<in> {256 * ?a..<256 * (?a + unat n)}. pview pt s p = VFree \<and> \<not> by_page pt s p"
      using r by (simp add: reservable_def unit_range_def unit_base_simps algebra_simps)
    have "?a + unat n - 1 < nent pt" using sections_free_entries [OF v, of "?a + unat n - 1"] n by simp
    then have "?a + unat n \<le> nent pt" using n by linarith
    then show False using find_run_upt(2) [OF n None] sections_free_entries [OF v] by blast
  qed
  then show ?thesis using None by (simp add: reserve_sections_def Let_def fle_ld nent_def)
next
  case (Some y)
  note R = find_run_upt(1) [OF n Some]
  have y: "y < 4096" "unat n \<le> Suc y" "Suc y \<le> nent pt" using R pt_wfD(2) [OF wf] by simp_all
  let ?a = "Suc y - unat n"
  have e: "{?a * 256..<?a * 256 + unat n * 256} = {256 * ?a..<256 * Suc y}"
    using y(2) by (simp add: algebra_simps)
  note F = root_fill_reserves [OF wf y(3), of ?a]
  have "found pt GSection n s (of_nat (?a * 256) * PAGE_SIZE) (fill (root pt) ?a (Suc y) 4 s)"
    using F R y n by (intro found_sections) (simp_all add: e)
  moreover have "reserve_sections pt n s = Ok (Success (of_nat (?a * 256) * PAGE_SIZE)) (fill (root pt) ?a (Suc y) 4 s)"
  proof -
    have "(of_nat y - n + 1) * SECTION_SIZE = of_nat (?a * 256) * PAGE_SIZE"
      using y(2) by (simp add: of_nat_diff algebra_simps)
    then show ?thesis
      using Some unfolding reserve_sections_def Let_def fle_ld
      by (simp add: run_index [OF y(1,2)] nent_def get_first_level_table_address_def)
  qed
  ultimately show ?thesis by blast
qed

subsection \<open>Supersections\<close>

lemma sixteen_blocks: "(m + 15) div 16 = m div 16" if "16 dvd m" for m :: nat
  using that by (elim dvdE) simp

lemma blocks_le: "16 * x - 1 < 16 * m \<Longrightarrow> 0 < x \<Longrightarrow> x \<le> m" for x m :: nat
  by presburger

lemma reserve_supersections_any_spec:
  assumes wf: "pt_wf pt s" and n: "0 < unat n"
  shows "(\<exists>a s'. reserve_supersections pt n s = Ok (Success a) s' \<and> found pt GSupersection n s a s') \<or>
    reserve_supersections pt n s = Ok Failure s \<and>
      (\<forall>va. eligible GSupersection va n \<longrightarrow> \<not> reservable pt GSupersection va n s)"
proof -
  define free where "free = (\<lambda>i. list_all (\<lambda>j. fle pt s (i + j) AND 0x7 = 0) [0..<16])"
  have d: "16 dvd nent pt" using wf by (auto simp: pt_wf_def)
  define m where "m = nent pt div 16"
  have nm: "nent pt = 16 * m" using d by (simp add: m_def)
  have m: "m \<le> 256" using pt_wfD(2) [OF wf] nm by simp
  have blocks: "(unat (first_level_num_entries pt) + 15) div 16 = m"
    using sixteen_blocks [OF d] by (simp add: m_def nent_def)
  let ?xs = "map ((*) 16) [0..<m]"
  have run: "run_at free (unat n) 0 ?xs k \<longleftrightarrow> k < m \<and> unat n \<le> Suc k \<and>
      (\<forall>i. 16 * (Suc k - unat n) \<le> i \<and> i < 16 * Suc k \<longrightarrow> fle pt s i AND 0x7 = 0)" (is "?L \<longleftrightarrow> ?R") for k
  proof
    assume L: ?L
    have "fle pt s i AND 0x7 = 0" if i: "16 * (Suc k - unat n) \<le> i" "i < 16 * Suc k" for i
    proof -
      have "i div 16 < Suc k" using less_mult_imp_div_less [of i "Suc k" 16] i(2) by (simp add: mult.commute)
      moreover have "Suc k - unat n \<le> i div 16" using div_le_mono [OF i(1), of 16] by simp
      ultimately have "i div 16 \<le> k \<and> k < i div 16 + unat n" using n by linarith
      then have "free (16 * (i div 16))" using L by (auto simp: run_at_def)
      then show ?thesis using mult_div_mod_eq [of 16 i] by (simp add: free_def list_all_iff Ball_def del: mult_div_mod_eq)
          (metis mod_less_divisor zero_less_numeral mult_div_mod_eq)
    qed
    then show ?R using L by (simp add: run_at_def)
  qed (auto simp: run_at_def free_def list_all_iff)
  have n0: "unat (0 :: u32) < unat n" using n by simp
  note c = find_run_cases [OF n0, of free ?xs, unfolded unat_0]
  show ?thesis
  proof (cases "find_run free n ?xs 0")
    case None
    have "\<not> reservable pt GSupersection va n s" for va
    proof
      assume r: "reservable pt GSupersection va n s"
      let ?a = "frame va div 4096"
      have v: "\<forall>p \<in> {256 * (16 * ?a)..<256 * (16 * (?a + unat n))}. pview pt s p = VFree \<and> \<not> by_page pt s p"
        using r by (simp add: reservable_def unit_range_def unit_base_simps algebra_simps)
      have "16 * (?a + unat n) - 1 < nent pt"
        using sections_free_entries [OF v, of "16 * (?a + unat n) - 1"] n by simp
      then have "?a + unat n \<le> m" using n blocks_le [of "?a + unat n" m] unfolding nm by simp
      then have "?a + unat n - 1 < m" using n by linarith
      then have "run_at free (unat n) 0 ?xs (?a + unat n - 1)"
        using n sections_free_entries [OF v] unfolding run by simp
      then show False using c None by auto
    qed
    then show ?thesis
      using None unfolding reserve_supersections_def Let_def fle_ld blocks free_def by simp
  next
    case (Some y)
    obtain k where k: "y = ?xs ! k" "run_at free (unat n) 0 ?xs k" using c Some by auto
    note R = k(2) [unfolded run]
    have y: "y = 16 * k" using k(1) R by simp
    let ?a = "Suc k - unat n"
    have kn: "k < m" "unat n \<le> Suc k" using R by simp_all
    have b: "16 * Suc k \<le> nent pt" using kn nm by simp
    have e: "{?a * 16 * 256..<?a * 16 * 256 + unat n * 4096} = {256 * (16 * ?a)..<256 * (16 * Suc k)}"
      using kn(2) by (simp add: algebra_simps)
    note F = root_fill_reserves [OF wf b, of "16 * ?a"]
    have "4096 dvd ?a * 16 * 256" by (simp add: mult.assoc)
    then have "found pt GSupersection n s (of_nat (?a * 16 * 256) * PAGE_SIZE) (fill (root pt) (16 * ?a) (16 * Suc k) 4 s)"
      using F R kn n m by (intro found_sections) (simp_all only: e gran_pages.simps, simp_all)
    moreover have "reserve_supersections pt n s
        = Ok (Success (of_nat (?a * 16 * 256) * PAGE_SIZE)) (fill (root pt) (16 * ?a) (16 * Suc k) 4 s)"
    proof -
      have w: "of_nat y - 16 * (n - 1) = (of_nat (16 * ?a) :: u32)"
        using kn(2) by (simp add: y of_nat_diff algebra_simps)
      have u: "unat (of_nat (16 * ?a) :: u32) = 16 * ?a" using kn m by (intro unat_of_nat32) simp
      have "unat n \<le> 256" using kn m by simp
      then have n16: "unat (n * 16) = 16 * unat n" by (subst unat_mult32) simp_all
      have sm: "unat (of_nat (16 * ?a) :: u32) + unat (n * 16) = 16 * Suc k"
        unfolding u n16 using kn(2) by (simp add: diff_mult_distrib2)
      have "16 * Suc k < 2 ^ 32" using kn m by simp
      then have u2: "unat (of_nat (16 * ?a) + n * 16 :: u32) = 16 * Suc k"
        using unat_add32 [OF ord_eq_less_trans [OF sm]] unfolding sm by blast
      have c: "?a * 16 * 256 = 256 * (16 * ?a)" by simp
      have "of_nat (16 * ?a) * SECTION_SIZE = (of_nat (?a * 16 * 256) * PAGE_SIZE :: u32)"
        using page_address_of [of "16 * ?a" 0] by (simp only: c unat_0 add_0_right mult_zero_left)
      then show ?thesis
        using Some unfolding reserve_supersections_def Let_def fle_ld blocks free_def
        by (simp only: option.case w u u2 get_first_level_table_address_def)
    qed
    ultimately show ?thesis by blast
  qed
qed

subsection \<open>Under the lock\<close>

lemma found_held: "found pt g n (locked pt s) a t \<Longrightarrow> found pt g n s a (t\<lparr>held := held s\<rparr>)"
  using table_op_held [where pt = pt and s = s and t = t and h = "(held s)(pt_lock pt := True)", folded locked_def]
  by (simp add: found_def reserves_def reservable_def)

lemma reservable_locked [simp]: "reservable pt g va n (locked pt s) = reservable pt g va n s"
  by (simp add: reservable_def)

lemma alloc_locked_table: "(\<forall>r s0. alloc 1 (locked pt s) \<noteq> Ok r s0) \<Longrightarrow> room 1 2 s \<Longrightarrow> pa_wf s \<Longrightarrow> held s PageAllocLock"
  by (rule ccontr, rule alloc_room [of "locked pt s" 1]) (simp_all add: locked_def room_def sizes_def pt_lock_def)

lemma reserve_cases:
  assumes wf: "pt_wf pt s" and l: "unlocked pt s" and n: "0 < unat n" "g = GPage \<Longrightarrow> unat n \<le> 256"
  obtains a s' where "reserve pt n g s = Ok (Success a) s'" "found pt g n s a s'"
  | t where "reserve pt n g s = panic OutOfMemory t" "g = GPage" "\<not> room 1 2 s"
  | "reserve pt n g s = Ok Failure s" "\<And>va. eligible g va n \<Longrightarrow> \<not> reservable pt g va n s"
proof -
  let ?body = "case g of GPage \<Rightarrow> reserve_pages pt n | GSection \<Rightarrow> reserve_sections pt n
      | GSupersection \<Rightarrow> reserve_supersections pt n"
  let ?s = "locked pt s"
  have wf': "pt_wf pt ?s" and h: "\<not> held ?s PageAllocLock" using wf l by (simp_all add: unlocked_def pt_lock_def)
  have r: "reserve pt n g s = with_lock (pt_lock pt) ?body s" by (simp add: reserve_def)
  have "(\<exists>a t. ?body ?s = Ok (Success a) t \<and> found pt g n ?s a t) \<or>
    (g = GPage \<and> (\<exists>t. ?body ?s = panic OutOfMemory t) \<and> (\<forall>r s0. alloc 1 ?s \<noteq> Ok r s0)) \<or>
    ?body ?s = Ok Failure ?s \<and> (\<forall>va. eligible g va n \<longrightarrow> \<not> reservable pt g va n ?s)"
  proof (cases g)
    case GPage
    then show ?thesis using reserve_pages_spec [OF wf' h n(1) n(2) [OF GPage]] by auto
  next
    case GSection
    then show ?thesis using reserve_sections_any_spec [OF wf' n(1)] by simp
  next
    case GSupersection
    then show ?thesis using reserve_supersections_any_spec [OF wf' n(1)] by simp
  qed
  then consider a t where "?body ?s = Ok (Success a) t" "found pt g n ?s a t"
    | t where "g = GPage" "?body ?s = panic OutOfMemory t" "\<forall>r s0. alloc 1 ?s \<noteq> Ok r s0"
    | "?body ?s = Ok Failure ?s" "\<forall>va. eligible g va n \<longrightarrow> \<not> reservable pt g va n ?s"
    by blast
  then show thesis
  proof cases
    case 1
    have "table_op pt ?s t" using 1(2) by (simp add: found_def reserves_def)
    then show thesis
      using that(1) with_pt_lock_op(1) [where body = ?body, OF l 1(1)] found_held [OF 1(2)] unfolding r by blast
  next
    case 2
    have "\<not> room 1 2 s" using alloc_locked_table [OF 2(3) _ pt_wfD(1) [OF wf]] l by (auto simp: unlocked_def)
    then show thesis using that(2) with_pt_lock_panic [where body = ?body, OF l 2(2)] 2(1) unfolding r by blast
  next
    case 3
    then show thesis using that(3) with_pt_lock_same [where body = ?body, OF l 3(1)] unfolding r by simp
  qed
qed

end
