(* ===== verification/Table_Room.thy ===== *)
theory Table_Room
  imports Table_Search
begin

unbundle bit_operations_syntax

text \<open>
  How much memory reservations take: the pages in use grow by the second-level tables, of which a
  request needs at most one for each section it touches.  With room for these in the allocator no
  reservation runs out of memory.
\<close>

subsection \<open>Printing changes no table\<close>

lemma emit_counts [simp]:
  "npages (emit bs s) = npages s" "rc (emit bs s) = rc s" "used (emit bs s) = used s"
  "pinned (emit bs s) = pinned s" "owned (emit bs s) = owned s" "pa_wf (emit bs s) = pa_wf s"
proof -
  show n: "npages (emit bs s) = npages s" by (simp add: npages_def)
  show r: "rc (emit bs s) = rc s" by (simp add: fun_eq_iff rc_def refcount_def)
  show u: "used (emit bs s) = used s" by (simp add: used_def n r)
  show p: "pinned (emit bs s) = pinned s" by (simp add: fun_eq_iff pinned_def n)
  show "owned (emit bs s) = owned s" by (simp add: fun_eq_iff owned_def u p)
  show "pa_wf (emit bs s) = pa_wf s" by (simp add: pa_wf_def n r u p)
qed

lemma room_emit [simp]: "room z k (emit bs s) = room z k s"
  by (simp add: room_def)

lemma emit_view [simp]:
  "fle pt (emit bs s) = fle pt s" "sle pt (emit bs s) = sle pt s"
  "table_frame pt (emit bs s) = table_frame pt s" "table_frames pt (emit bs s) = table_frames pt s"
  "pview pt (emit bs s) = pview pt s" "by_page pt (emit bs s) = by_page pt s"
  "pt_wf pt (emit bs s) = pt_wf pt s" "unlocked pt (emit bs s) = unlocked pt s"
proof -
  have l: "ld (emit bs s) = ld s" by (simp add: fun_eq_iff ld_def)
  show f: "fle pt (emit bs s) = fle pt s" by (simp add: fun_eq_iff fle_def l)
  show g: "sle pt (emit bs s) = sle pt s" by (simp add: fun_eq_iff sle_def f l)
  show t: "table_frame pt (emit bs s) = table_frame pt s" by (simp add: fun_eq_iff table_frame_def f)
  show "table_frames pt (emit bs s) = table_frames pt s" by (simp add: table_frames_def f t)
  show "pview pt (emit bs s) = pview pt s" by (simp add: fun_eq_iff pview_def Let_def f g)
  show "by_page pt (emit bs s) = by_page pt s" by (simp add: fun_eq_iff by_page_def f)
  show "pt_wf pt (emit bs s) = pt_wf pt s" by (simp add: pt_wf_def entry_ok_def f g t)
  show "unlocked pt (emit bs s) = unlocked pt s" by (simp add: unlocked_def)
qed

subsection \<open>Room for second-level tables\<close>

definition tables :: "PageTable \<Rightarrow> kstate \<Rightarrow> nat set" where
  "tables pt s = {i. i < nent pt \<and> is_table (fle pt s i)}"

lemma card_table_frames:
  assumes wf: "pt_wf pt s"
  shows "card (table_frames pt s) = 4 + card (tables pt s)"
proof -
  have fin: "finite (tables pt s)" by (simp add: tables_def)
  have inj: "inj_on (table_frame pt s) (tables pt s)" using wf by (simp add: pt_wf_def tables_def)
  have "root_frames pt \<inter> table_frame pt s ` tables pt s = {}"
    using entry_tableD(4) [OF wf] by (auto simp: tables_def)
  moreover have "table_frames pt s = root_frames pt \<union> table_frame pt s ` tables pt s"
    by (simp add: table_frames_def tables_def)
  ultimately show ?thesis using fin card_image [OF inj] by (simp add: card_Un_disjoint root_frames_def)
qed

lemma used_table_op:
  assumes op: "table_op pt s s'" and wf: "pt_wf pt s"
  shows "used s' = used s \<union> new_frames pt s s'" "card (used s') + card (tables pt s) = card (used s) + card (tables pt s')"
proof -
  note O = op [unfolded table_op_def]
  show u: "used s' = used s \<union> new_frames pt s s'"
  proof (rule set_eqI)
    fix p
    show "p \<in> used s' \<longleftrightarrow> p \<in> used s \<union> new_frames pt s s'"
      using O by (cases "p \<in> new_frames pt s s'") (auto simp: used_def)
  qed
  have d: "used s \<inter> new_frames pt s s' = {}" using O by (auto simp: used_def)
  have wf': "pt_wf pt s'" using O by simp
  have fin: "finite (table_frames pt x)" for x by (simp add: table_frames_def root_frames_def)
  have "card (used s') = card (used s) + card (new_frames pt s s')"
    unfolding u using d fin by (intro card_Un_disjoint) (simp_all add: new_frames_def used_def)
  moreover have "card (new_frames pt s s') + card (table_frames pt s) = card (table_frames pt s')"
    unfolding new_frames_def using O fin by (simp add: card_Diff_subset card_mono)
  ultimately show "card (used s') + card (tables pt s) = card (used s) + card (tables pt s')"
    using card_table_frames [OF wf] card_table_frames [OF wf'] by linarith
qed

text \<open>An operation spends what the second-level tables grow by.\<close>

lemma spends_op: "table_op pt s s' \<Longrightarrow> pt_wf pt s \<Longrightarrow> card (tables pt s') \<le> card (tables pt s) + j \<Longrightarrow> spends j s s'"
  using used_table_op(2) [of pt s s'] by (simp add: spends_def table_op_def)

lemma spends_same_tables:
  assumes op: "table_op pt s s'" and wf: "pt_wf pt s" and bp: "\<And>p. by_page pt s' p \<Longrightarrow> by_page pt s p"
  shows "spends 0 s s'"
proof -
  have "i \<in> tables pt s" if "i \<in> tables pt s'" for i
    using bp [of "256 * i"] that by (simp add: tables_def by_page_def)
  then have "card (tables pt s') \<le> card (tables pt s)" by (intro card_mono) (auto simp: tables_def)
  then show ?thesis using spends_op [OF op wf, of 0] by simp
qed

lemma takes_same_tables:
  assumes op: "table_op pt s s'" and wf: "pt_wf pt s" and bp: "\<And>p. by_page pt s' p \<Longrightarrow> by_page pt s p"
  shows "takes z 0 s s'"
proof -
  have "card (used s') \<le> card (used s)" using spends_same_tables [OF op wf bp] by (simp add: spends_def)
  moreover have "used s \<subseteq> used s'" using used_table_op(1) [OF op wf] by blast
  ultimately have "used s' = used s" using card_seteq [of "used s'" "used s"] by (simp add: used_def)
  then show ?thesis using op by (intro takes_same) (simp_all add: table_op_def)
qed

lemma spends_reserves:
  assumes r: "reserves pt paged P s s'" and wf: "pt_wf pt s" and fin: "finite P"
  shows "spends (if paged then card ((\<lambda>q. q div 256) ` P) else 0) s s'"
proof -
  let ?P = "if paged then (\<lambda>q. q div 256) ` P else {}"
  have bp: "by_page pt s' p \<Longrightarrow> by_page pt s p \<or> p div 256 \<in> ?P" for p
  proof -
    assume "by_page pt s' p"
    then have "by_page pt s p \<or> paged \<and> p div 256 \<in> (\<lambda>q. q div 256) ` P"
      using r unfolding reserves_def by blast
    then show ?thesis by auto
  qed
  have "tables pt s' \<subseteq> tables pt s \<union> ?P"
  proof
    fix i assume "i \<in> tables pt s'"
    then have "by_page pt s' (256 * i)" by (simp add: tables_def by_page_def)
    then show "i \<in> tables pt s \<union> ?P" using bp [of "256 * i"] by (auto simp: tables_def by_page_def)
  qed
  then have "card (tables pt s') \<le> card (tables pt s \<union> ?P)"
    using fin by (intro card_mono) (simp_all add: tables_def)
  also have "\<dots> \<le> card (tables pt s) + card (?P)" by (rule card_Un_le)
  finally have "spends (card ?P) s s'" by (rule spends_op [OF reserves_op [OF r] wf])
  then show ?thesis by (simp split: if_splits)
qed

lemmas reserves_room = spends_room [OF spends_reserves]

text \<open>The constructor takes four pages.\<close>

lemma spends_construct:
  assumes wf: "pa_wf s" and d: "4 dvd npages s" and ok: "construct su rcd s = Ok pt s'"
  shows "spends 4 s s'"
proof -
  note c = construct_spec [OF wf d ok]
  have "used s' \<subseteq> used s \<union> root_frames pt"
    using c(8,11) by (auto simp: used_def split: if_splits)
  moreover have "finite (used s)" "finite (root_frames pt)" "card (root_frames pt) = 4"
    by (simp_all add: used_def root_frames_def)
  ultimately have "card (used s') \<le> card (used s) + 4"
    using card_mono [of "used s \<union> root_frames pt" "used s'"] card_Un_le [of "used s" "root_frames pt"] by simp
  then show ?thesis using c(8) by (simp add: spends_def)
qed

subsection \<open>Reservation at an address with room\<close>

text \<open>A chunk needs at most one table, and with a page to allocate it cannot fail.\<close>

lemma chunk_card: "chunk_ok b n \<Longrightarrow> card ((\<lambda>q. q div 256) ` chunk_pages b n) \<le> 1"
proof -
  assume "chunk_ok b n"
  then have "(\<lambda>q. q div 256) ` chunk_pages b n \<subseteq> {frame b div 256}" using in_chunk by auto
  then show ?thesis using card_mono [of "{frame b div 256}"] by simp
qed

lemma chain_card: "chain a cs e \<Longrightarrow> card ((\<lambda>q. q div 256) ` {a..<e}) \<le> length cs"
proof (induction a cs e rule: chain.induct)
  case (2 a b n cs e)
  then have c: "chunk_ok b n" "frame b = a" "chain (a + unat n) cs e" by simp_all
  have le: "a + unat n \<le> e" using chain_le [OF c(3)] .
  have "(\<lambda>q. q div 256) ` {a..<e} = (\<lambda>q. q div 256) ` chunk_pages b n \<union> (\<lambda>q. q div 256) ` {a + unat n..<e}"
    unfolding image_Un [symmetric] chunk_pages_def c(2) using le by (simp add: ivl_disj_un)
  then have "card ((\<lambda>q. q div 256) ` {a..<e})
      \<le> card ((\<lambda>q. q div 256) ` chunk_pages b n) + card ((\<lambda>q. q div 256) ` {a + unat n..<e})"
    by (simp only: card_Un_le)
  then show ?case using chunk_card [OF c(1)] 2(1) [OF c(3)] by simp
qed simp

lemma chunk_no_panic:
  assumes "alloc 1 s = Ok r s0"
  shows "reserve_pages_from_section pt b n s \<noteq> panic c t"
  using assms by (auto simp: reserve_pages_from_section_def create_second_level_table_def Let_def panic_def split: Result.splits)

lemma reserve_chunks_room:
  assumes "chain a cs e" "pt_wf pt s" "\<not> held s PageAllocLock" "\<forall>p. a \<le> p \<and> p < e \<longrightarrow> pview pt s p = VFree"
    and "room 1 (length cs + 2) s"
  shows "\<exists>s'. for_each (\<lambda>(b, n). reserve_pages_from_section pt b n) cs s = Ok () s'"
  using assms
proof (induction a cs e arbitrary: s rule: chain.induct)
  case (2 a b n cs e)
  have c: "chunk_ok b n" "frame b = a" "chain (a + unat n) cs e" using 2(2) by simp_all
  have le: "a + unat n \<le> e" using chain_le [OF c(3)] .
  have P: "chunk_pages b n = {a..<a + unat n}" using c(2) by (simp add: chunk_pages_def)
  have "room 1 2 s" using room_mono [OF 2(6)] by simp
  then obtain r s0 where "alloc 1 s = Ok r s0"
    using alloc_room [OF pt_wfD(1) [OF 2(3)] sizes_1(1) sizes_1(2) 2(4)] by auto
  then obtain s1 where s1: "reserve_pages_from_section pt b n s = Ok () s1" "reserves pt True (chunk_pages b n) s s1"
    using reserve_chunk [OF 2(3) c(1) 2(4)] chunk_no_panic 2(5) le P by (metis atLeastLessThan_iff less_le_trans)
  have op: "table_op pt s s1" using s1(2) by (rule reserves_op)
  have "room 1 (length cs + 2) s1"
    using reserves_room [OF s1(2) 2(3)] chunk_card [OF c(1)] room_mono [OF 2(6)] by (simp add: P)
  moreover have "\<forall>p. a + unat n \<le> p \<and> p < e \<longrightarrow> pview pt s1 p = VFree"
    using s1(2) 2(5) by (simp add: reserves_def P)
  moreover have "\<not> held s1 PageAllocLock" using op 2(4) by (simp add: table_op_def)
  ultimately show ?case using 2(1) [OF c(3) table_op_wf [OF op]] s1(1) by simp
qed simp

text \<open>Pages within one section are one chunk.\<close>

lemma one_chunk: "frame b mod 256 + unat n \<le> 256 \<Longrightarrow> aligned 12 b \<Longrightarrow> 0 < n \<Longrightarrow> section_chunks b n = [(b, n)]"
proof -
  assume "frame b mod 256 + unat n \<le> 256" and b: "aligned 12 b" and n: "0 < n"
  then have "unat n \<le> unat (pages_in_rest_of_section b)" using unat_pages_in_rest [OF b] by simp
  then have "min n (pages_in_rest_of_section b) = n" by (simp add: min_def word_le_nat_alt)
  moreover have "section_chunks x 0 = []" for x by (subst section_chunks.simps) simp
  ultimately show ?thesis using n by (subst section_chunks.simps) (simp add: Let_def)
qed

lemma reserve_at_Ok:
  assumes wf: "pt_wf pt s" and l: "unlocked pt s" and r: "in_range g va n" and res: "reservable pt g va n s"
    and room: "g = GPage \<Longrightarrow> room 1 (length (section_chunks (va AND 0xfffff000) n) + 2) s"
  obtains s' where "reserve_at pt va n g s = Ok (Success (unit_address g va)) s'"
    "reserves pt (g = GPage) (unit_range g va n) s s'"
proof (cases "g = GPage")
  case True
  let ?cs = "section_chunks (va AND 0xfffff000) n"
  have b: "aligned 12 (va AND 0xfffff000)" unfolding not_masks by (rule aligned_and_not_mask)
  have ch: "chain (frame va) ?cs (frame va + unat n)"
    using chain_section_chunks [OF b, of n] r True by (simp add: in_range_def unit_base_simps)
  have free: "\<forall>p. frame va \<le> p \<and> p < frame va + unat n \<longrightarrow> pview pt (locked pt s) p = VFree"
    using res True by (simp add: reservable_def unit_range_def unit_base_simps)
  obtain t where "for_each (\<lambda>(b, n). reserve_pages_from_section pt b n) ?cs (locked pt s) = Ok () t"
    using reserve_chunks_room [OF ch _ _ free] wf l room [OF True]
    by (auto simp: unlocked_def pt_lock_def room_def locked_def)
  then have "reserve_pages_at pt va n (locked pt s) \<noteq> panic c u" for c u
    by (simp add: reserve_pages_at_def Let_def panic_def)
  moreover have "\<not> held s (pt_lock pt)" using l by (simp add: unlocked_def)
  ultimately have "reserve_at pt va n g s \<noteq> panic OutOfMemory u" for u
    using True by (cases "reserve_pages_at pt va n (locked pt s)")
      (simp_all add: reserve_at_def with_lock_def locked_def panic_def)
  then show thesis using reserve_at_cases [OF wf l r] res that by auto
next
  case False
  then show thesis using reserve_at_cases [OF wf l r] res that by auto
qed

end
