(* ===== verification/Table_Allocate.thy ===== *)
theory Table_Allocate
  imports Table_Ops
begin

unbundle bit_operations_syntax

text \<open>
  Backing a reserved range with memory: \<open>PageTable::allocate\<close> and \<open>reserve_allocate\<close>.  Each unit
  takes a block nobody owned from the allocator and commits it, so pages of the range get distinct
  new physical pages and what was owned before keeps its contents.
\<close>

subsection \<open>The relation\<close>

definition allocates :: "PageTable \<Rightarrow> nat set \<Rightarrow> kstate \<Rightarrow> kstate \<Rightarrow> bool" where
  "allocates pt P s s' \<longleftrightarrow> pt_wf pt s' \<and> npages s' = npages s \<and> held s' = held s \<and> console s' = console s \<and>
     (\<forall>f. owned s f \<longrightarrow> owned s' f) \<and>
     (\<forall>p. p \<notin> P \<longrightarrow> pview pt s' p = pview pt s p) \<and>
     (\<forall>p \<in> P. \<exists>f. pview pt s' p = VMapped f \<and> \<not> owned s f \<and> owned s' f \<and> f \<notin> table_frames pt s') \<and>
     (\<forall>p \<in> P. \<forall>q \<in> P. pview pt s' p = pview pt s' q \<longrightarrow> p = q) \<and>
     (\<forall>b. owned s (frame b) \<longrightarrow> frame b \<notin> table_frames pt s \<longrightarrow>
        mem s' b = mem s b \<and> frame b \<notin> table_frames pt s')"

lemma allocates_refl: "pt_wf pt s \<Longrightarrow> allocates pt {} s s"
  by (simp add: allocates_def)

lemma allocates_wf: "allocates pt P s s' \<Longrightarrow> pt_wf pt s'"
  by (simp add: allocates_def)

lemma allocates_trans:
  assumes a: "allocates pt P s t" and b: "allocates pt Q t u" and d: "P \<inter> Q = {}"
  shows "allocates pt (P \<union> Q) s u"
proof -
  note A = a [unfolded allocates_def] and B = b [unfolded allocates_def]
  have outside: "f \<notin> table_frames pt u" if f: "owned t f" "f \<notin> table_frames pt t" for f
  proof -
    have "pt_wf pt t" using A by blast
    then have "f < 2 ^ 20" using owned_less [OF f(1)] pa_wfD(2) [OF pt_wfD(1)] by (meson less_trans)
    then have e: "frame (of_nat f * PAGE_SIZE) = f" by (rule frame_page_address)
    have "\<forall>b. owned t (frame b) \<longrightarrow> frame b \<notin> table_frames pt t \<longrightarrow> frame b \<notin> table_frames pt u" using B by blast
    from this [rule_format, of "of_nat f * PAGE_SIZE"] show ?thesis using f unfolding e by blast
  qed
  have AP: "\<forall>p \<in> P. \<exists>f. pview pt t p = VMapped f \<and> \<not> owned s f \<and> owned t f \<and> f \<notin> table_frames pt t"
    using A by (elim conjE)
  have BQ: "\<forall>p \<in> Q. \<exists>f. pview pt u p = VMapped f \<and> \<not> owned t f \<and> owned u f \<and> f \<notin> table_frames pt u"
    using B by (elim conjE)
  have kept: "owned s f \<Longrightarrow> owned t f" "owned t f \<Longrightarrow> owned u f" "p \<notin> Q \<Longrightarrow> pview pt u p = pview pt t p" for f p
    using A B by simp_all
  have P: "\<exists>f. pview pt u p = VMapped f \<and> pview pt t p = VMapped f \<and> \<not> owned s f \<and> owned t f \<and> owned u f \<and>
      f \<notin> table_frames pt u" if p: "p \<in> P" for p
  proof -
    have "p \<notin> Q" using d p by blast
    then show ?thesis using bspec [OF AP p] kept(2,3) outside by auto
  qed
  have Q: "\<exists>f. pview pt u p = VMapped f \<and> \<not> owned s f \<and> \<not> owned t f \<and> owned u f \<and> f \<notin> table_frames pt u"
    if p: "p \<in> Q" for p
    using bspec [OF BQ p] kept(1) by auto
  have inj: "p = q" if pq: "p \<in> P \<union> Q" "q \<in> P \<union> Q" "pview pt u p = pview pt u q" for p q
  proof -
    consider "p \<in> P" "q \<in> P" | "p \<in> Q" "q \<in> Q" | "p \<in> P" "q \<in> Q" | "p \<in> Q" "q \<in> P"
      using pq(1,2) by blast
    then show ?thesis
    proof cases
      case 1
      then have "pview pt t p = pview pt t q" using P [OF 1(1)] P [OF 1(2)] pq(3) by auto
      then show ?thesis using A 1 by blast
    next
      case 2
      then show ?thesis using B pq(3) by blast
    next
      case 3
      then show ?thesis using P [OF 3(1)] Q [OF 3(2)] pq(3) by auto
    next
      case 4
      then show ?thesis using P [OF 4(2)] Q [OF 4(1)] pq(3) by auto
    qed
  qed
  have "\<exists>f. pview pt u p = VMapped f \<and> \<not> owned s f \<and> owned u f \<and> f \<notin> table_frames pt u" if "p \<in> P \<union> Q" for p
    using P [of p] Q [of p] that by blast
  moreover have "pview pt u p = pview pt s p" if "p \<notin> P \<union> Q" for p using A B that by simp
  moreover have "mem u b = mem s b \<and> frame b \<notin> table_frames pt u"
    if "owned s (frame b)" "frame b \<notin> table_frames pt s" for b
    using A B that by simp
  ultimately show ?thesis using A B inj unfolding allocates_def by (intro conjI) auto
qed

subsection \<open>A block from the allocator\<close>

text \<open>Any allocation leaves a table as it is: its words lie in owned pages.\<close>

lemma alloc_keeps_table:
  assumes wf: "pt_wf pt s" and sz: "sz \<in> sizes" "unat sz dvd npages s" and al: "alloc sz s = Ok r s'"
  shows "pt_wf pt s'" "pview pt s' p = pview pt s p" "by_page pt s' p = by_page pt s p"
    "table_frames pt s' = table_frames pt s"
proof -
  note prov = alloc_is_provider [OF sz(1)]
  have sv: "serves sz s" using pt_wfD(1) [OF wf] sz(2) by (simp add: serves_def)
  have word: "ld s' a = ld s a" if "frame a \<in> table_frames pt s" "aligned 2 a" for a
    unfolding ld_def
    using page_provider.word_kept [OF prov sv al that(2)] table_frames_owned [OF wf that(1)] by simp
  have pa: "pa_wf s'" using page_provider.inv_kept [OF prov sv al] by (simp add: serves_def)
  have own: "owned s' f" if "f \<in> table_frames pt s" for f
    using page_provider.owned_kept [OF prov sv al] table_frames_owned [OF wf that] by simp
  note keep = words_keep_table [OF wf pa own word]
  show "pt_wf pt s'" "pview pt s' p = pview pt s p" "by_page pt s' p = by_page pt s p"
    "table_frames pt s' = table_frames pt s"
    by (simp_all only: keep)
qed

lemma alloc_Ok_or_panic:
  assumes "pa_wf s" "sz \<in> sizes" "unat sz dvd npages s" "\<not> held s PageAllocLock"
  shows "(\<exists>r s'. alloc sz s = Ok r s') \<or> (\<exists>t. alloc sz s = panic OutOfMemory t)"
  by (auto simp: alloc_eq [OF assms] Let_def split: option.split)

lemma allocation_size: "get_allocation_pages g \<in> sizes"
  by (cases g) (simp_all add: get_allocation_pages_def sizes_def)

text \<open>The physical pages behind a unit mapped to a block of its own size.\<close>

lemma unit_frame_fresh:
  assumes "gran_pages g dvd frame r"
  shows "unit_frame g r p = frame r + p mod gran_pages g"
  using assms by (simp add: unit_frame_def)

lemma commit_allocates:
  assumes wf: "pt_wf pt s" and dv: "gran_pages g dvd npages s"
    and al: "alloc (get_allocation_pages g) s = Ok r t"
    and c: "commits pt g (frame va) r t u"
  shows "allocates pt (unit_pages g (frame va)) s u" "by_page pt u p = by_page pt s p"
proof -
  let ?sz = "get_allocation_pages g"
  note prov = alloc_is_provider [OF allocation_size [of g]]
  have szd: "unat ?sz dvd npages s" using dv by (simp add: gran_pages_word)
  have sv: "serves ?sz s" using pt_wfD(1) [OF wf] szd by (simp add: serves_def)
  note keep = alloc_keeps_table [OF wf allocation_size szd al]
  note ak = alloc_keeps [OF pt_wfD(1) [OF wf] allocation_size szd al]
  have op: "table_op pt t u" and v: "\<And>p. pview pt u p =
      (if p \<in> unit_pages g (frame va) then VMapped (unit_frame g r p) else pview pt t p)"
    and bp: "\<And>p. by_page pt u p = by_page pt t p"
    using c by (simp_all add: commits_def)
  note O = op [unfolded table_op_def]
  have r: "gran_pages g dvd frame r"
    using page_provider.fresh_aligned [OF prov sv al] by (simp add: gran_pages_word)
  have own: "owned t f" if "owned s f" for f using page_provider.owned_kept [OF prov sv al that] .
  have fresh: "\<not> owned s (unit_frame g r p)" "owned t (unit_frame g r p)" "owned u (unit_frame g r p)" for p
    using page_provider.fresh_not_owned [OF prov sv al, of "p mod gran_pages g"]
      page_provider.fresh_owned [OF prov sv al, of "p mod gran_pages g"] O
    by (simp_all add: unit_frame_fresh [OF r] gran_pages_word)
  have new: "unit_frame g r p \<notin> table_frames pt u" for p
    using new_not_owned [OF op, of "unit_frame g r p"] fresh(1,2) [of p] table_frames_owned [OF wf] keep(4)
    by (auto simp: new_frames_def)
  have "p = q" if "p \<in> unit_pages g (frame va)" "q \<in> unit_pages g (frame va)"
    "unit_frame g r p = unit_frame g r q" for p q
  proof -
    have "p div gran_pages g = frame va div gran_pages g" "q div gran_pages g = frame va div gran_pages g"
      using that(1,2) by (simp_all only: unit_pages_def mem_Collect_eq)
    moreover have "p mod gran_pages g = q mod gran_pages g"
      using that(3) by (simp only: unit_frame_fresh [OF r] add_left_cancel)
    ultimately show ?thesis by (metis div_mult_mod_eq)
  qed
  moreover have "mem u b = mem s b \<and> frame b \<notin> table_frames pt u"
    if b: "owned s (frame b)" "frame b \<notin> table_frames pt s" for b
  proof -
    have tb: "owned t (frame b)" using own [OF b(1)] .
    have nf: "frame b \<notin> table_frames pt u"
      using new_not_owned [OF op, of "frame b"] tb b(2) keep(4) by (auto simp: new_frames_def)
    have nt: "b \<noteq> rtab t + of_nat q" if "q < npages t" for q using owned_not_table [OF tb that] by blast
    then have "mem u b = mem t b" using O nf by simp
    then show ?thesis using page_provider.contents_kept [OF prov sv al b(1)] nf by simp
  qed
  moreover have "pt_wf pt u" "npages u = npages s" "held u = held s" "console u = console s" "\<And>f. owned s f \<Longrightarrow> owned u f"
    using O ak(1-3) own by simp_all
  moreover have "pview pt u p = pview pt s p" if "p \<notin> unit_pages g (frame va)" for p
    using that by (simp only: v keep(2) if_False)
  moreover have "pview pt u p = VMapped (unit_frame g r p)" if "p \<in> unit_pages g (frame va)" for p
    using that by (simp only: v if_True)
  ultimately show "allocates pt (unit_pages g (frame va)) s u"
    using fresh new unfolding allocates_def by (intro conjI) auto
  show "by_page pt u p = by_page pt s p" by (simp only: bp keep(3))
qed

subsection \<open>The loop\<close>

text \<open>The unit after those that have been allocated can be committed.\<close>

lemma committable_next:
  assumes m: "mappable pt g (unit_base g va) n s" and r: "unit_base g va + n * gran_pages g \<le> 2 ^ 20" and k: "k < n"
    and a: "allocates pt {unit_base g va..<unit_base g va + k * gran_pages g} s t"
    and bp: "\<forall>p. by_page pt t p = by_page pt s p"
  shows "unit_pages g (frame (va + of_nat k * get_allocation_pages g * PAGE_SIZE))
      = {unit_base g va + k * gran_pages g..<unit_base g va + Suc k * gran_pages g}"
    "committable pt g (frame (va + of_nat k * get_allocation_pages g * PAGE_SIZE)) t"
proof -
  let ?G = "gran_pages g" and ?A = "unit_base g va"
  let ?va = "va + of_nat k * get_allocation_pages g * PAGE_SIZE"
  have fv: "frame ?va = frame va + k * ?G" using unit_offset [OF r k] by simp
  show up: "unit_pages g (frame ?va) = {?A + k * ?G..<?A + Suc k * ?G}"
    unfolding fv by (rule unit_pages_offset)
  have le: "Suc k * ?G \<le> n * ?G" using k by (intro mult_le_mono1) simp
  have "pview pt t p = VReserved \<and> by_page pt t p = (g = GPage)" if p: "p \<in> {?A + k * ?G..<?A + Suc k * ?G}" for p
  proof -
    have "pview pt s p = VReserved \<and> by_page pt s p = (g = GPage)"
      using m p le unfolding mappable_def by auto
    moreover have "p \<notin> {?A..<?A + k * ?G}" using p by simp
    ultimately show ?thesis using a bp unfolding allocates_def by metis
  qed
  then show "committable pt g (frame ?va) t" by (simp add: committable_def up)
qed

lemma allocate_loop:
  assumes wf: "pt_wf pt s" and l: "\<not> held s PageAllocLock" and dv: "gran_pages g dvd npages s"
    and m: "mappable pt g (unit_base g va) n s"
    and r: "unit_base g va + n * gran_pages g \<le> 2 ^ 20" and k: "k \<le> n"
  shows "(\<exists>s'. while_ok (allocate_unit pt va g) [0..<k] s = Ok True s' \<and>
      allocates pt {unit_base g va..<unit_base g va + k * gran_pages g} s s' \<and>
      (\<forall>p. by_page pt s' p = by_page pt s p)) \<or>
    (\<exists>t. while_ok (allocate_unit pt va g) [0..<k] s = panic OutOfMemory t)"
  using k
proof (induction k)
  case 0
  then show ?case using allocates_refl [OF wf] by auto
next
  case (Suc k)
  let ?G = "gran_pages g" and ?A = "unit_base g va"
  let ?va = "va + of_nat k * get_allocation_pages g * PAGE_SIZE"
  consider t where "while_ok (allocate_unit pt va g) [0..<k] s = Ok True t" "allocates pt {?A..<?A + k * ?G} s t"
      "\<forall>p. by_page pt t p = by_page pt s p"
    | t where "while_ok (allocate_unit pt va g) [0..<k] s = panic OutOfMemory t"
    using Suc by auto
  then show ?case
  proof cases
    case 2
    then show ?thesis by (auto simp: while_ok_append)
  next
    case 1
    note T = 1(2) [unfolded allocates_def]
    have wft: "pt_wf pt t" and dvt: "?G dvd npages t" and lt: "\<not> held t PageAllocLock"
      using T dv l by simp_all
    have szt: "unat (get_allocation_pages g) dvd npages t" using dvt by (simp add: gran_pages_word)
    have k: "k < n" using Suc(2) by simp
    note up = committable_next(1) [OF m r k 1(2,3)] and com = committable_next(2) [OF m r k 1(2,3)]
    show ?thesis
    proof (cases "\<exists>pa t1. alloc (get_allocation_pages g) t = Ok pa t1")
      case False
      then obtain w where "alloc (get_allocation_pages g) t = panic OutOfMemory w"
        using alloc_Ok_or_panic [OF pt_wfD(1) [OF wft] allocation_size szt lt] by blast
      then have "allocate_unit pt va g k t = panic OutOfMemory w" by (simp add: allocate_unit_def)
      then show ?thesis using 1(1) by (auto simp: while_ok_append)
    next
      case True
      then obtain pa t1 where al: "alloc (get_allocation_pages g) t = Ok pa t1" by blast
      note keep = alloc_keeps_table [OF wft allocation_size szt al]
      have "committable pt g (frame ?va) t1" using com by (simp add: committable_def keep(2,3))
      then obtain u where u: "commit pt g ?va pa t1 = (True, u)" "commits pt g (frame ?va) pa t1 u"
        using commit_spec [OF keep(1), of g ?va pa] by auto
      have "allocate_unit pt va g k t = Ok True u"
        using u(1) by (simp add: allocate_unit_def al Let_def)
      then have run: "while_ok (allocate_unit pt va g) [0..<Suc k] s = Ok True u"
        using 1(1) by (simp add: while_ok_append)
      have "allocates pt ({?A..<?A + k * ?G} \<union> unit_pages g (frame ?va)) s u"
        using allocates_trans [OF 1(2) commit_allocates(1) [OF wft dvt al u(2)]] unfolding up by auto
      moreover have "{?A..<?A + k * ?G} \<union> unit_pages g (frame ?va) = {?A..<?A + Suc k * ?G}"
        unfolding up by auto
      moreover have "by_page pt u p = by_page pt s p" for p
        using commit_allocates(2) [OF wft dvt al u(2)] 1(3) by simp
      ultimately show ?thesis using run by auto
    qed
  qed
qed

subsection \<open>The operations\<close>

lemma allocate_cases:
  assumes wf: "pt_wf pt s" and l: "unlocked pt s" and rc: "reference_counted pt"
    and dv: "gran_pages g dvd npages s" and r: "in_range g va n"
    and m: "mappable pt g (unit_base g va) (unat n) s"
  shows "(\<exists>s'. allocate pt va n g s = Ok True s' \<and> allocates pt (unit_range g va n) s s') \<or>
    (\<exists>t. allocate pt va n g s = panic OutOfMemory t)"
proof -
  have hyps: "pt_wf pt (locked pt s)" "\<not> held (locked pt s) PageAllocLock" "gran_pages g dvd npages (locked pt s)"
    "mappable pt g (unit_base g va) (unat n) (locked pt s)"
    using wf l dv m by (simp_all add: unlocked_def pt_lock_def mappable_def locked_def)
  let ?body = "while_ok (allocate_unit pt va g) [0..<unat n]"
  consider t where "?body (locked pt s) = Ok True t" "allocates pt (unit_range g va n) (locked pt s) t"
    | t where "?body (locked pt s) = panic OutOfMemory t"
    using allocate_loop [OF hyps] r unfolding in_range_def unit_range_def by blast
  then show ?thesis
  proof cases
    case 1
    have h: "held t = (held s)(pt_lock pt := True)" using 1(2) by (simp add: allocates_def)
    have "with_lock (pt_lock pt) ?body s = Ok True (t\<lparr>held := held s\<rparr>)"
      using 1(1) h l by (intro with_lock_run) (simp_all add: unlocked_def locked_def)
    moreover have "allocates pt (unit_range g va n) s (t\<lparr>held := held s\<rparr>)"
      using 1(2) by (simp add: allocates_def locked_def)
    ultimately show ?thesis using rc by (auto simp: allocate_def)
  next
    case 2
    then show ?thesis using with_pt_lock_panic [OF l, of ?body] rc by (auto simp: allocate_def)
  qed
qed

lemma frame_unit_address: "frame (unit_address g va) = unit_base g va"
proof -
  have "unit_base g va < 2 ^ 20"
    unfolding unit_base_def by (rule le_less_trans [OF div_times_less_eq_dividend frame_less])
  then show ?thesis by (simp add: unit_address_def)
qed

text \<open>Reserving first: an operation on the table, then an allocation.\<close>

lemma table_op_allocates:
  assumes op: "table_op pt s t" and v: "\<And>p. p \<notin> P \<Longrightarrow> pview pt t p = pview pt s p"
    and a: "allocates pt P t u"
  shows "allocates pt P s u"
proof -
  note O = op [unfolded table_op_def] and A = a [unfolded allocates_def]
  have "mem u b = mem s b \<and> frame b \<notin> table_frames pt u"
    if b: "owned s (frame b)" "frame b \<notin> table_frames pt s" for b
  proof -
    have nf: "frame b \<notin> table_frames pt t"
      using new_not_owned [OF op, of "frame b"] b by (auto simp: new_frames_def)
    have "b \<noteq> rtab s + of_nat q" if "q < npages s" for q using owned_not_table [OF b(1) that] by blast
    then have "mem t b = mem s b" using O nf by simp
    then show ?thesis using A O b(1) nf by simp
  qed
  moreover have "\<exists>f. pview pt u p = VMapped f \<and> \<not> owned s f \<and> owned u f \<and> f \<notin> table_frames pt u" if "p \<in> P" for p
    using A O that by metis
  ultimately show ?thesis using A O v unfolding allocates_def by simp
qed

lemma reserve_allocate_at_cases:
  assumes wf: "pt_wf pt s" and l: "unlocked pt s" and rc: "reference_counted pt"
    and dv: "gran_pages g dvd npages s" and r: "in_range g va n"
  shows "if reservable pt g va n s
    then (\<exists>s'. reserve_allocate_at pt va n g s = Ok (Success (unit_address g va)) s' \<and>
        allocates pt (unit_range g va n) s s') \<or>
      (\<exists>t. reserve_allocate_at pt va n g s = panic OutOfMemory t)
    else reserve_allocate_at pt va n g s = Ok Failure s"
proof (cases "reservable pt g va n s")
  case False
  then show ?thesis
    using reserve_at_cases [OF wf l r] by (simp add: reserve_allocate_at_def allocate_reserved_def)
next
  case True
  then consider t where "reserve_at pt va n g s = Ok (Success (unit_address g va)) t"
      "reserves pt (g = GPage) (unit_range g va n) s t"
    | t where "reserve_at pt va n g s = panic OutOfMemory t"
    using reserve_at_cases [OF wf l r] by auto
  then show ?thesis
  proof cases
    case 2
    then show ?thesis using True by (auto simp: reserve_allocate_at_def)
  next
    case 1
    note op = reserves_op [OF 1(2)]
    let ?a = "unit_address g va"
    have ub: "unit_base g ?a = unit_base g va"
      using frame_unit_address [of g va] by (simp add: unit_base_def [of g ?a]) (simp add: unit_base_def)
    have hyps: "unlocked pt t" "gran_pages g dvd npages t" "in_range g ?a n"
      using op l dv r by (simp_all add: table_op_def unlocked_def in_range_def ub)
    have m: "mappable pt g (unit_base g ?a) (unat n) t"
      using 1(2) by (auto simp: ub mappable_def reserves_def unit_range_def)
    have rg: "unit_range g ?a n = unit_range g va n" by (simp add: unit_range_def ub)
    consider u where "allocate pt ?a n g t = Ok True u" "allocates pt (unit_range g va n) t u"
      | u where "allocate pt ?a n g t = panic OutOfMemory u"
      using allocate_cases [OF table_op_wf [OF op] hyps(1) rc hyps(2,3) m] unfolding rg by blast
    then show ?thesis
    proof cases
      case a: 1
      have "pview pt t p = pview pt s p" if "p \<notin> unit_range g va n" for p
        using 1(2) that by (simp add: reserves_def)
      then have "allocates pt (unit_range g va n) s u" using table_op_allocates [OF op _ a(2)] by blast
      then show ?thesis
        using True 1(1) a(1) by (auto simp: reserve_allocate_at_def allocate_reserved_def)
    next
      case a: 2
      then show ?thesis using True 1(1) by (auto simp: reserve_allocate_at_def allocate_reserved_def)
    qed
  qed
qed

end
