(* ===== verification/Allocate_Room.thy ===== *)
theory Allocate_Room
  imports Table_Room Table_Allocate
begin

unbundle bit_operations_syntax

text \<open>
  How much memory it takes to back a range of units with memory of its own: a block for each unit and,
  for pages, at most one second-level table for each section.  With that much room it succeeds.
\<close>

subsection \<open>Allocation with room\<close>

text \<open>
  Pages backed by memory as the allocator leaves it: filled with \<open>0xcc\<close>.  They stay so while other
  pages are backed.
\<close>

definition filled :: "PageTable \<Rightarrow> nat set \<Rightarrow> kstate \<Rightarrow> bool" where
  "filled pt P s \<longleftrightarrow> (\<forall>p \<in> P. \<exists>f. pview pt s p = VMapped f \<and> (\<forall>b. frame b = f \<longrightarrow> mem s b = 0xcc))"

lemma filled_empty [simp]: "filled pt {} s"
  by (simp add: filled_def)

lemma filled_Un: "filled pt (P \<union> Q) s \<longleftrightarrow> filled pt P s \<and> filled pt Q s"
  unfolding filled_def by blast

lemma filled_held [simp]: "filled pt P (s\<lparr>held := h\<rparr>) = filled pt P s"
  by (simp add: filled_def)

lemma filled_stays:
  assumes a: "allocates pt P s t" and f: "filled pt P t" and b: "allocates pt Q t u" and d: "P \<inter> Q = {}"
  shows "filled pt P u"
  unfolding filled_def
proof
  fix p assume p: "p \<in> P"
  have "\<forall>p \<in> P. \<exists>f. pview pt t p = VMapped f \<and> \<not> owned s f \<and> owned t f \<and> f \<notin> table_frames pt t"
    using a unfolding allocates_def by (elim conjE)
  from bspec [OF this p] obtain g where g: "pview pt t p = VMapped g" "owned t g" "g \<notin> table_frames pt t" by blast
  moreover have "\<forall>c. frame c = g \<longrightarrow> mem t c = 0xcc" using f p g(1) by (auto simp: filled_def)
  moreover have "pview pt u p = pview pt t p" using b d p by (auto simp: allocates_def)
  moreover have "\<forall>c. owned t (frame c) \<longrightarrow> frame c \<notin> table_frames pt t \<longrightarrow> mem u c = mem t c"
    using b unfolding allocates_def by blast
  ultimately show "\<exists>f. pview pt u p = VMapped f \<and> (\<forall>c. frame c = f \<longrightarrow> mem u c = 0xcc)" by auto
qed

text \<open>A page that is allocated and committed.\<close>

lemma commit_filled:
  assumes wf: "pt_wf pt s" and al: "alloc 1 s = Ok r t" and c: "commits pt GPage p r t u"
    and a: "allocates pt {p} s u"
  shows "filled pt {p} u"
proof -
  have dv: "gran_pages GPage dvd npages s" "unat (1 :: u32) dvd npages s" by simp_all
  obtain e where e: "allocatable s 1 e" "r = of_nat e * PAGE_SIZE" "t = alloc_state 1 e s"
    using alloc_OkD [OF pt_wfD(1) [OF wf] sizes_1(1) dv(2) al] by metis
  have fe: "frame r = e" using e(2) allocatable_range(5) [OF e(1)] by simp
  have own: "owned t e" using owned_alloc_state [OF e(1), of e] e(3) by simp
  have v: "pview pt u p = VMapped e" using c by (simp add: commits_def unit_pages_def unit_frame_def fe)
  then have nt: "e \<notin> table_frames pt u" using a by (auto simp: allocates_def)
  have "mem u b = 0xcc" if b: "frame b = e" for b
  proof -
    have "b \<noteq> rtab t + of_nat q" if "q < npages t" for q using owned_not_table [OF own that] b by blast
    then have "mem u b = mem t b" using c b nt by (simp add: commits_def table_op_def)
    moreover have "b \<noteq> rtab s + of_nat q" if "q < npages s" for q
      using owned_not_table [OF own, of q] that b e(3) by auto
    ultimately show ?thesis using mem_alloc_state_other [OF e(1), of b] b e(3) by simp
  qed
  then show ?thesis using v by (simp add: filled_def)
qed

lemma allocate_loop_room:
  assumes wf: "pt_wf pt s" and l: "\<not> held s PageAllocLock" and dv: "gran_pages g dvd npages s"
    and m: "mappable pt g (unit_base g va) n s"
    and r: "unit_base g va + n * gran_pages g \<le> 2 ^ 20" and k: "k \<le> n"
    and room: "space (gran_pages g) (k + 2) s"
  shows "\<exists>s'. while_ok (allocate_unit pt va g) [0..<k] s = Ok True s' \<and> takes (gran_pages g) k s s' \<and>
    (g = GPage \<longrightarrow> filled pt {unit_base g va..<unit_base g va + k * gran_pages g} s')"
  using k room
proof (induction k)
  case 0
  then show ?case by (simp add: takes_refl)
next
  case (Suc k)
  let ?G = "gran_pages g" and ?va = "va + of_nat k * get_allocation_pages g * PAGE_SIZE"
  have "space ?G (k + 2) s" using space_mono [OF Suc(3)] by simp
  then obtain t where t: "while_ok (allocate_unit pt va g) [0..<k] s = Ok True t" "takes ?G k s t"
    "g = GPage \<longrightarrow> filled pt {unit_base g va..<unit_base g va + k * ?G} t"
    using Suc(1,2) by auto
  have k: "k < n" "k \<le> n" using Suc(2) by simp_all
  have a: "allocates pt {unit_base g va..<unit_base g va + k * ?G} s t" "\<forall>p. by_page pt t p = by_page pt s p"
    using allocate_loop [OF wf l dv m r k(2)] t(1) by auto
  note T = a(1) [unfolded allocates_def]
  have wft: "pt_wf pt t" and lt: "\<not> held t PageAllocLock" and n: "npages t = npages s" using T l by simp_all
  have szt: "unat (get_allocation_pages g) dvd npages t" using dv n by (simp add: gran_pages_word)
  have "space ?G 2 t" using takes_space [OF t(2), of 2] space_mono [OF Suc(3), of "2 + k"] by simp
  then have "space (unat (get_allocation_pages g)) 2 t" by (simp add: gran_pages_word)
  then obtain pa t1 where al: "alloc (get_allocation_pages g) t = Ok pa t1"
    using alloc_space [OF pt_wfD(1) [OF wft] allocation_size szt lt] by blast
  note keep = alloc_keeps_table [OF wft allocation_size szt al]
  have "committable pt g (frame ?va) t1"
    using committable_next(2) [OF m r k(1) a] by (simp add: committable_def keep(2,3))
  then obtain u where u: "commit pt g ?va pa t1 = (True, u)" "commits pt g (frame ?va) pa t1 u"
    using commit_spec [OF keep(1), of g ?va pa] by auto
  have s0: "takes ?G 0 t1 u"
    by (rule takes_same_tables [OF _ keep(1)]) (use u(2) in \<open>auto simp: commits_def\<close>)
  have "takes ?G 1 t u"
    using takes_trans [OF takes_alloc [OF pt_wfD(1) [OF wft] allocation_size szt al]] s0
    by (fastforce simp: gran_pages_word)
  from takes_trans [OF t(2) this] have "takes ?G (Suc k) s u" by simp
  moreover have "filled pt {unit_base g va..<unit_base g va + Suc k * ?G} u" if g: "g = GPage"
  proof -
    note up = committable_next(1) [OF m r k(1) a]
    have au: "allocates pt (unit_pages g (frame ?va)) t u" by (rule commit_allocates(1) [OF wft _ al u(2)]) (use dv n in simp)
    have one: "unit_pages g (frame ?va) = {frame ?va}" using g by (simp add: unit_pages_def)
    have "filled pt (unit_pages g (frame ?va)) u"
      unfolding one using commit_filled [OF wft _ _ au [unfolded one]] al u(2) g by (simp add: get_allocation_pages_def)
    moreover have "{unit_base g va..<unit_base g va + k * ?G} \<inter> unit_pages g (frame ?va) = {}" unfolding up by auto
    from filled_stays [OF a(1) _ au this] have "filled pt {unit_base g va..<unit_base g va + k * ?G} u" using t(3) g by blast
    moreover have "{unit_base g va..<unit_base g va + Suc k * ?G}
        = {unit_base g va..<unit_base g va + k * ?G} \<union> unit_pages g (frame ?va)"
      unfolding up by auto
    ultimately show ?thesis by (simp add: filled_Un)
  qed
  moreover have "while_ok (allocate_unit pt va g) [0..<Suc k] s = Ok True u"
    using t(1) u(1) by (simp add: while_ok_append allocate_unit_def al Let_def)
  ultimately show ?case by blast
qed

lemma space_locked [simp]: "space z k (locked pt s) = space z k s"
  by (simp add: space_def spoiled_def locked_def)

lemma allocate_room:
  assumes wf: "pt_wf pt s" and l: "unlocked pt s" and rc: "reference_counted pt"
    and dv: "gran_pages g dvd npages s" and r: "in_range g va n"
    and m: "mappable pt g (unit_base g va) (unat n) s" and room: "space (gran_pages g) (unat n + 2) s"
  obtains s' where "allocate pt va n g s = Ok True s'" "takes (gran_pages g) (unat n) s s'"
    "g = GPage \<longrightarrow> filled pt (unit_range g va n) s'"
proof -
  have hyps: "pt_wf pt (locked pt s)" "\<not> held (locked pt s) PageAllocLock" "gran_pages g dvd npages (locked pt s)"
    "mappable pt g (unit_base g va) (unat n) (locked pt s)"
    using wf l dv m by (simp_all add: unlocked_def pt_lock_def mappable_def locked_def)
  let ?body = "while_ok (allocate_unit pt va g) [0..<unat n]"
  have r': "unit_base g va + unat n * gran_pages g \<le> 2 ^ 20" using r by (simp add: in_range_def)
  obtain t where t: "?body (locked pt s) = Ok True t" "takes (gran_pages g) (unat n) (locked pt s) t"
    "g = GPage \<longrightarrow> filled pt (unit_range g va n) t"
    unfolding unit_range_def using allocate_loop_room [OF hyps r' le_refl] room by auto
  have "allocates pt {unit_base g va..<unit_base g va + unat n * gran_pages g} (locked pt s) t"
    using allocate_loop [OF hyps r' le_refl] t(1) by auto
  then have "held t = (held s)(pt_lock pt := True)" by (simp add: allocates_def locked_def)
  then have "with_lock (pt_lock pt) ?body s = Ok True (t\<lparr>held := held s\<rparr>)"
    using t(1) l by (intro with_lock_run) (simp_all add: unlocked_def locked_def)
  moreover have "takes (gran_pages g) (unat n) s (t\<lparr>held := held s\<rparr>)"
    using t(2) by (simp add: takes_def spoiled_def locked_def)
  ultimately show thesis using that t(3) rc by (simp add: allocate_def)
qed

text \<open>
  The blocks that backing \<open>n\<close> units at an address takes at most: one for each unit, and for pages a
  second-level table for each section.
\<close>

definition units_cost :: "AllocationGranularity \<Rightarrow> u32 \<Rightarrow> u32 \<Rightarrow> nat" where
  "units_cost g va n = (if g = GPage then length (section_chunks (va AND 0xfffff000) n) else 0) + unat n"

lemma unit_base_address: "unit_base g (unit_address g va) = unit_base g va"
  unfolding unit_base_def [of g "unit_address g va"] frame_unit_address by (simp add: unit_base_def)

lemma takes_reserves:
  assumes R: "reserves pt (g = GPage) (unit_range g va n) s t" and wf: "pt_wf pt s" and r: "in_range g va n"
  shows "takes (gran_pages g) (if g = GPage then length (section_chunks (va AND 0xfffff000) n) else 0) s t"
proof (cases "g = GPage")
  case True
  let ?cs = "section_chunks (va AND 0xfffff000) n"
  have b: "aligned 12 (va AND 0xfffff000)" unfolding not_masks by (rule aligned_and_not_mask)
  have "chain (frame va) ?cs (frame va + unat n)"
    using chain_section_chunks [OF b, of n] r True by (simp add: in_range_def unit_base_simps)
  then have "card ((\<lambda>q. q div 256) ` unit_range g va n) \<le> length ?cs"
    using chain_card True by (simp add: unit_range_def unit_base_simps)
  then have "spends (length ?cs) s t"
    using spends_mono [OF spends_reserves [OF R wf]] True by (simp add: unit_range_def)
  then show ?thesis using True by (simp add: takes_spends)
next
  case False
  then have "by_page pt t p \<Longrightarrow> by_page pt s p" for p using R by (simp add: reserves_def)
  then show ?thesis using False takes_same_tables [OF reserves_op [OF R] wf] by simp
qed

lemma reserve_allocate_units_room:
  assumes wf: "pt_wf pt s" and l: "unlocked pt s" and rc: "reference_counted pt" and dv: "gran_pages g dvd npages s"
    and r: "in_range g va n" and res: "reservable pt g va n s" and room: "space (gran_pages g) (units_cost g va n + 2) s"
  obtains s' where "reserve_allocate_at pt va n g s = Ok (Success (unit_address g va)) s'"
    "takes (gran_pages g) (units_cost g va n) s s'" "g = GPage \<longrightarrow> filled pt (unit_range g va n) s'"
proof -
  let ?a = "unit_address g va"
  have "room 1 (length (section_chunks (va AND 0xfffff000) n) + 2) s" if "g = GPage"
  proof -
    have "room 1 (units_cost g va n + 2) s" using room that by (simp add: space_room)
    then show ?thesis using that by (elim room_mono) (simp_all add: units_cost_def)
  qed
  then obtain t where t: "reserve_at pt va n g s = Ok (Success ?a) t" "reserves pt (g = GPage) (unit_range g va n) s t"
    using reserve_at_Ok [OF wf l r res] by metis
  note op = reserves_op [OF t(2)] and tk = takes_reserves [OF t(2) wf r]
  have ub: "unit_base g ?a = unit_base g va" by (rule unit_base_address)
  have hyps: "unlocked pt t" "gran_pages g dvd npages t" "in_range g ?a n"
    using op l r dv by (simp_all add: table_op_def unlocked_def in_range_def ub)
  have m: "mappable pt g (unit_base g ?a) (unat n) t"
    using t(2) by (auto simp: ub mappable_def reserves_def unit_range_def)
  have "space (gran_pages g) (unat n + 2) t"
    using takes_space [OF tk, of "unat n + 2"] room by (simp add: units_cost_def ac_simps)
  then obtain u where u: "allocate pt ?a n g t = Ok True u" "takes (gran_pages g) (unat n) t u"
    "g = GPage \<longrightarrow> filled pt (unit_range g ?a n) u"
    using allocate_room [OF table_op_wf [OF op] hyps(1) rc hyps(2,3) m] by blast
  have "takes (gran_pages g) (units_cost g va n) s u" using takes_trans [OF tk u(2)] by (simp add: units_cost_def)
  moreover have "g = GPage \<longrightarrow> filled pt (unit_range g va n) u" using u(3) unfolding unit_range_def ub .
  ultimately show thesis using that t(1) u(1) by (simp add: reserve_allocate_at_def allocate_reserved_def)
qed

text \<open>For pages.\<close>

definition pages_cost :: "u32 \<Rightarrow> u32 \<Rightarrow> nat" where
  "pages_cost va n = length (section_chunks (va AND 0xfffff000) n) + unat n"

lemma reserve_allocate_at_room:
  assumes wf: "pt_wf pt s" and l: "unlocked pt s" and rc: "reference_counted pt"
    and r: "in_range GPage va n" and res: "reservable pt GPage va n s" and room: "room 1 (pages_cost va n + 2) s"
  obtains s' where "reserve_allocate_at pt va n GPage s = Ok (Success (unit_address GPage va)) s'"
    "spends (pages_cost va n) s s'" "filled pt (unit_range GPage va n) s'"
  using reserve_allocate_units_room [OF wf l rc _ r res] room
  by (auto simp: units_cost_def pages_cost_def takes_spends space_room)

end
