(* ===== verification/Table_Destroy.thy ===== *)
theory Table_Destroy
  imports Table_Room
begin

unbundle bit_operations_syntax

text \<open>
  The destructor of a page table, for any table: it releases one reference to each physical page for
  every virtual page mapped to it (when the table counts references) and one to each page the
  table lies in.  The nested loops are first reduced to one list of releases, which the descriptors
  determine; then the list is counted.
\<close>

subsection \<open>Lists of releases\<close>

lemma release_Ok:
  assumes "\<not> held s PageAllocLock" "frame a < npages s" "rc s (frame a) \<noteq> 0"
  shows "release a s = Ok () (release_state (frame a) s)"
  using assms by (simp add: release_def ref_release_eq frame_page_ix)

lemma release_OkD:
  assumes "release a s = Ok () t" "frame a < npages s"
  shows "only_counts s t"
proof -
  have "\<not> held s PageAllocLock" using assms(1) by (auto simp: release_def ref_release_def with_lock_def bind_ok_eq_Ok split: if_splits)
  then have "t = release_state (frame a) s"
    using assms by (auto simp: release_def ref_release_eq frame_page_ix bind_ok_eq_Ok split: if_splits)
  then show ?thesis using only_counts_release_state [OF assms(2)] by simp
qed

lemma releases_only_counts:
  "for_each release xs s = Ok () t \<Longrightarrow> \<forall>a \<in> set xs. frame a < npages s \<Longrightarrow> only_counts s t"
proof (induction xs arbitrary: s)
  case (Cons a xs)
  then obtain u where u: "release a s = Ok () u" "for_each release xs u = Ok () t" by (auto simp: bind_ok_eq_Ok)
  have su: "only_counts s u" using release_OkD [OF u(1)] Cons(3) by simp
  then have "only_counts u t" using Cons.IH [OF u(2)] Cons(3) only_counts_npages by simp
  then show ?case using only_counts_trans [OF su] by blast
qed simp

text \<open>A list that takes no more references than there are succeeds, and takes exactly these.\<close>

lemma release_list:
  assumes "pa_wf s" "\<not> held s PageAllocLock"
    and "\<And>f. f \<in> set (map frame xs) \<Longrightarrow> f < npages s \<and> count_list (map frame xs) f \<le> unat (rc s f) \<and>
      (count_list (map frame xs) f = unat (rc s f) \<longrightarrow> \<not> pinned s f)"
  shows "\<exists>t. for_each release xs s = Ok () t \<and> only_counts s t \<and> pa_wf t \<and>
    (\<forall>f < npages s. unat (rc t f) = unat (rc s f) - count_list (map frame xs) f)"
  using assms
proof (induction xs arbitrary: s)
  case Nil
  then show ?case by simp
next
  case (Cons a xs)
  let ?f = "frame a" and ?u = "release_state (frame a) s" and ?c = "count_list (map frame xs)"
  have f: "?f < npages s" "Suc (?c ?f) \<le> unat (rc s ?f)" "Suc (?c ?f) = unat (rc s ?f) \<longrightarrow> \<not> pinned s ?f"
    using Cons(4) [of ?f] by simp_all
  have nz: "rc s ?f \<noteq> 0" using f(2) by auto
  have one: "rc s ?f = 1 \<Longrightarrow> \<not> pinned s ?f" using f(2,3) by auto
  have u: "release a s = Ok () ?u" using release_Ok [OF Cons(3) f(1) nz] .
  have oc: "only_counts s ?u" using only_counts_release_state [OF f(1)] .
  have wf: "pa_wf ?u" using ref_release_wf(1) [OF Cons(2) f(1) nz one] .
  have rcu: "unat (rc ?u q) = unat (rc s q) - (if q = ?f then 1 else 0)" if "q < npages s" for q
  proof -
    have "rc ?u q = (if q = ?f then rc s ?f - 1 else rc s q)"
      using rc_release_state npages_index [OF Cons(2)] f(1) that by blast
    then show ?thesis using nz by (simp add: unat_minus_one)
  qed
  have "\<exists>t. for_each release xs ?u = Ok () t \<and> only_counts ?u t \<and> pa_wf t \<and>
      (\<forall>q < npages ?u. unat (rc t q) = unat (rc ?u q) - ?c q)"
  proof (rule Cons.IH [OF wf])
    show "\<not> held ?u PageAllocLock" using Cons(3) by simp
    fix q assume "q \<in> set (map frame xs)"
    then have q: "q < npages s \<and> count_list (map frame (a # xs)) q \<le> unat (rc s q) \<and>
        (count_list (map frame (a # xs)) q = unat (rc s q) \<longrightarrow> \<not> pinned s q)"
      using Cons(4) [of q] by simp
    then show "q < npages ?u \<and> ?c q \<le> unat (rc ?u q) \<and> (?c q = unat (rc ?u q) \<longrightarrow> \<not> pinned ?u q)"
      using rcu [of q] only_counts_pinned [OF oc] f(2) by (auto split: if_splits)
  qed
  then obtain t where t: "for_each release xs ?u = Ok () t" "only_counts ?u t" "pa_wf t"
    "\<forall>q < npages s. unat (rc t q) = unat (rc ?u q) - ?c q" by auto
  then show ?case using u only_counts_trans [OF oc t(2)] rcu by auto
qed

text \<open>A loop whose body is a list of releases, whatever counts have changed before, is one list.\<close>

lemma for_each_releases:
  assumes "\<And>x u. x \<in> set xs \<Longrightarrow> only_counts s u \<Longrightarrow> body x u = for_each release (pages x) u"
    and "\<And>x a. x \<in> set xs \<Longrightarrow> a \<in> set (pages x) \<Longrightarrow> frame a < npages s"
    and "only_counts s t"
  shows "for_each body xs t = for_each release (concat (map pages xs)) t"
  using assms
proof (induction xs arbitrary: t)
  case (Cons x xs)
  have n: "npages t = npages s" using only_counts_npages [OF Cons(4)] .
  have b: "body x t = for_each release (pages x) t" using Cons(2) Cons(4) by simp
  show ?case
  proof (cases "for_each release (pages x) t")
    case (Ok r u)
    then have "only_counts t u" using releases_only_counts [of "pages x" t u] Cons(3) n by auto
    then have "only_counts s u" using only_counts_trans [OF Cons(4)] by blast
    then have "for_each body xs u = for_each release (concat (map pages xs)) u"
      using Cons.IH Cons(2,3) by (metis list.set_intros(2))
    then show ?thesis using b Ok by (simp add: for_each_append)
  qed (simp_all add: b for_each_append)
qed simp

lemma for_each_map: "for_each f (map g xs) = for_each (\<lambda>x. f (g x)) xs"
proof (induction xs)
  case Nil
  show ?case by (rule ext) simp
next
  case (Cons x xs)
  show ?case by (rule ext) (simp add: Cons)
qed

text \<open>Words in pages that are owned do not change with the counts.\<close>

lemma only_counts_ld:
  assumes "only_counts s t" "owned s (frame a)" "aligned 2 a"
  shows "ld t a = ld s a"
  unfolding ld_def
proof (rule load32_cong)
  fix k :: nat assume "k < 4"
  then have f: "frame (a + of_nat k) = frame a" using assms(3) by (rule frame_aligned_add_word [rotated])
  show "mem t (a + of_nat k) = mem s (a + of_nat k)"
    using assms(1) owned_not_table [OF assms(2)] f unfolding only_counts_def by metis
qed

subsection \<open>What the destructor releases\<close>

definition page_releases :: "PageTable \<Rightarrow> kstate \<Rightarrow> nat \<Rightarrow> nat \<Rightarrow> u32 list" where
  "page_releases pt s i j =
     (if sle pt s i j AND 0x2 \<noteq> 0 \<and> reference_counted pt then [sle pt s i j AND 0xfffff000] else [])"

definition section_start :: "u32 \<Rightarrow> nat \<Rightarrow> u32" where
  "section_start e i = (if e AND 0x00040000 \<noteq> 0
     then (e AND 0xff000000) OR (push_bit 20 (of_nat i) AND 0x00f00000) else e AND 0xfff00000)"

definition section_releases :: "PageTable \<Rightarrow> kstate \<Rightarrow> nat \<Rightarrow> u32 list" where
  "section_releases pt s i =
     (if is_table (fle pt s i)
      then concat (map (page_releases pt s i) [0..<256]) @ [table_of (fle pt s i)]
      else if fle pt s i AND 0x3 = 2 \<and> reference_counted pt
      then map (\<lambda>k. section_start (fle pt s i) i + of_nat k * PAGE_SIZE) [0..<256]
      else [])"

definition destroy_releases :: "PageTable \<Rightarrow> kstate \<Rightarrow> u32 list" where
  "destroy_releases pt s = concat (map (section_releases pt s) [0..<nent pt]) @
     map (\<lambda>i. root pt + of_nat i * PAGE_SIZE) [0..<4]"

lemma destroy_section_releases:
  assumes wf: "pt_wf pt s" and i: "i < nent pt" and oc: "only_counts s u"
    and lt: "\<forall>a \<in> set (section_releases pt s i). frame a < npages s"
  shows "destroy_section pt i u = for_each release (section_releases pt s i) u"
proof -
  have e: "ld v (slot (get_first_level_table_address pt) i) = fle pt s i" if "only_counts s v" for v
    using only_counts_ld [OF that root_slot_owned [OF wf i]] pt_wfD(6) [OF wf]
    by (simp add: fle_def get_first_level_table_address_def)
  show ?thesis
  proof (cases "is_table (fle pt s i)")
    case True
    have d: "ld v (slot (table_of (fle pt s i)) j) = sle pt s i j" if "only_counts s v" "j < 256" for v j
      unfolding sle_def using only_counts_ld [OF that(1)] table_slot_frame [OF wf i True that(2)]
        entry_tableD(2,3) [OF wf i True] by simp
    have "for_each (destroy_page pt (table_of (fle pt s i))) [0..<256] u
        = for_each release (concat (map (page_releases pt s i) [0..<256])) u"
    proof (rule for_each_releases [OF _ _ oc])
      fix j v assume "j \<in> set [0..<256]" "only_counts s v"
      then show "destroy_page pt (table_of (fle pt s i)) j v = for_each release (page_releases pt s i j) v"
        by (cases "release (sle pt s i j AND 0xfffff000) v") (simp_all add: destroy_page_def page_releases_def d Let_def)
    next
      fix j a assume "j \<in> set [0..<256]" "a \<in> set (page_releases pt s i j)"
      then show "frame a < npages s" using lt True by (auto simp: section_releases_def)
    qed
    moreover have "for_each release [a] = release a" for a
    proof
      show "for_each release [a] v = release a v" for v by (cases "release a v") simp_all
    qed
    ultimately show ?thesis
      using True by (simp add: destroy_section_def e [OF oc] section_releases_def is_table_def for_each_append
          get_second_level_table_address_def table_of_def)
  next
    case False
    then show ?thesis
      by (simp add: destroy_section_def e [OF oc] section_releases_def is_table_def section_start_def Let_def
          ref_release_range_def for_each_map release_def [symmetric])
  qed
qed

lemma destroy_is_list:
  assumes wf: "pt_wf pt s" and lt: "\<forall>a \<in> set (destroy_releases pt s). frame a < npages s"
  shows "destroy pt s = for_each release (destroy_releases pt s) s"
proof -
  have sec: "frame a < npages s" if "i < nent pt" "a \<in> set (section_releases pt s i)" for i a
    by (rule bspec [OF lt]) (use that in \<open>auto simp: destroy_releases_def\<close>)
  have "for_each (destroy_section pt) [0..<nent pt] s
      = for_each release (concat (map (section_releases pt s) [0..<nent pt])) s"
    using sec by (intro for_each_releases [OF destroy_section_releases [OF wf]]) auto
  then show ?thesis
    by (simp add: destroy_def destroy_releases_def for_each_append for_each_map nent_def get_first_level_table_address_def)
qed

subsection \<open>Counting the list\<close>

lemma count_concat:
  "count_list (map frame (concat (map pages xs))) f = sum_list (map (\<lambda>x. count_list (map frame (pages x)) f) xs)"
  by (induction xs) simp_all

lemma card_Suc: "card {j. j < Suc n \<and> P j} = card {j. j < n \<and> P j} + (if P n then 1 else 0)"
proof -
  have "{j. j < Suc n \<and> P j} = (if P n then insert n {j. j < n \<and> P j} else {j. j < n \<and> P j})"
    by (auto simp: less_Suc_eq)
  then show ?thesis by simp
qed

lemma sum_indicator: "sum_list (map (\<lambda>j. if P j then 1 else 0) [0..<n]) = card {j. j < n \<and> P j}"
  by (induction n) (simp_all add: card_Suc)

lemma count_upt: "count_list (map h [0..<n]) f = card {k. k < n \<and> h k = f}"
  by (induction n) (simp_all add: card_Suc)

lemma card_blocks: "sum_list (map (\<lambda>i. card {j. j < 256 \<and> P (256 * i + j)}) [0..<n]) = card {p :: nat. p < 256 * n \<and> P p}"
proof (induction n)
  case (Suc n)
  have s: "{p. p < 256 * Suc n \<and> P p} = {p. p < 256 * n \<and> P p} \<union> (\<lambda>j. 256 * n + j) ` {j. j < 256 \<and> P (256 * n + j)}"
  proof (rule set_eqI)
    fix p
    have "p < 256 * Suc n \<longleftrightarrow> p < 256 * n \<or> (\<exists>j < 256. p = 256 * n + j)" by presburger
    then show "p \<in> {p. p < 256 * Suc n \<and> P p} \<longleftrightarrow>
        p \<in> {p. p < 256 * n \<and> P p} \<union> (\<lambda>j. 256 * n + j) ` {j. j < 256 \<and> P (256 * n + j)}" by auto
  qed
  have "card {p. p < 256 * Suc n \<and> P p}
      = card {p. p < 256 * n \<and> P p} + card ((\<lambda>j. 256 * n + j) ` {j. j < 256 \<and> P (256 * n + j)})"
    unfolding s by (intro card_Un_disjoint) auto
  also have "card ((\<lambda>j. 256 * n + j) ` {j. j < 256 \<and> P (256 * n + j)}) = card {j. j < 256 \<and> P (256 * n + j)}"
    by (intro card_image) (simp add: inj_on_def)
  finally show ?case using Suc by simp
qed simp

text \<open>The references a table holds to a physical page.\<close>

definition refs :: "PageTable \<Rightarrow> kstate \<Rightarrow> nat \<Rightarrow> nat" where
  "refs pt s f = (if reference_counted pt then card {p. pview pt s p = VMapped f} else 0) +
     (if f \<in> table_frames pt s then 1 else 0)"

lemma mapped_descriptor:
  assumes "plain d"
  shows "descriptor_view d = VMapped f \<longleftrightarrow> d AND 0x2 \<noteq> 0 \<and> frame d = f"
    "entry_view d p = VMapped f \<Longrightarrow> d AND 0x3 = 2"
  using assms by (auto elim!: plainE simp: descriptor_view_def entry_view_def)

lemma frame_section_start:
  assumes i: "i < 4096" and k: "k < 256" and e: "plain e" "e AND 0x3 = 2"
  shows "entry_view e (256 * i + k) = VMapped (frame (section_start e i + of_nat k * PAGE_SIZE))"
proof -
  let ?va = "of_nat i * SECTION_SIZE"
  have fva: "frame ?va = 256 * i" using frame_add_section [of 0 i] i by (simp add: frame_def)
  have "aligned 12 ?va" using aligned_mult [of 12 SECTION_SIZE "of_nat i"] by (simp add: aligned_def mult.commute)
  then have off: "unat ?va mod 4096 = 0" by (simp add: aligned_def)
  have "push_bit 20 (of_nat i :: u32) AND 0x00f00000 = ?va AND 0x00ffffff"
  proof -
    have va: "?va = push_bit 20 (of_nat i)" by (simp add: push_bit_eq_mult)
    have "aligned 20 ?va" using aligned_mult [of 20 SECTION_SIZE "of_nat i"] by (simp add: aligned_def mult.commute)
    then have k: "?va AND 0xfff00000 = ?va" unfolding not_masks by (rule aligned_and_id)
    have "(?va AND 0xfff00000) AND 0x00ffffff = ?va AND 0x00f00000" by (simp only: and.assoc) simp
    then show ?thesis by (simp only: k va [symmetric])
  qed
  then have su: "section_start e i = (if e AND 0x00040000 \<noteq> 0
     then (e AND 0xff000000) OR (?va AND 0x00ffffff) else e AND 0xfff00000)" by (simp add: section_start_def)
  have sup: "frame ((e AND 0xff000000) OR (?va AND 0x00ffffff)) = frame e div 4096 * 4096 + 256 * i mod 4096"
    using join_supersection [of e ?va] unfolding off fva by (simp add: frame_def)
  have m: "(256 * i + k) mod 4096 = 256 * i mod 4096 + k" "(256 * i + k) mod 256 = k"
  proof -
    have e: "256 * i mod 4096 = 256 * (i mod 16)" using mult_mod_right [of 256 i 16] by simp
    have "i mod 16 < 16" by simp
    then have "256 * i mod 4096 + k < 4096" unfolding e using k by linarith
    then show "(256 * i + k) mod 4096 = 256 * i mod 4096 + k"
      using mod_add_left_eq [of "256 * i" 4096 k] by (simp only: mod_less)
  qed (use k in simp)
  have st: "frame (section_start e i) = (if e AND 0x00040000 \<noteq> 0
      then frame e div 4096 * 4096 + 256 * i mod 4096 else frame e div 256 * 256)"
    unfolding su using sup by (simp add: frame_and_section)
  have "frame (section_start e i) + k < 2 ^ 20"
  proof -
    have "256 dvd 256 * i mod 4096" by (rule dvd_mod) simp_all
    moreover have "256 dvd frame e div 4096 * 4096" "256 dvd frame e div 256 * 256"
      by (rule dvd_mult, simp)+
    ultimately have "256 dvd frame (section_start e i)" unfolding st by simp
    then obtain q where q: "frame (section_start e i) = 256 * q" by (elim dvdE)
    then have "256 * q < 2 ^ 20" using frame_less [of "section_start e i"] by simp
    then show ?thesis unfolding q using k by simp
  qed
  then have "frame (section_start e i + of_nat k * PAGE_SIZE) = frame (section_start e i) + k" by (rule frame_add_page)
  moreover have "e AND 0x7 = 2" using e by (auto elim: plainE)
  ultimately show ?thesis using st m by (simp add: entry_view_def)
qed

text \<open>One entry of the first level, then all of them.\<close>

lemma count_section:
  assumes wf: "pt_wf pt s" and i: "i < nent pt"
  shows "count_list (map frame (section_releases pt s i)) f
    = (if reference_counted pt then card {j. j < 256 \<and> pview pt s (256 * i + j) = VMapped f} else 0) +
      (if is_table (fle pt s i) \<and> table_frame pt s i = f then 1 else 0)"
proof (cases "is_table (fle pt s i)")
  case True
  have one: "count_list (map frame (page_releases pt s i j)) f
      = (if reference_counted pt \<and> pview pt s (256 * i + j) = VMapped f then 1 else 0)" if "j < 256" for j
    using mapped_descriptor(1) [OF entry_tableD(5) [OF wf i True that]] i True that
    by (simp add: page_releases_def pview_table)
  have "count_list (map frame (concat (map (page_releases pt s i) [0..<256]))) f
      = sum_list (map (\<lambda>j. if reference_counted pt \<and> pview pt s (256 * i + j) = VMapped f then 1 else 0) [0..<256])"
    unfolding count_concat using one by (intro arg_cong [where f = sum_list] map_cong) simp_all
  then show ?thesis
    using True by (simp add: section_releases_def sum_indicator table_frame_def)
next
  case False
  let ?e = "fle pt s i"
  have pl: "plain ?e" using entry_plainD [OF wf i False] .
  have v: "pview pt s (256 * i + j) = entry_view ?e (256 * i + j)" if "j < 256" for j
    using i False that by (simp add: pview_section)
  show ?thesis
  proof (cases "?e AND 0x3 = 2")
    case True
    have i4: "i < 4096" using i pt_wfD(2) [OF wf] by simp
    have "pview pt s (256 * i + j) = VMapped (frame (section_start ?e i + of_nat j * PAGE_SIZE))" if "j < 256" for j
      unfolding v [OF that] by (rule frame_section_start [OF i4 that pl True])
    then have "{j. j < 256 \<and> pview pt s (256 * i + j) = VMapped f}
        = {j. j < 256 \<and> frame (section_start ?e i + of_nat j * PAGE_SIZE) = f}" by auto
    then show ?thesis
      using True False by (simp add: section_releases_def count_upt o_def del: upt_conv_Cons)
  next
    case nm: False
    have "pview pt s (256 * i + j) \<noteq> VMapped f" if "j < 256" for j
      unfolding v [OF that] using mapped_descriptor(2) [OF pl] nm by blast
    then have "{j. j < 256 \<and> pview pt s (256 * i + j) = VMapped f} = {}" by blast
    then show ?thesis using nm False by (simp add: section_releases_def)
  qed
qed

lemma mapped_below: "pview pt s p = VMapped f \<Longrightarrow> p < 256 * nent pt"
  using pview_outside [of pt s p] by (cases "nent pt \<le> p div 256") (simp_all add: div_less_iff_less_mult mult.commute)

lemma root_count:
  assumes wf: "pt_wf pt s"
  shows "count_list (map frame (map (\<lambda>i. root pt + of_nat i * PAGE_SIZE) [0..<4])) f = (if f \<in> root_frames pt then 1 else 0)"
proof -
  have "frame (root pt) + 4 \<le> 2 ^ 20"
  proof -
    have "2 ^ 2 dvd frame (root pt)" using pt_wfD(4,5) [OF wf] aligned_frame_iff [of "root pt" 2] by simp
    then obtain q where q: "frame (root pt) = 4 * q" by (auto elim: dvdE)
    then have "4 * q < 2 ^ 20" using frame_less [of "root pt"] by simp
    then show ?thesis unfolding q by simp
  qed
  then have fr: "frame (root pt + of_nat i * PAGE_SIZE) = frame (root pt) + i" if "i < 4" for i
    using that by (intro frame_add_page) simp
  have "map frame (map (\<lambda>i. root pt + of_nat i * PAGE_SIZE) [0..<4]) = map (\<lambda>i. frame (root pt) + i) [0..<4]"
    using fr by simp
  then have "count_list (map frame (map (\<lambda>i. root pt + of_nat i * PAGE_SIZE) [0..<4])) f
      = card {k. k < 4 \<and> frame (root pt) + k = f}" by (simp only: count_upt)
  moreover have "{k. k < 4 \<and> frame (root pt) + k = f} = (if f \<in> root_frames pt then {f - frame (root pt)} else {})"
    by (auto simp: root_frames_def)
  ultimately show ?thesis by simp
qed

lemma count_destroy:
  assumes wf: "pt_wf pt s"
  shows "count_list (map frame (destroy_releases pt s)) f = refs pt s f"
proof -
  let ?n = "nent pt"
  let ?V = "\<lambda>p. pview pt s p = VMapped f" and ?T = "\<lambda>i. is_table (fle pt s i) \<and> table_frame pt s i = f"
  have "count_list (map frame (concat (map (section_releases pt s) [0..<?n]))) f
      = sum_list (map (\<lambda>i. (if reference_counted pt then card {j. j < 256 \<and> ?V (256 * i + j)} else 0) +
          (if ?T i then 1 else 0)) [0..<?n])"
    unfolding count_concat using count_section [OF wf] by (intro arg_cong [where f = sum_list] map_cong) simp_all
  also have "\<dots> = (if reference_counted pt then card {p. p < 256 * ?n \<and> ?V p} else 0) + card {i. i < ?n \<and> ?T i}"
    using card_blocks [of ?V ?n] by (simp add: sum_list_addf sum_indicator)
  also have "{p. p < 256 * ?n \<and> ?V p} = {p. ?V p}" using mapped_below by blast
  also have "card {i. i < ?n \<and> ?T i} = (if f \<in> table_frame pt s ` tables pt s then 1 else 0)"
  proof (cases "f \<in> table_frame pt s ` tables pt s")
    case True
    then obtain i where i: "i < ?n" "?T i" by (auto simp: tables_def)
    have "{i. i < ?n \<and> ?T i} = {i}" using i pt_wfD(9) [OF wf] by blast
    then show ?thesis using True by simp
  next
    case False
    then have "{i. i < ?n \<and> ?T i} = {}" by (auto simp: tables_def)
    then show ?thesis using False by simp
  qed
  finally have "count_list (map frame (destroy_releases pt s)) f
      = ((if reference_counted pt then card {p. ?V p} else 0) + (if f \<in> table_frame pt s ` tables pt s then 1 else 0)) +
        (if f \<in> root_frames pt then 1 else 0)"
    using root_count [OF wf] by (simp only: destroy_releases_def map_append count_list_append)
  moreover have "f \<in> table_frames pt s \<longleftrightarrow> f \<in> root_frames pt \<or> f \<in> table_frame pt s ` tables pt s"
    by (simp add: table_frames_def tables_def)
  moreover have "\<not> (f \<in> root_frames pt \<and> f \<in> table_frame pt s ` tables pt s)"
    using entry_tableD(4) [OF wf] by (auto simp: tables_def)
  ultimately show ?thesis by (auto simp: refs_def)
qed

lemma destroy_Ok:
  assumes wf: "pt_wf pt s" and l: "\<not> held s PageAllocLock"
    and enough: "\<And>f. 0 < refs pt s f \<Longrightarrow> f < npages s \<and> refs pt s f \<le> unat (rc s f) \<and>
      (refs pt s f = unat (rc s f) \<longrightarrow> \<not> pinned s f)"
  obtains t where "destroy pt s = Ok () t" "only_counts s t" "pa_wf t"
    "\<And>f. f < npages s \<Longrightarrow> unat (rc t f) = unat (rc s f) - refs pt s f"
proof -
  have c: "count_list (map frame (destroy_releases pt s)) = refs pt s"
    using count_destroy [OF wf] by (rule ext)
  have pos: "0 < refs pt s f" if "f \<in> set (map frame (destroy_releases pt s))" for f
    using that c count_list_0_iff by (metis gr_zeroI)
  have "\<forall>a \<in> set (destroy_releases pt s). frame a < npages s" using enough pos by auto
  then have "destroy pt s = for_each release (destroy_releases pt s) s" by (rule destroy_is_list [OF wf])
  moreover obtain t where "for_each release (destroy_releases pt s) s = Ok () t" "only_counts s t" "pa_wf t"
    "\<forall>f < npages s. unat (rc t f) = unat (rc s f) - refs pt s f"
    using release_list [OF pt_wfD(1) [OF wf] l, of "destroy_releases pt s", unfolded c] enough pos by blast
  ultimately show thesis using that by simp
qed

end
