(* ===== verification/Reserver.thy ===== *)
theory Reserver
  imports Table_Search
begin

unbundle bit_operations_syntax

text \<open>
  What a client of the address space relies on: a reservation takes pages that were free, changes
  the view of no other page, and changes nothing when it fails.  Both forms of \<open>reserve\<close> keep this
  contract, at every granularity.
\<close>

locale reserver =
  fixes take :: "'s \<Rightarrow> ('s, u32 Result) outcome"
    and region :: "u32 \<Rightarrow> nat set"
    and good :: "'s \<Rightarrow> bool"
    and view :: "'s \<Rightarrow> nat \<Rightarrow> page_view"
  assumes good_kept: "good s \<Longrightarrow> take s = Ok r s' \<Longrightarrow> good s'"
    and failure_keeps: "good s \<Longrightarrow> take s = Ok Failure s' \<Longrightarrow> s' = s"
    and was_free: "good s \<Longrightarrow> take s = Ok (Success a) s' \<Longrightarrow> p \<in> region a \<Longrightarrow> view s p = VFree"
    and now_reserved: "good s \<Longrightarrow> take s = Ok (Success a) s' \<Longrightarrow>
      view s' p = (if p \<in> region a then VReserved else view s p)"
begin

text \<open>What is reserved stays reserved, and is not handed out again.\<close>

lemma reserved_stays:
  assumes "good s" "take s = Ok r s'" "view s p = VReserved"
  shows "view s' p = VReserved"
proof (cases r)
  case (Success a)
  then show ?thesis using now_reserved [of s a s' p] assms by simp
next
  case Failure
  then show ?thesis using failure_keeps [of s s'] assms by simp
qed

lemma not_handed_out:
  assumes "good s" "take s = Ok (Success a) s'" "\<forall>p \<in> P. view s p = VReserved"
  shows "P \<inter> region a = {}"
proof -
  have "view s p = VFree" if "p \<in> region a" for p using was_free [OF assms(1,2) that] .
  then show ?thesis using assms(3) by auto
qed

lemma mapped_stays:
  assumes "good s" "take s = Ok r s'"
  shows "view s' p = VMapped f \<longleftrightarrow> view s p = VMapped f"
proof (cases r)
  case (Success a)
  then show ?thesis using now_reserved [of s a s' p] was_free [of s a s' p] assms by auto
next
  case Failure
  then show ?thesis using failure_keeps [of s s'] assms by simp
qed

end

subsection \<open>The two forms of \<open>reserve\<close>\<close>

definition ready :: "PageTable \<Rightarrow> kstate \<Rightarrow> bool" where
  "ready pt s \<longleftrightarrow> pt_wf pt s \<and> unlocked pt s"

lemma reserves_ready: "reserves pt paged P s s' \<Longrightarrow> unlocked pt s \<Longrightarrow> ready pt s'"
  by (simp add: ready_def reserves_def table_op_def unlocked_def)

text \<open>The requests the code can answer: at least one unit, and pages within one section.\<close>

definition askable :: "AllocationGranularity \<Rightarrow> u32 \<Rightarrow> bool" where
  "askable g n \<longleftrightarrow> 0 < unat n \<and> (g = GPage \<longrightarrow> unat n \<le> 256)"

interpretation anywhere: reserver "reserve pt n g" "\<lambda>a. unit_range g a n"
  "\<lambda>s. ready pt s \<and> askable g n" "pview pt" for pt n g
proof
  fix s r s' a p
  assume s: "ready pt s \<and> askable g n"
  note cases = reserve_cases [of pt s n g]
  have R: "found pt g n s a s'" if "reserve pt n g s = Ok (Success a) s'" for a
    by (rule cases) (use s that in \<open>auto simp: ready_def askable_def panic_def\<close>)
  show same: "s' = s" if "reserve pt n g s = Ok Failure s'"
    by (rule cases) (use s that in \<open>auto simp: ready_def askable_def panic_def\<close>)
  show "ready pt s' \<and> askable g n" if "reserve pt n g s = Ok r s'"
  proof (cases r)
    case (Success a)
    then have "reserves pt (g = GPage) (unit_range g a n) s s'" using R [of a] that by (simp add: found_def)
    moreover have "unlocked pt s" using s by (simp add: ready_def)
    ultimately show ?thesis using reserves_ready s by blast
  next
    case Failure
    then show ?thesis using same that s by simp
  qed
  assume ok: "reserve pt n g s = Ok (Success a) s'"
  show "pview pt s p = VFree" if "p \<in> unit_range g a n"
    using R [OF ok] that by (simp add: found_def reservable_def)
  show "pview pt s' p = (if p \<in> unit_range g a n then VReserved else pview pt s p)"
    using R [OF ok] by (simp add: found_def reserves_def)
qed

interpretation at_address: reserver "reserve_at pt va n g" "\<lambda>a. unit_range g va n"
  "\<lambda>s. ready pt s \<and> in_range g va n" "pview pt" for pt va n g
proof
  fix s r s' a p
  assume s: "ready pt s \<and> in_range g va n"
  then have c: "pt_wf pt s" "unlocked pt s" "in_range g va n" by (simp_all add: ready_def)
  note cases = reserve_at_cases [OF c]
  have R: "reservable pt g va n s \<and> reserves pt (g = GPage) (unit_range g va n) s s'"
    if "reserve_at pt va n g s = Ok (Success a) s'" for a
    using cases that by (auto simp: panic_def split: if_splits)
  show same: "s' = s" if "reserve_at pt va n g s = Ok Failure s'"
    using cases that by (auto simp: panic_def split: if_splits)
  show "ready pt s' \<and> in_range g va n" if "reserve_at pt va n g s = Ok r s'"
  proof (cases r)
    case (Success a)
    then show ?thesis using R [of a] that c by (auto intro: reserves_ready)
  next
    case Failure
    then show ?thesis using same that s by simp
  qed
  assume ok: "reserve_at pt va n g s = Ok (Success a) s'"
  show "pview pt s p = VFree" if "p \<in> unit_range g va n"
    using R [OF ok] that by (simp add: reservable_def)
  show "pview pt s' p = (if p \<in> unit_range g va n then VReserved else pview pt s p)"
    using R [OF ok] by (simp add: reserves_def)
qed

end
