(* ===== verification/Table_Change.thy ===== *)
theory Table_Change
  imports Table_Destroy Table_Allocate Reserver
begin

unbundle bit_operations_syntax

text \<open>
  What every operation on one page table does to the rest of the kernel.  It leaves other tables as
  they are, keeps what is in use in use, and changes each reference count by as much as the number of
  references the table holds.  The relation composes, so it is shown for single steps and follows for
  the loops and the operations.
\<close>

subsection \<open>The relation\<close>

definition isolates :: "PageTable \<Rightarrow> kstate \<Rightarrow> kstate \<Rightarrow> bool" where
  "isolates pt s s' \<longleftrightarrow>
     (\<forall>pt2. pt_wf pt2 s \<longrightarrow> table_frames pt2 s \<inter> table_frames pt s = {} \<longrightarrow>
        pt_wf pt2 s' \<and> pview pt2 s' = pview pt2 s \<and> table_frames pt2 s' = table_frames pt2 s \<and>
        table_frames pt2 s' \<inter> table_frames pt s' = {})"

definition change :: "PageTable \<Rightarrow> kstate \<Rightarrow> kstate \<Rightarrow> bool" where
  "change pt s s' \<longleftrightarrow> pt_wf pt s' \<and> held s' = held s \<and> npages s' = npages s \<and> rtab s' = rtab s \<and>
     (\<forall>f. owned s f \<longrightarrow> owned s' f) \<and> isolates pt s s' \<and>
     (\<forall>f < npages s. unat (rc s' f) + refs pt s f = unat (rc s f) + refs pt s' f) \<and>
     (reference_counted pt \<longrightarrow>
        (\<forall>p f. pview pt s' p = VMapped f \<longrightarrow> pview pt s p = VMapped f \<or> owned s' f))"

lemma isolates_trans: "isolates pt s t \<Longrightarrow> isolates pt t u \<Longrightarrow> isolates pt s u"
  unfolding isolates_def by (metis (no_types, lifting))

lemma change_refl: "pt_wf pt s \<Longrightarrow> change pt s s"
  by (simp add: change_def isolates_def)

lemma change_trans:
  assumes a: "change pt s t" and b: "change pt t u"
  shows "change pt s u"
proof -
  note A = a [unfolded change_def] and B = b [unfolded change_def]
  have "unat (rc u f) + refs pt s f = unat (rc s f) + refs pt u f" if f: "f < npages s" for f
  proof -
    have "unat (rc t f) + refs pt s f = unat (rc s f) + refs pt t f" using A f by blast
    moreover have "unat (rc u f) + refs pt t f = unat (rc t f) + refs pt u f" using A B f by simp
    ultimately show ?thesis by linarith
  qed
  moreover have "isolates pt s u" using A B isolates_trans by blast
  moreover have "pview pt s p = VMapped f \<or> owned u f"
    if "reference_counted pt" "pview pt u p = VMapped f" for p f
    using A B that by blast
  ultimately show ?thesis using A B by (simp add: change_def)
qed

lemma refs_held [simp]: "refs pt (s\<lparr>held := h\<rparr>) = refs pt s"
  by (simp add: fun_eq_iff refs_def)

lemma change_held: "change pt (s\<lparr>held := h\<rparr>) t \<Longrightarrow> change pt s (t\<lparr>held := held s\<rparr>)"
  by (auto simp: change_def isolates_def)

lemma refs_emit [simp]: "refs pt (emit bs s) = refs pt s"
  by (simp add: fun_eq_iff refs_def)

lemma change_ready: "change pt s s' \<Longrightarrow> ready pt s \<Longrightarrow> ready pt s'"
  by (simp add: change_def ready_def unlocked_def)

lemma finite_mapped [simp]: "finite {p. pview pt s p = VMapped f}"
  by (rule finite_subset [of _ "{..<256 * nent pt}"]) (auto dest: mapped_below)

subsection \<open>Reservations\<close>

text \<open>A change of the table that maps nothing, or of a table that does not count references.\<close>

lemma change_op:
  assumes op: "table_op pt s s'"
    and v: "\<And>p f. reference_counted pt \<Longrightarrow> pview pt s' p = VMapped f \<longleftrightarrow> pview pt s p = VMapped f"
  shows "change pt s s'"
proof -
  note O = op [unfolded table_op_def]
  have m: "reference_counted pt \<Longrightarrow> {p. pview pt s' p = VMapped f} = {p. pview pt s p = VMapped f}" for f using v by blast
  have "unat (rc s' f) + refs pt s f = unat (rc s f) + refs pt s' f" if f: "f < npages s" for f
  proof (cases "f \<in> new_frames pt s s'")
    case True
    then have "f \<notin> table_frames pt s" "f \<in> table_frames pt s'" by (simp_all add: new_frames_def)
    then have "refs pt s' f = refs pt s f + 1" by (simp add: refs_def m)
    moreover have "rc s f = 0" "rc s' f = 1" using O True by simp_all
    ultimately show ?thesis by simp
  next
    case False
    then have "f \<in> table_frames pt s' \<longleftrightarrow> f \<in> table_frames pt s" using O by (auto simp: new_frames_def)
    then have "refs pt s' f = refs pt s f" by (simp add: refs_def m)
    moreover have "rc s' f = rc s f" using O False f by simp
    ultimately show ?thesis by simp
  qed
  moreover have "isolates pt s s'"
    unfolding isolates_def by (intro allI impI conjI ext) (rule table_op_isolated [OF op]; assumption)+
  ultimately show ?thesis using O v by (simp add: change_def)
qed

lemma change_reserves:
  assumes r: "reserves pt paged P s s'" and free: "\<forall>p \<in> P. pview pt s p = VFree"
  shows "change pt s s'"
  by (rule change_op [OF reserves_op [OF r]]) (use r free in \<open>auto simp: reserves_def\<close>)

lemma change_reserve:
  assumes r: "ready pt s" and ask: "askable g n" and ok: "reserve pt n g s = Ok r s'"
  shows "change pt s s'"
proof (cases r)
  case (Success a)
  have "found pt g n s a s'"
    by (rule reserve_cases [of pt s n g]) (use assms Success in \<open>auto simp: ready_def askable_def panic_def\<close>)
  then show ?thesis using change_reserves by (auto simp: found_def reservable_def)
next
  case Failure
  then show ?thesis using anywhere.failure_keeps [of pt s g n s'] assms change_refl by (simp add: ready_def)
qed

lemma change_reserve_at:
  assumes r: "ready pt s" and ran: "in_range g va n" and ok: "reserve_at pt va n g s = Ok r s'"
  shows "change pt s s'"
proof (cases r)
  case (Success a)
  then have "reservable pt g va n s \<and> reserves pt (g = GPage) (unit_range g va n) s s'"
    using reserve_at_cases [of pt s g va n] assms by (auto simp: ready_def panic_def split: if_splits)
  then show ?thesis using change_reserves by (auto simp: reservable_def)
next
  case Failure
  then show ?thesis using at_address.failure_keeps [of pt s g va n s'] assms change_refl by (simp add: ready_def)
qed

subsection \<open>Mapping\<close>

text \<open>Pages that become mapped, each to a physical page of its own, are one more reference each.\<close>

lemma mapped_refs:
  assumes frames: "table_frames pt u = table_frames pt s"
    and v: "\<And>p. pview pt u p = (if p \<in> P then VMapped (h p) else pview pt s p)"
    and old: "\<And>p. p \<in> P \<Longrightarrow> pview pt s p = VReserved" and inj: "inj_on h P"
  shows "refs pt u f = refs pt s f + (if reference_counted pt \<and> f \<in> h ` P then 1 else 0)"
proof -
  let ?N = "{p \<in> P. h p = f}" and ?O = "{p. pview pt s p = VMapped f}"
  have "{p. pview pt u p = VMapped f} = ?N \<union> ?O" "?N \<inter> ?O = {}" using old by (auto simp: v)
  moreover have "finite ?N" by (rule finite_subset [OF _ finite_mapped [of pt u f]]) (auto simp: v)
  ultimately have "card {p. pview pt u p = VMapped f} = card ?N + card ?O" by (simp add: card_Un_disjoint)
  moreover have "card ?N = (if f \<in> h ` P then 1 else 0)"
  proof (cases "f \<in> h ` P")
    case True
    then obtain p where p: "p \<in> P" "h p = f" by blast
    then have "?N = {p}" using inj by (auto dest: inj_onD)
    then show ?thesis using True by simp
  next
    case False
    then have "?N = {}" by blast
    then show ?thesis by (simp only: card.empty False if_False)
  qed
  ultimately show ?thesis by (simp add: refs_def frames)
qed

lemma commits_frames:
  assumes wf: "pt_wf pt s" and op: "table_op pt s s'" and bp: "\<And>p. by_page pt s' p = by_page pt s p"
  shows "table_frames pt s' = table_frames pt s"
proof (rule sym, rule card_subset_eq)
  have "tables pt s' = tables pt s"
  proof -
    have "i \<in> tables pt s' \<longleftrightarrow> i \<in> tables pt s" for i
      using bp [of "256 * i"] by (simp add: tables_def by_page_def)
    then show ?thesis by blast
  qed
  then show "card (table_frames pt s) = card (table_frames pt s')"
    using card_table_frames [OF wf] card_table_frames [OF table_op_wf [OF op]] by simp
  show "finite (table_frames pt s')" by (simp add: table_frames_def root_frames_def)
  show "table_frames pt s \<subseteq> table_frames pt s'" using op by (simp add: table_op_def)
qed

lemma unit_frames:
  assumes r: "gran_pages g dvd frame r"
  shows "inj_on (unit_frame g r) (unit_pages g p0)" "unit_frame g r ` unit_pages g p0 = {frame r..<frame r + gran_pages g}"
proof -
  let ?G = "gran_pages g"
  show "inj_on (unit_frame g r) (unit_pages g p0)"
  proof (rule inj_onI)
    fix p q assume "p \<in> unit_pages g p0" "q \<in> unit_pages g p0" "unit_frame g r p = unit_frame g r q"
    then have "p div ?G = q div ?G" "p mod ?G = q mod ?G" by (simp_all add: unit_pages_def unit_frame_fresh [OF r])
    then show "p = q" by (metis div_mult_mod_eq)
  qed
  show "unit_frame g r ` unit_pages g p0 = {frame r..<frame r + ?G}"
  proof
    show "unit_frame g r ` unit_pages g p0 \<subseteq> {frame r..<frame r + ?G}" by (auto simp: unit_frame_fresh [OF r])
    show "{frame r..<frame r + ?G} \<subseteq> unit_frame g r ` unit_pages g p0"
    proof
      fix f assume f: "f \<in> {frame r..<frame r + ?G}"
      let ?d = "f - frame r"
      have d: "?d < ?G" "f = frame r + ?d" using f by auto
      have "(p0 div ?G * ?G + ?d) div ?G = p0 div ?G" "(p0 div ?G * ?G + ?d) mod ?G = ?d"
        using d(1) by (simp_all del: add_diff_assoc)
      then have "p0 div ?G * ?G + ?d \<in> unit_pages g p0" "f = unit_frame g r (p0 div ?G * ?G + ?d)"
        using d(2) by (simp_all add: unit_frame_fresh [OF r] unit_pages_def)
      then show "f \<in> unit_frame g r ` unit_pages g p0" by blast
    qed
  qed
qed

subsection \<open>Allocation\<close>

text \<open>A block from the allocator.\<close>

lemma fresh_block:
  assumes wf: "pa_wf s" and dv: "gran_pages g dvd npages s" and al: "alloc (get_allocation_pages g) s = Ok r t"
    and f: "frame r \<le> f" "f < frame r + gran_pages g"
  shows "rc s f = 0" "rc t f = 1" "f < npages s" "\<not> owned s f" "owned t f"
proof -
  have szd: "unat (get_allocation_pages g) dvd npages s" using dv by (simp add: gran_pages_word)
  obtain e where e: "allocatable s (get_allocation_pages g) e" "r = of_nat e * PAGE_SIZE"
    "t = alloc_state (get_allocation_pages g) e s"
    using alloc_OkD [OF wf allocation_size szd al] by metis
  have fe: "frame r = e" using e(2) allocatable_range(5) [OF e(1)] by simp
  have ef: "e \<le> f" "f < e + unat (get_allocation_pages g)" using f fe by (simp_all add: gran_pages_word)
  show "rc s f = 0" using allocatable_free(1) [OF e(1)] ef by simp
  show n: "f < npages s" using allocatable_range(4) [OF e(1)] ef by simp
  show "rc t f = 1" using alloc_keeps(6) [OF wf allocation_size szd al n] f by (simp add: gran_pages_word)
  show "\<not> owned s f" using allocatable_not_owned [OF e(1)] ef by simp
  show "owned t f" using owned_alloc_state [OF e(1)] ef e(3) by simp
qed

lemma change_commit:
  assumes wf: "pt_wf pt s" and rcd: "reference_counted pt" and dv: "gran_pages g dvd npages s"
    and al: "alloc (get_allocation_pages g) s = Ok r t"
    and com: "committable pt g p0 s" and c: "commits pt g p0 r t u"
  shows "change pt s u"
proof -
  let ?B = "\<lambda>f. frame r \<le> f \<and> f < frame r + gran_pages g"
  have szd: "unat (get_allocation_pages g) dvd npages s" using dv by (simp add: gran_pages_word)
  have sv: "serves (get_allocation_pages g) s" using pt_wfD(1) [OF wf] szd by (simp add: serves_def)
  note prov = alloc_is_provider [OF allocation_size [of g]]
  note keep = alloc_keeps_table [OF _ allocation_size szd al]
  note ak = alloc_keeps [OF pt_wfD(1) [OF wf] allocation_size szd al]
  note blk = fresh_block [OF pt_wfD(1) [OF wf] dv al]
  have r: "gran_pages g dvd frame r" using page_provider.fresh_aligned [OF prov sv al] by (simp add: gran_pages_word)
  have op: "table_op pt t u" and bp: "\<And>p. by_page pt u p = by_page pt t p" using c by (simp_all add: commits_def)
  note O = op [unfolded table_op_def]
  have frames: "table_frames pt u = table_frames pt t" by (rule commits_frames [OF keep(1) [OF wf] op bp])
  have rc: "rc u f = rc t f" if "f < npages t" for f using O frames that by (simp add: new_frames_def)
  have v: "pview pt u p = (if p \<in> unit_pages g p0 then VMapped (unit_frame g r p) else pview pt s p)" for p
    using c keep(2) [OF wf] by (simp add: commits_def)
  have "refs pt u f = refs pt s f + (if reference_counted pt \<and> f \<in> unit_frame g r ` unit_pages g p0 then 1 else 0)" for f
    by (rule mapped_refs [OF _ v]) (use frames keep(4) [OF wf] com unit_frames(1) [OF r] in \<open>simp_all add: committable_def\<close>)
  then have refs: "refs pt u f = refs pt s f + (if ?B f then 1 else 0)" for f using rcd by (simp add: unit_frames(2) [OF r])
  have "unat (rc u f) + refs pt s f = unat (rc s f) + refs pt u f" if f: "f < npages s" for f
    using rc [of f] ak(3) ak(6) [OF f] blk(1,2) [of f] f by (auto simp: refs gran_pages_word)
  moreover have "isolates pt s u"
    unfolding isolates_def
  proof (intro allI impI)
    fix pt2 assume pt2: "pt_wf pt2 s" "table_frames pt2 s \<inter> table_frames pt s = {}"
    note k2 = keep [OF pt2(1)]
    have ap: "table_frames pt2 t \<inter> table_frames pt t = {}" using pt2(2) k2(4) keep(4) [OF wf] by simp
    note iso = table_op_isolated [OF op k2(1) ap]
    show "pt_wf pt2 u \<and> pview pt2 u = pview pt2 s \<and> table_frames pt2 u = table_frames pt2 s \<and>
        table_frames pt2 u \<inter> table_frames pt u = {}"
      using iso k2 by (simp add: fun_eq_iff)
  qed
  moreover have "owned u f" if "owned s f \<or> ?B f" for f
    using that page_provider.owned_kept [OF prov sv al] blk(5) O by blast
  moreover have "?B (unit_frame g r p)" if "p \<in> unit_pages g p0" for p
    using unit_frames(2) [OF r, of p0] that by (metis atLeastLessThan_iff imageI)
  ultimately show ?thesis
    using O ak(1,3,4) by (simp add: change_def v)
qed

text \<open>A block given back after a commit that failed.\<close>

lemma change_returned:
  assumes wf: "pt_wf pt s" and dv: "gran_pages g dvd npages s" and l: "\<not> held s PageAllocLock"
    and al: "alloc (get_allocation_pages g) s = Ok r t"
  obtains u where "ref_release_range r (get_allocation_pages g) (emit bs t) = Ok () u" "change pt s u"
proof -
  let ?B = "\<lambda>f. frame r \<le> f \<and> f < frame r + gran_pages g" and ?t = "emit bs t"
  have szd: "unat (get_allocation_pages g) dvd npages s" using dv by (simp add: gran_pages_word)
  have sv: "serves (get_allocation_pages g) s" using pt_wfD(1) [OF wf] szd by (simp add: serves_def)
  note prov = alloc_is_provider [OF allocation_size [of g]]
  note ak = alloc_keeps [OF pt_wfD(1) [OF wf] allocation_size szd al]
  note blk = fresh_block [OF pt_wfD(1) [OF wf] dv al]
  have pa: "pa_wf ?t" using page_provider.inv_kept [OF prov sv al] by (simp add: serves_def)
  have ix: "page_ix r = frame r" by (simp add: page_ix_def frame_def)
  have "frame r + (gran_pages g - 1) < npages s" using gran_pages_pos [of g] by (intro blk(3)) linarith+
  then have "frame r + gran_pages g \<le> npages s" using gran_pages_pos [of g] by linarith
  then have last: "page_ix r + unat (get_allocation_pages g) \<le> npages ?t" using ak(3) by (simp add: ix gran_pages_word)
  have l': "\<not> held ?t PageAllocLock" using ak(1) l by simp
  have ok: "rc ?t q \<noteq> 0 \<and> (rc ?t q = 1 \<longrightarrow> \<not> pinned ?t q)"
    if "page_ix r \<le> q" "q < page_ix r + unat (get_allocation_pages g)" for q
    using blk(5) [of q] that by (simp add: ix gran_pages_word owned_def used_def)
  obtain u where u: "ref_release_range r (get_allocation_pages g) ?t = Ok () u" "only_counts ?t u" "pa_wf u"
    "\<And>q. q < npages ?t \<Longrightarrow> rc u q
      = (if page_ix r \<le> q \<and> q < page_ix r + unat (get_allocation_pages g) then rc ?t q - 1 else rc ?t q)"
    using ref_release_range_Ok [OF pa l' last ok] by blast
  have n: "npages u = npages s" using only_counts_npages [OF u(2)] ak(3) by simp
  have rt: "rtab u = rtab s" using u(2) ak(4) by (simp add: only_counts_def)
  have rc: "rc u f = rc s f" if "f < npages s" for f
    using u(4) [of f] that ak(3) ak(6) [OF that] blk(1) [of f] by (auto simp: ix gran_pages_word)
  have own: "owned u f \<longleftrightarrow> owned s f" for f
    using rc [of f] n pinned_cong [OF rt n, of f] by (auto simp: owned_def used_def)
  have word: "ld u a = ld s a" if "owned s (frame a)" "aligned 2 a" for a
  proof -
    have "owned ?t (frame a)" using page_provider.owned_kept [OF prov sv al that(1)] by simp
    then have "ld u a = ld ?t a" by (rule only_counts_ld [OF u(2) _ that(2)])
    also have "ld ?t a = ld s a"
      unfolding ld_def using page_provider.word_kept [OF prov sv al that(2,1)] by simp
    finally show ?thesis .
  qed
  have keep: "pt_wf pt2 u" "pview pt2 u = pview pt2 s" "table_frames pt2 u = table_frames pt2 s"
    if "pt_wf pt2 s" for pt2
    using words_keep_table [OF that u(3)] own word table_frames_owned [OF that] by auto
  have "change pt s u"
    using keep keep [OF wf] u(2) ak(1) n rt rc own by (auto simp: change_def isolates_def refs_def only_counts_def)
  then show thesis using that u(1) by blast
qed

text \<open>So allocation ends for any range, and whatever it returns it is a change of its table alone.\<close>

lemma allocate_unit_cases:
  assumes wf: "pt_wf pt s" and rcd: "reference_counted pt" and dv: "gran_pages g dvd npages s" and l: "\<not> held s PageAllocLock"
  obtains b s' where "allocate_unit pt va g i s = Ok b s'" "change pt s s'"
  | t where "allocate_unit pt va g i s = panic OutOfMemory t"
proof -
  let ?va = "va + of_nat i * get_allocation_pages g * PAGE_SIZE"
  have szd: "unat (get_allocation_pages g) dvd npages s" using dv by (simp add: gran_pages_word)
  consider r t where "alloc (get_allocation_pages g) s = Ok r t" | t where "alloc (get_allocation_pages g) s = panic OutOfMemory t"
    using alloc_Ok_or_panic [OF pt_wfD(1) [OF wf] allocation_size szd l] by blast
  then show thesis
  proof cases
    case (1 r t)
    note keep = alloc_keeps_table [OF wf allocation_size szd 1]
    show thesis
    proof (cases "committable pt g (frame ?va) t")
      case True
      then obtain u where u: "commit pt g ?va r t = (True, u)" "commits pt g (frame ?va) r t u"
        using commit_spec [OF keep(1), of g ?va r] by auto
      have "committable pt g (frame ?va) s" using True by (simp add: committable_def keep(2,3))
      then have "change pt s u" by (rule change_commit [OF wf rcd dv 1 _ u(2)])
      then show thesis using that(1) [of True u] u(1) by (simp add: allocate_unit_def 1 Let_def)
    next
      case False
      then have c: "commit pt g ?va r t = (False, t)" using commit_spec [OF keep(1), of g ?va r] by auto
      obtain u where "ref_release_range r (get_allocation_pages g) (emit (line_of ''failure'') t) = Ok () u" "change pt s u"
        by (rule change_returned [OF wf dv l 1])
      then show thesis using that(1) [of False u] c by (simp add: allocate_unit_def 1 Let_def)
    qed
  next
    case 2
    then show thesis using that(2) by (simp add: allocate_unit_def)
  qed
qed

lemma allocate_loop_cases:
  assumes "pt_wf pt s" "reference_counted pt" "gran_pages g dvd npages s" "\<not> held s PageAllocLock"
  shows "(\<exists>b s'. while_ok (allocate_unit pt va g) is s = Ok b s' \<and> change pt s s') \<or>
    (\<exists>t. while_ok (allocate_unit pt va g) is s = panic OutOfMemory t)"
  using assms
proof (induction "is" arbitrary: s)
  case Nil
  then show ?case by (intro disjI1 exI [of _ True] exI [of _ s]) (simp add: change_refl)
next
  case (Cons i "is")
  show ?case
  proof (rule allocate_unit_cases [OF Cons.prems, of va i])
    fix b t assume t: "allocate_unit pt va g i s = Ok b t" "change pt s t"
    show ?thesis
    proof (cases b)
      case True
      have "pt_wf pt t" "gran_pages g dvd npages t" "\<not> held t PageAllocLock" using t(2) Cons.prems by (simp_all add: change_def)
      then show ?thesis using Cons.IH [of t] Cons.prems(2) t True change_trans [OF t(2)] by (auto simp: panic_def)
    next
      case False
      then show ?thesis using t by auto
    qed
  qed (simp, blast)
qed

lemma allocate_change:
  assumes r: "ready pt s" and rcd: "reference_counted pt" and dv: "gran_pages g dvd npages s"
  shows "(\<exists>b s'. allocate pt va n g s = Ok b s' \<and> change pt s s') \<or> (\<exists>t. allocate pt va n g s = panic OutOfMemory t)"
proof -
  have l: "unlocked pt s" and wf: "pt_wf pt (locked pt s)" using r by (simp_all add: ready_def locked_def)
  have nl: "\<not> held (locked pt s) PageAllocLock" using l by (simp add: unlocked_def locked_def pt_lock_def)
  have dv': "gran_pages g dvd npages (locked pt s)" using dv by (simp add: locked_def)
  let ?body = "while_ok (allocate_unit pt va g) [0..<unat n]"
  have a: "allocate pt va n g s = with_lock (pt_lock pt) ?body s" using rcd by (simp add: allocate_def)
  consider b t where "?body (locked pt s) = Ok b t" "change pt (locked pt s) t"
    | t where "?body (locked pt s) = panic OutOfMemory t"
    using allocate_loop_cases [OF wf rcd dv' nl] by blast
  then show ?thesis
  proof cases
    case (1 b t)
    have "held t = (held s)(pt_lock pt := True)" using 1(2) by (simp add: change_def locked_def)
    then have "with_lock (pt_lock pt) ?body s = Ok b (t\<lparr>held := held s\<rparr>)"
      using 1(1) l by (intro with_lock_run) (simp_all add: unlocked_def locked_def)
    moreover have "change pt s (t\<lparr>held := held s\<rparr>)" using 1(2) unfolding locked_def by (rule change_held)
    ultimately show ?thesis unfolding a by blast
  next
    case (2 t)
    then show ?thesis unfolding a using with_pt_lock_panic [OF l, of ?body] by blast
  qed
qed

subsection \<open>Mapping given pages\<close>

lemma only_counts_keeps:
  assumes oc: "only_counts s t" and pa: "pa_wf t" and own: "\<And>f. f \<in> table_frames pt s \<Longrightarrow> owned t f" and wf: "pt_wf pt s"
  shows "pt_wf pt t" "pview pt t = pview pt s" "table_frames pt t = table_frames pt s"
proof -
  have "ld t a = ld s a" if "frame a \<in> table_frames pt s" "aligned 2 a" for a
    by (rule only_counts_ld [OF oc table_frames_owned [OF wf that(1)] that(2)])
  note keep = words_keep_table [OF wf pa own this]
  show "pt_wf pt t" "pview pt t = pview pt s" "table_frames pt t = table_frames pt s" by (simp_all only: keep)
qed

text \<open>\<open>map\<close> takes a reference to each page, if the table counts them.\<close>

definition may_map :: "PageTable \<Rightarrow> u32 \<Rightarrow> u32 \<Rightarrow> u32 \<Rightarrow> AllocationGranularity \<Rightarrow> kstate \<Rightarrow> bool" where
  "may_map pt va pa n g s \<longleftrightarrow> 0 < unat n \<and> in_range g va n \<and> in_range g pa n \<and> mappable pt g (unit_base g va) (unat n) s \<and>
     (reference_counted pt \<longrightarrow> gran_pages g dvd frame pa \<and> (\<forall>f \<in> unit_range g pa n. owned s f \<and> rc s f \<noteq> 255))"

lemma unat_Suc8: "c \<noteq> 255 \<Longrightarrow> unat (c + 1) = unat c + 1" for c :: u8
proof -
  assume c: "c \<noteq> 255"
  have "1 + c \<noteq> 0"
  proof
    assume "1 + c = 0"
    then have "c = - 1" by (simp add: add_eq_0_iff)
    then show False using c by simp
  qed
  then have "unat (1 + c) = Suc (unat c)" by (rule unatSuc)
  then show ?thesis by (simp add: add.commute)
qed

lemma unit_count_word: "in_range g va n \<Longrightarrow> unat (n * get_allocation_pages g) = unat n * gran_pages g"
  by (subst unat_mult32) (simp_all add: in_range_def gran_pages_word)

lemma maps_refs:
  assumes wf: "pt_wf pt s" and m: "mappable pt g A n s" and t: "maps pt g A B n s t"
  shows "table_frames pt t = table_frames pt s" "f < npages s \<Longrightarrow> rc t f = rc s f"
    "refs pt t f = refs pt s f + (if reference_counted pt \<and> B \<le> f \<and> f < B + n * gran_pages g then 1 else 0)"
proof -
  let ?N = "n * gran_pages g"
  have op: "table_op pt s t" and bp: "\<And>p. by_page pt t p = by_page pt s p"
    and v: "\<And>p. pview pt t p = (if p \<in> {A..<A + ?N} then VMapped (B + (p - A)) else pview pt s p)"
    using t by (simp_all add: maps_def)
  show frames: "table_frames pt t = table_frames pt s" by (rule commits_frames [OF wf op bp])
  show "rc t f = rc s f" if "f < npages s" using op frames that by (simp add: table_op_def new_frames_def)
  have img: "(\<lambda>p. B + (p - A)) ` {A..<A + ?N} = {B..<B + ?N}"
  proof
    show "{B..<B + ?N} \<subseteq> (\<lambda>p. B + (p - A)) ` {A..<A + ?N}"
    proof
      fix f assume "f \<in> {B..<B + ?N}"
      then have "f = B + (A + (f - B) - A)" "A + (f - B) \<in> {A..<A + ?N}" by auto
      then show "f \<in> (\<lambda>p. B + (p - A)) ` {A..<A + ?N}" by (rule image_eqI)
    qed
  qed auto
  have "refs pt t f = refs pt s f + (if reference_counted pt \<and> f \<in> {B..<B + ?N} then 1 else 0)"
    unfolding img [symmetric]
    by (rule mapped_refs [OF frames v]) (use m in \<open>auto simp: mappable_def intro!: inj_onI\<close>)
  then show "refs pt t f = refs pt s f + (if reference_counted pt \<and> B \<le> f \<and> f < B + ?N then 1 else 0)" by simp
qed

lemma maps_change:
  assumes wf: "pt_wf pt s" and l: "\<not> held s PageAllocLock" and m: "may_map pt va pa n g s"
    and t: "maps pt g (unit_base g va) (unit_base g pa) (unat n) s t"
  obtains u where "(if reference_counted pt then bind_ok (ref_acquire_range pa (n * get_allocation_pages g) t) (\<lambda>_. Ok True)
      else Ok True t) = Ok True u" "change pt s u" "pview pt u = pview pt t"
    "\<And>f. f < npages s \<Longrightarrow> rc u f = rc s f + (if reference_counted pt \<and> f \<in> unit_range g pa n then 1 else 0)"
proof -
  let ?A = "unit_base g va" and ?B = "unit_base g pa" and ?N = "unat n * gran_pages g"
  let ?R = "reference_counted pt"
  have op: "table_op pt s t"
    and v: "\<And>p. pview pt t p = (if p \<in> {?A..<?A + ?N} then VMapped (?B + (p - ?A)) else pview pt s p)"
    using t by (simp_all add: maps_def)
  note O = op [unfolded table_op_def]
  have m1: "mappable pt g ?A (unat n) s" using m by (simp add: may_map_def)
  note R = maps_refs [OF wf m1 t]
  have iso: "isolates pt s t"
    unfolding isolates_def by (intro allI impI conjI ext) (rule table_op_isolated [OF op]; assumption)+
  show thesis
  proof (cases ?R)
    case False
    then have "change pt s t" using O iso R(2,3) by (simp add: change_def)
    then show thesis using that False R(2) by simp
  next
    case True
    have al: "gran_pages g dvd frame pa" and tgt: "\<And>f. f \<in> {?B..<?B + ?N} \<Longrightarrow> owned s f \<and> rc s f \<noteq> 255"
      using m True by (simp_all add: may_map_def unit_range_def)
    have ix: "page_ix pa = ?B" using al by (simp add: page_ix_def frame_def unit_base_def)
    have N: "unat (n * get_allocation_pages g) = ?N" using m by (intro unit_count_word [of g va]) (simp add: may_map_def)
    have pos: "0 < ?N" using m by (simp add: may_map_def)
    then have "owned s (?B + (?N - 1))" by (intro conjunct1 [OF tgt]) simp
    then have "?B + ?N \<le> npages s" using owned_less pos by fastforce
    then have last: "page_ix pa + unat (n * get_allocation_pages g) \<le> npages t" using O by (simp add: ix N)
    have free: "\<not> held t PageAllocLock" using O l by simp
    have ok: "rc t q \<noteq> 0 \<and> rc t q \<noteq> 255" if "page_ix pa \<le> q" "q < page_ix pa + unat (n * get_allocation_pages g)" for q
      using tgt [of q] R(2) [of q] that by (simp add: ix N owned_def used_def)
    have pat: "pa_wf t" using O pt_wfD(1) by blast
    obtain u where u: "ref_acquire_range pa (n * get_allocation_pages g) t = Ok () u" "only_counts t u" "pa_wf u" "used u = used t"
      "\<And>q. q < npages t \<Longrightarrow> rc u q
        = (if page_ix pa \<le> q \<and> q < page_ix pa + unat (n * get_allocation_pages g) then rc t q + 1 else rc t q)"
      using ref_acquire_range_Ok [OF pat free last ok] by blast
    have own: "owned u f \<longleftrightarrow> owned t f" for f using u(4) only_counts_pinned [OF u(2)] by (simp add: owned_def)
    have keep: "pt_wf pt2 u" "pview pt2 u = pview pt2 t" "table_frames pt2 u = table_frames pt2 t" if "pt_wf pt2 t" for pt2
      using only_counts_keeps [OF u(2,3) _ that] own table_frames_owned [OF that] by simp_all
    have ku: "pt_wf pt u" "pview pt u = pview pt t" "table_frames pt u = table_frames pt t" using keep O by blast+
    have "unat (rc u f) + refs pt s f = unat (rc s f) + refs pt u f" if f: "f < npages s" for f
    proof -
      have "refs pt u f = refs pt t f" by (simp add: refs_def ku)
      moreover have "rc t f = rc s f" by (rule R(2) [OF f])
      moreover have "unat (rc s f + 1) = unat (rc s f) + 1" if "?B \<le> f" "f < ?B + ?N"
        using tgt [of f] that by (intro unat_Suc8) simp
      ultimately show ?thesis using u(5) [of f] f O True by (simp add: R(3) ix N)
    qed
    moreover have "isolates pt t u"
      using keep ku by (simp add: isolates_def)
    then have "isolates pt s u" by (rule isolates_trans [OF iso])
    moreover have "owned u f" if "owned s f" for f using own O that by simp
    moreover have "pview pt s p = VMapped f \<or> owned u f" if "pview pt u p = VMapped f" for p f
    proof (cases "p \<in> {?A..<?A + ?N}")
      case True
      then have "f = ?B + (p - ?A)" using that by (simp only: ku v if_True page_view.inject)
      then have "f \<in> {?B..<?B + ?N}" using True by auto
      then show ?thesis using tgt own O by blast
    next
      case False
      then show ?thesis using that by (simp only: ku v if_False simp_thms)
    qed
    ultimately have c: "change pt s u" using ku u(2) O only_counts_npages [OF u(2)] by (simp add: change_def only_counts_def)
    have "rc u f = rc s f + (if ?R \<and> f \<in> unit_range g pa n then 1 else 0)" if "f < npages s" for f
      using u(5) [of f] R(2) [OF that] that O True by (simp add: ix N unit_range_def)
    then show thesis using that True u(1) ku(2) c by simp
  qed
qed

lemma map_units_change:
  assumes r: "ready pt s" and m: "may_map pt va pa n g s"
  obtains s' where "map_units pt va pa n g s = Ok True s'" "change pt s s'"
    "\<And>p. pview pt s' p = (if p \<in> unit_range g va n then VMapped (unit_base g pa + (p - unit_base g va)) else pview pt s p)"
    "\<And>f. f < npages s \<Longrightarrow> rc s' f = rc s f + (if reference_counted pt \<and> f \<in> unit_range g pa n then 1 else 0)"
proof -
  have l: "unlocked pt s" and wf: "pt_wf pt (locked pt s)" using r by (simp_all add: ready_def locked_def)
  have m': "may_map pt va pa n g (locked pt s)" using m by (simp add: may_map_def mappable_def locked_def)
  have nl: "\<not> held (locked pt s) PageAllocLock" using l by (simp add: unlocked_def locked_def pt_lock_def)
  let ?body = "\<lambda>s. bind_ok (while_ok (map_unit pt va pa g) [0..<unat n] s)
       (\<lambda>success s. if \<not> success then Ok False s
          else if reference_counted pt
            then bind_ok (ref_acquire_range pa (n * get_allocation_pages g) s) (\<lambda>_. Ok True)
            else Ok True s)"
  obtain t where t: "while_ok (map_unit pt va pa g) [0..<unat n] (locked pt s) = Ok True t"
    "maps pt g (unit_base g va) (unit_base g pa) (unat n) (locked pt s) t"
    using map_loop [OF wf, of g va "unat n" pa "unat n"] m' by (auto simp: may_map_def in_range_def)
  obtain u where u: "(if reference_counted pt then bind_ok (ref_acquire_range pa (n * get_allocation_pages g) t) (\<lambda>_. Ok True)
      else Ok True t) = Ok True u" "change pt (locked pt s) u" "pview pt u = pview pt t"
    "\<And>f. f < npages s \<Longrightarrow> rc u f = rc s f + (if reference_counted pt \<and> f \<in> unit_range g pa n then 1 else 0)"
    by (rule maps_change [OF wf nl m' t(2)]) (simp add: locked_def)
  have "held u = (held s)(pt_lock pt := True)" using u(2) by (simp add: change_def locked_def)
  then have "with_lock (pt_lock pt) ?body s = Ok True (u\<lparr>held := held s\<rparr>)"
    using t(1) u(1) l by (intro with_lock_run) (simp_all add: unlocked_def locked_def)
  moreover have "change pt s (u\<lparr>held := held s\<rparr>)" using u(2) unfolding locked_def by (rule change_held)
  ultimately show thesis
    using that t(2) u(3,4) by (simp add: map_units_def maps_def unit_range_def)
qed

text \<open>A unit that is not reserved ends the loop: what was mapped stays, and no reference is taken.\<close>

lemma map_stops:
  assumes r: "ready pt s" and ran: "in_range g va n" "in_range g pa n" and k: "k < unat n"
    and m: "mappable pt g (unit_base g va) k s" and bad: "\<not> committable pt g (frame va + k * gran_pages g) s"
  obtains s' where "map_units pt va pa n g s = Ok False s'"
    "maps pt g (unit_base g va) (unit_base g pa) k s s'"
proof -
  let ?G = "gran_pages g" and ?va = "va + of_nat k * get_allocation_pages g * PAGE_SIZE"
  have l: "unlocked pt s" and wf: "pt_wf pt (locked pt s)" using r by (simp_all add: ready_def locked_def)
  have m': "mappable pt g (unit_base g va) k (locked pt s)" using m by (simp add: mappable_def)
  have le: "unit_base g va + k * ?G \<le> 2 ^ 20" "unit_base g pa + k * ?G \<le> 2 ^ 20"
    using ran add_le_mono [OF order_refl mult_le_mono1 [OF less_imp_le [OF k], of ?G]] unfolding in_range_def
    by (meson le_trans)+
  obtain t where t: "while_ok (map_unit pt va pa g) [0..<k] (locked pt s) = Ok True t"
    "maps pt g (unit_base g va) (unit_base g pa) k (locked pt s) t"
    using map_loop [OF wf m' le order_refl] by blast
  have fv: "frame ?va = frame va + k * ?G" using unit_offset [of g va "unat n" k] ran(1) k by (simp add: in_range_def)
  have up: "unit_pages g (frame ?va) = {unit_base g va + k * ?G..<unit_base g va + Suc k * ?G}"
    unfolding fv by (rule unit_pages_offset)
  have "committable pt g (frame ?va) t = committable pt g (frame ?va) s"
    using t(2) unfolding committable_def up maps_def by auto
  then have "\<not> committable pt g (frame ?va) t" using bad fv by simp
  moreover have "pt_wf pt t" using t(2) table_op_wf by (simp add: maps_def) blast
  ultimately have "map_unit pt va pa g k t = Ok False t"
    using commit_spec [of pt t g ?va] by (simp add: map_unit_def Let_def)
  moreover have "[0..<unat n] = [0..<k] @ k # [Suc k..<unat n]"
    using upt_add_eq_append [of 0 k "unat n - k"] k by (simp add: upt_conv_Cons)
  ultimately have w: "while_ok (map_unit pt va pa g) [0..<unat n] (locked pt s) = Ok False t"
    using t(1) by (simp add: while_ok_append)
  let ?body = "\<lambda>s. bind_ok (while_ok (map_unit pt va pa g) [0..<unat n] s)
       (\<lambda>success s. if \<not> success then Ok False s
          else if reference_counted pt
            then bind_ok (ref_acquire_range pa (n * get_allocation_pages g) s) (\<lambda>_. Ok True)
            else Ok True s)"
  have "held t = (held s)(pt_lock pt := True)" using t(2) by (simp add: maps_def table_op_def locked_def)
  then have "with_lock (pt_lock pt) ?body s = Ok False (t\<lparr>held := held s\<rparr>)"
    using w l by (intro with_lock_run) (simp_all add: unlocked_def locked_def)
  moreover have "maps pt g (unit_base g va) (unit_base g pa) k s (t\<lparr>held := held s\<rparr>)"
    using t(2) by (simp add: maps_def locked_def table_op_def new_frames_def)
  ultimately show thesis using that by (simp add: map_units_def)
qed

end
