(* ===== verification/Table_Print.thy ===== *)
theory Table_Print
  imports Page_Table
begin

unbundle bit_operations_syntax

text \<open>
  The listing of a page table on the console (\<open>print_table_info\<close> and its helpers in
  \<^verbatim>\<open>src/src/pagetable.cc\<close>), as the bytes it sends.  Runs of unmapped or reserved units are
  printed as one line; the listing itself changes nothing but the console.
\<close>

datatype AggregationTypes = Unmapped | Reserved

definition tab :: "u8 list" where
  "tab = [9]"

definition section_aggregation_display :: "u32 \<Rightarrow> u32 \<Rightarrow> AggregationTypes \<Rightarrow> u8 list" where
  "section_aggregation_display aggregation_start aggregation_count aggregation_type =
     puthex_bytes aggregation_start @ tab @ putdec_bytes aggregation_count @
     (if aggregation_type = Unmapped then line_of '' unmapped sections''
      else line_of '' reserved sections'')"

definition page_aggregation_display :: "u32 \<Rightarrow> u32 \<Rightarrow> AggregationTypes \<Rightarrow> u8 list" where
  "page_aggregation_display aggregation_start aggregation_count aggregation_type =
     tab @ puthex_bytes aggregation_start @ tab @ putdec_bytes aggregation_count @
     (if aggregation_type = Unmapped then line_of '' unmapped pages''
      else line_of '' reserved pages'')"

text \<open>
  The locals \<open>aggregation_start\<close>, \<open>aggregation_count\<close> and \<open>aggregation_type\<close>; the first and the
  last are read only when the count is positive.
\<close>

type_synonym aggregation = "u32 \<times> u32 \<times> AggregationTypes"

type_synonym display = "u32 \<Rightarrow> u32 \<Rightarrow> AggregationTypes \<Rightarrow> u8 list"

definition no_aggregation :: aggregation where
  "no_aggregation = (0, 0, Unmapped)"

text \<open>A pending run is printed and its count reset.\<close>

definition flush :: "display \<Rightarrow> aggregation \<Rightarrow> u8 list \<times> aggregation" where
  "flush display a = (case a of (start, n, t) \<Rightarrow>
     if n > 0 then (display start n t, (start, 0, t)) else ([], a))"

text \<open>One more unit of type \<open>t\<close> at \<open>base\<close>.\<close>

definition aggregate :: "display \<Rightarrow> AggregationTypes \<Rightarrow> u32 \<Rightarrow> aggregation \<Rightarrow> u8 list \<times> aggregation" where
  "aggregate display t base a =
     (let (out, (start, n, t')) = (if snd (snd a) \<noteq> t then flush display a else ([], a))
      in (out, if n = 0 then (base, n + 1, t) else (start, n + 1, t')))"

definition page_line :: "kstate \<Rightarrow> u32 \<Rightarrow> u32 \<Rightarrow> nat \<Rightarrow> aggregation \<Rightarrow> u8 list \<times> aggregation" where
  "page_line s table base i a =
     (let e = ld s (slot table i); page_base = base + of_nat i * PAGE_SIZE
      in if e AND 0x2 = 0 then
           aggregate page_aggregation_display (if e AND 0x4 \<noteq> 0 then Reserved else Unmapped)
             page_base a
         else
           (let (out, a) = flush page_aggregation_display a
            in (out @ tab @ puthex_bytes page_base @ tab @ bytes_of ''page mapped to '' @
                  puthex_bytes (e AND 0xfffff000) @
                  (if e AND 0x1 \<noteq> 0 then bytes_of '' NX'' else []) @ putline_bytes, a)))"

fun page_lines :: "kstate \<Rightarrow> u32 \<Rightarrow> u32 \<Rightarrow> nat list \<Rightarrow> aggregation \<Rightarrow> u8 list" where
  "page_lines s table base [] a = fst (flush page_aggregation_display a)"
| "page_lines s table base (i # is) a =
     (let (out, a) = page_line s table base i a in out @ page_lines s table base is a)"

definition print_second_level_table_info :: "kstate \<Rightarrow> u32 \<Rightarrow> u32 \<Rightarrow> u8 list" where
  "print_second_level_table_info s table base =
     page_lines s table base [0..<unat SECOND_LEVEL_ENTRIES] no_aggregation"

text \<open>
  One entry of the first level: what is printed, the aggregation after it, and how far \<open>i\<close> moves
  (a supersection fills 16 entries).
\<close>

definition section_line ::
  "PageTable \<Rightarrow> kstate \<Rightarrow> nat \<Rightarrow> aggregation \<Rightarrow> u8 list \<times> aggregation \<times> nat" where
  "section_line pt s i a =
     (let e = ld s (slot (get_first_level_table_address pt) i);
          section_base = of_nat i * SECTION_SIZE;
          mapping_type = e AND 0x3
      in if mapping_type = 0 then
           (let (out, a) = aggregate section_aggregation_display
                  (if e AND 0x4 \<noteq> 0 then Reserved else Unmapped) section_base a
            in (out, a, 1))
         else
           (let (out, a) = flush section_aggregation_display a
            in if mapping_type = 1 then
                 (out @ puthex_bytes section_base @ tab @ bytes_of ''second-level page table ('' @
                    puthex_bytes (e AND 0xfffffc00) @ line_of '')'' @
                    print_second_level_table_info s
                      (get_second_level_table_address (e AND 0xfffffc00)) section_base, a, 1)
               else if mapping_type = 2 then
                 (let super = e AND 0x00040000 \<noteq> 0
                  in (out @ puthex_bytes section_base @ tab @
                        bytes_of (if super then ''supersection mapped to '' else ''section mapped to '') @
                        puthex_bytes (if super then e AND 0xff000000 else e AND 0xfff00000) @
                        (if e AND 0x10 \<noteq> 0 then bytes_of '' NX'' else []) @ putline_bytes,
                      a, if super then 16 else 1))
               else (out @ puthex_bytes section_base @ tab @ line_of ''invalid descriptor!'', a, 1)))"

lemma section_line_moves: "0 < snd (snd (section_line pt s i a))"
  by (auto simp: section_line_def Let_def split: prod.split)

lemma section_line_moves': "section_line pt s i a = (out, a', k) \<Longrightarrow> 0 < k"
  using section_line_moves [of pt s i a] by simp

function section_lines :: "PageTable \<Rightarrow> kstate \<Rightarrow> nat \<Rightarrow> aggregation \<Rightarrow> u8 list" where
  "section_lines pt s i a =
     (if i < unat (first_level_num_entries pt) then
        (case section_line pt s i a of (out, a', k) \<Rightarrow> out @ section_lines pt s (i + k) a')
      else fst (flush section_aggregation_display a))"
  by pat_completeness auto
termination
proof (relation "measure (\<lambda>(pt, s, i, a). unat (first_level_num_entries pt) - i)", goal_cases)
  case (2 pt s i a x y)
  then show ?case by (cases y) (force dest: section_line_moves' [OF sym])
qed simp

declare section_lines.simps [simp del]

definition print_table_info :: "PageTable \<Rightarrow> kstate \<Rightarrow> (kstate, unit) outcome" where
  "print_table_info pt =
     with_lock (pt_lock pt) (\<lambda>s. Ok () (emit (section_lines pt s 0 no_aggregation) s))"

text \<open>
  An empty table is one line.
\<close>

lemma section_line_free:
  assumes e: "ld s (slot (first_level_table pt) i) = 0"
  shows "section_line pt s i (start, n, Unmapped)
    = ([], (if n = 0 then of_nat i * SECTION_SIZE else start, n + 1, Unmapped), 1)"
  using e by (simp add: section_line_def aggregate_def get_first_level_table_address_def Let_def)

lemma section_lines_free:
  assumes e: "\<And>i. i < unat (first_level_num_entries pt) \<Longrightarrow> ld s (slot (first_level_table pt) i) = 0"
    and i: "0 < i" "i \<le> unat (first_level_num_entries pt)" and le: "unat (first_level_num_entries pt) \<le> 4096"
  shows "section_lines pt s i (start, of_nat i, Unmapped)
    = section_aggregation_display start (first_level_num_entries pt) Unmapped"
  using i
proof (induction "unat (first_level_num_entries pt) - i" arbitrary: i)
  case 0
  then have "i = unat (first_level_num_entries pt)" by simp
  then show ?case using 0 by (subst section_lines.simps) (simp add: flush_def word_gt_0 unat_gt_0)
next
  case (Suc k)
  have "i < unat (first_level_num_entries pt)" using Suc(2) by simp
  moreover have "(of_nat i :: u32) \<noteq> 0" using Suc.prems le by (simp add: word_eq_iff_unat32)
  ultimately show ?case
    using Suc(1) [of "i + 1"] Suc(2) Suc.prems e [of i]
    by (subst section_lines.simps) (simp add: section_line_free add.commute)
qed

lemma section_lines_empty:
  assumes "\<And>i. i < unat (first_level_num_entries pt) \<Longrightarrow> ld s (slot (first_level_table pt) i) = 0"
    and n: "0 < unat (first_level_num_entries pt)" "unat (first_level_num_entries pt) \<le> 4096"
  shows "section_lines pt s 0 no_aggregation
    = section_aggregation_display 0 (first_level_num_entries pt) Unmapped"
  using section_lines_free [of pt s 1 0] assms
  by (subst section_lines.simps) (simp add: section_line_free no_aggregation_def)

end
