(* ===== verification/Table_Correct.thy ===== *)
theory Table_Correct
  imports Allocate_Room Table_Change Table_Print Alloc_Correct
begin

unbundle bit_operations_syntax

text \<open>
  What page tables promise, over the definitions of \<open>Page_Table\<close> and \<open>Table_Print\<close>, each with an
  instance on the machine \<open>small\<close> of \<open>Alloc_Correct\<close>.
\<close>

subsection \<open>A table on the small machine\<close>

lemma small_construct:
  obtains pt s where "construct su rcd small = Ok pt s"
proof -
  have "\<exists>e < npages small. unat (4 :: u32) dvd e \<and> block_free small (unat (4 :: u32)) e \<and>
      (e + unat (4 :: u32)) mod npages small \<noteq> hint 4 small"
    by (intro exI [of _ 12]) (simp add: small_block_free)
  then obtain f where f: "first_free 4 small = Some f" "(f + unat (4 :: u32)) mod npages small \<noteq> hint 4 small"
    using alloc_finds [of small 4] by auto
  then obtain r s where "alloc 4 small = Ok r s"
    using alloc_eq [of small 4] by (simp add: Let_def)
  then show thesis using that by (simp add: construct_def Let_def)
qed

text \<open>An empty table, unlocked, and pages left to allocate from.\<close>

definition empty_table :: "PageTable \<Rightarrow> kstate \<Rightarrow> bool" where
  "empty_table pt s \<longleftrightarrow> pt_wf pt s \<and> unlocked pt s \<and> nent pt \<in> {2048, 4096} \<and>
     (\<forall>p. pview pt s p = (if p div 256 < nent pt then VFree else VOutside)) \<and> (\<forall>p. \<not> by_page pt s p) \<and>
     (\<forall>i < nent pt. fle pt s i = 0)"

lemma small_table:
  obtains pt s where "construct False False small = Ok pt s" "empty_table pt s" "nent pt = 2048"
    "\<not> reference_counted pt"
proof -
  obtain pt s where ok: "construct False False small = Ok pt s" using small_construct .
  note c = construct_spec [OF small_wf _ ok]
  have d: "4 dvd npages small" by simp
  have n: "nent pt = 2048" using c(2) [OF d] by simp
  have f: "\<And>i. i < nent pt \<Longrightarrow> fle pt s i = 0" using c(4) [OF d] .
  have h: "held s = (held small)(pt_lock pt := False)" using c(6) [OF d] .
  have "unlocked pt s" by (simp add: unlocked_def h)
  then have "empty_table pt s"
    using c(1) [OF d] n zero_view [of pt s, OF f] f by (simp add: empty_table_def)
  then show thesis using that [OF ok] n c(3) [OF d] by simp
qed

text \<open>Of its 32 pages 13 are in use then.\<close>

lemma small_room:
  assumes "construct su rcd small = Ok pt s" "k \<le> 19"
  shows "room 1 k s"
proof -
  have "used small = {..<9}" by (auto simp: used_def split: if_splits)
  then have "room 1 (k + 4) small" using assms(2) by (simp add: room_def)
  then show ?thesis using spends_room [OF spends_construct [OF small_wf _ assms(1)]] by simp
qed

lemma empty_reservable:
  assumes "empty_table pt s" "in_range g va n" "unit_base g va + unat n * gran_pages g \<le> 2048 * 256"
  shows "reservable pt g va n s"
  using assms by (auto simp: reservable_def unit_range_def empty_table_def div_less_iff_less_mult)

subsection \<open>Construction\<close>

lemma construct_gives_empty:
  assumes wf: "pa_wf s" and d: "4 dvd npages s" and ok: "construct su rcd s = Ok pt s'"
    and wf2: "pt_wf pt2 s"
  shows "pt_wf pt2 s' \<and> (\<forall>p. pview pt2 s' p = pview pt2 s p)"
  using construct_keeps_table [OF wf d ok wf2] by simp

text \<open>
  A table just constructed is well-formed and empty: every page of its 4096 or 2048 sections is
  free. Its first level lies in four pages nobody owned; every word of every owned page, and so
  every other table with its view, is as before.
\<close>

theorem construct_gives_empty_table:
  assumes wf: "pa_wf s" and d: "4 dvd npages s" and ok: "construct su rcd s = Ok pt s'"
  shows "pt_wf pt s' \<and> nent pt = (if su then 4096 else 2048) \<and> reference_counted pt = rcd \<and>
    (\<forall>p. pview pt s' p = (if p div 256 < nent pt then VFree else VOutside)) \<and>
    (\<forall>f \<in> root_frames pt. \<not> owned s f) \<and> held s' = (held s)(pt_lock pt := False) \<and>
    (\<forall>a. owned s (frame a) \<and> aligned 2 a \<longrightarrow> ld s' a = ld s a) \<and>
    (\<forall>pt2 p. pt_wf pt2 s \<longrightarrow> pt_wf pt2 s' \<and> pview pt2 s' p = pview pt2 s p)"
proof -
  note c = construct_spec [OF wf d ok]
  show ?thesis
    using c(1-3,5,6,9) zero_view(1) [OF c(4)] construct_gives_empty [OF wf d ok] by blast
qed

theorem construct_gives_empty_table_witness:
  "\<exists>pt s'. construct True False small = Ok pt s' \<and> pt_wf pt s' \<and> pview pt s' 1000000 = VFree"
proof -
  obtain pt s' where ok: "construct True False small = Ok pt s'" using small_construct .
  have d: "4 dvd npages small" by simp
  show ?thesis using construct_gives_empty_table [OF small_wf d ok] ok by auto
qed

subsection \<open>Reservation\<close>

text \<open>
  C7: \<open>reserve\<close> at an address, at any granularity, refines one specification on the view.  For a request
  inside the address space: if every page of it is free (and, for sections and supersections, not under a
  second-level table) it succeeds with the rounded-down address: exactly these pages become reserved, no
  other page's view changes, the table stays well-formed, and nothing outside its pages and the counts
  of new pages changes.  The one exception is a request for pages when the allocator has not two pages
  more than a second-level table for each section touched: then it may panic with \<open>OutOfMemory\<close>.  If
  some page is not free it fails and leaves the whole state as it was.
\<close>

theorem reserve_at_refines:
  assumes "pt_wf pt s" "unlocked pt s" "in_range g va n"
  shows "if reservable pt g va n s
    then (\<exists>s'. reserve_at pt va n g s = Ok (Success (unit_address g va)) s' \<and> table_op pt s s' \<and>
        (\<forall>p. pview pt s' p = (if p \<in> unit_range g va n then VReserved else pview pt s p)) \<and>
        (\<forall>p \<in> unit_range g va n. by_page pt s' p = (g = GPage))) \<or>
      g = GPage \<and> \<not> room 1 (length (section_chunks (va AND 0xfffff000) n) + 2) s \<and>
        (\<exists>t. reserve_at pt va n g s = panic OutOfMemory t)
    else reserve_at pt va n g s = Ok Failure s"
proof (cases "reservable pt g va n s \<and> (g = GPage \<longrightarrow> room 1 (length (section_chunks (va AND 0xfffff000) n) + 2) s)")
  case True
  then obtain s' where "reserve_at pt va n g s = Ok (Success (unit_address g va)) s'"
    "reserves pt (g = GPage) (unit_range g va n) s s'"
    using reserve_at_Ok [OF assms] by blast
  then show ?thesis using True unfolding reserves_def by auto
next
  case False
  then show ?thesis using reserve_at_cases [OF assms] unfolding reserves_def by (auto split: if_splits)
qed

text \<open>16 sections, and two pages, on a machine that has room for them.\<close>

theorem reserve_at_refines_witness:
  "\<exists>pt s. (\<exists>s'. reserve_at pt 0x20000000 16 GSection s = Ok (Success 0x20000000) s' \<and> pview pt s' 0x20010 = VReserved) \<and>
     (\<exists>s'. reserve_at pt 0x20000000 2 GPage s = Ok (Success 0x20000000) s' \<and> pview pt s' 0x20001 = VReserved)"
proof -
  obtain pt s where t: "construct False False small = Ok pt s" "empty_table pt s" "nent pt = 2048"
    using small_table by metis
  have wf: "pt_wf pt s" "unlocked pt s" using t(2) by (simp_all add: empty_table_def)
  have base: "unit_base GSection 0x20000000 = 0x20000" "unit_base GPage 0x20000000 = 0x20000"
    by (simp_all add: unit_base_def frame_def)
  have r: "in_range GSection 0x20000000 16" "in_range GPage 0x20000000 2" by (simp_all add: in_range_def base)
  have res: "reservable pt GSection 0x20000000 16 s" "reservable pt GPage 0x20000000 2 s"
    using empty_reservable [OF t(2) r(1)] empty_reservable [OF t(2) r(2)] by (simp_all add: base)
  have "section_chunks 0x20000000 2 = [(0x20000000, 2)]" by (rule one_chunk) (simp_all add: frame_def aligned_def)
  then have room: "room 1 (length (section_chunks (0x20000000 AND 0xfffff000) 2) + 2) s"
    using small_room [OF t(1)] by simp
  obtain s' where "reserve_at pt 0x20000000 16 GSection s = Ok (Success (unit_address GSection 0x20000000)) s'"
    "\<forall>p. pview pt s' p = (if p \<in> unit_range GSection 0x20000000 16 then VReserved else pview pt s p)"
    using reserve_at_refines [OF wf r(1)] res(1) by auto
  moreover obtain s2 where "reserve_at pt 0x20000000 2 GPage s = Ok (Success (unit_address GPage 0x20000000)) s2"
    "\<forall>p. pview pt s2 p = (if p \<in> unit_range GPage 0x20000000 2 then VReserved else pview pt s p)"
    using reserve_at_refines [OF wf r(2)] res(2) room by auto
  ultimately have "reserve_at pt 0x20000000 16 GSection s = Ok (Success 0x20000000) s' \<and> pview pt s' 0x20010 = VReserved"
    "reserve_at pt 0x20000000 2 GPage s = Ok (Success 0x20000000) s2 \<and> pview pt s2 0x20001 = VReserved"
    by (simp_all add: unit_address_mask unit_range_def base)
  then show ?thesis by blast
qed

text \<open>
  A range that has been reserved is not given out again: any later request that overlaps it
  fails, at every granularity, and changes nothing.
\<close>

lemma reserved_is_not_reservable:
  assumes wf: "pt_wf pt s" and l: "unlocked pt s" and r: "in_range g va n" "in_range g2 va2 n2"
    and ok: "reserve_at pt va n g s = Ok (Success a) s'"
    and overlap: "unit_range g va n \<inter> unit_range g2 va2 n2 \<noteq> {}"
  shows "reserve_at pt va2 n2 g2 s' = Ok Failure s'"
proof -
  note spec = reserve_at_cases [OF wf l r(1)]
  have res: "reservable pt g va n s" using spec ok by (auto split: if_splits)
  then have R: "reserves pt (g = GPage) (unit_range g va n) s s'" using spec ok by auto
  have "unlocked pt s'" using reserves_op [OF R] l by (simp add: table_op_def unlocked_def)
  moreover have "\<not> reservable pt g2 va2 n2 s'"
    using overlap R unfolding reservable_def reserves_def by (metis IntE ex_in_conv page_view.distinct(7))
  ultimately show ?thesis using reserve_at_cases [OF reserves_wf [OF R] _ r(2)] by auto
qed

lemma reserved_is_not_reservable_witness:
  "\<exists>pt s a s'. reserve_at pt 0x20000000 16 GSection s = Ok (Success a) s' \<and>
     reserve_at pt 0x20055000 1 GPage s' = Ok Failure s'"
proof -
  obtain pt s where t: "empty_table pt s" "nent pt = 2048" using small_table by metis
  have wf: "pt_wf pt s" "unlocked pt s" using t(1) by (simp_all add: empty_table_def)
  have base: "unit_base GSection 0x20000000 = 0x20000" "unit_base GPage 0x20055000 = 0x20055"
    by (simp_all add: unit_base_def frame_def)
  have r: "in_range GSection 0x20000000 16" "in_range GPage 0x20055000 1"
    by (simp_all add: in_range_def base)
  have res: "reservable pt GSection 0x20000000 16 s"
    using empty_reservable [OF t(1) r(1)] by (simp add: base)
  then obtain s' where ok: "reserve_at pt 0x20000000 16 GSection s = Ok (Success (unit_address GSection 0x20000000)) s'"
    using reserve_at_cases [OF wf r(1)] by auto
  have "0x20055 \<in> unit_range GSection 0x20000000 16 \<inter> unit_range GPage 0x20055000 1"
    by (simp add: unit_range_def base)
  then have "reserve_at pt 0x20055000 1 GPage s' = Ok Failure s'"
    using reserved_is_not_reservable [OF wf r ok] by blast
  then show ?thesis using ok by blast
qed

subsection \<open>Mapping and translation\<close>

text \<open>
  \<open>map\<close> on a table that does not count references, over units that are all reserved at the
  granularity given, succeeds and maps page \<open>A + i\<close> to physical page \<open>B + i\<close> throughout, where \<open>A\<close> and
  \<open>B\<close> are the two addresses rounded down; no other page's view changes and the table stays
  well-formed.
\<close>

theorem map_units_refines:
  assumes "pt_wf pt s" "unlocked pt s" "\<not> reference_counted pt"
    and "in_range g va n" "in_range g pa n" "mappable pt g (unit_base g va) (unat n) s"
  shows "\<exists>s'. map_units pt va pa n g s = Ok True s' \<and> table_op pt s s' \<and>
    (\<forall>p. pview pt s' p = (if p \<in> unit_range g va n
       then VMapped (unit_base g pa + (p - unit_base g va)) else pview pt s p))"
proof -
  obtain s' where "map_units pt va pa n g s = Ok True s'"
    "maps pt g (unit_base g va) (unit_base g pa) (unat n) s s'"
    using map_units_Ok [OF assms] .
  then show ?thesis by (auto simp: maps_def unit_range_def)
qed

text \<open>A table with 16 sections reserved.\<close>

lemma reserved_sections:
  obtains pt s where "pt_wf pt s" "unlocked pt s" "\<not> reference_counted pt"
    "mappable pt GSection (unit_base GSection 0x20000000) (unat (16 :: u32)) s"
    "in_range GSection 0x20000000 16"
proof -
  obtain pt s where t: "empty_table pt s" "nent pt = 2048" "\<not> reference_counted pt" using small_table by metis
  have wf: "pt_wf pt s" "unlocked pt s" using t(1) by (simp_all add: empty_table_def)
  have base: "unit_base GSection 0x20000000 = 0x20000" by (simp add: unit_base_def frame_def)
  have r: "in_range GSection 0x20000000 16" by (simp add: in_range_def base)
  have "reservable pt GSection 0x20000000 16 s" using empty_reservable [OF t(1) r] by (simp add: base)
  then obtain s' where R: "reserves pt (GSection = GPage) (unit_range GSection 0x20000000 16) s s'"
    using reserve_at_cases [OF wf r] by auto
  have "unlocked pt s'" using reserves_op [OF R] wf(2) by (simp add: table_op_def unlocked_def)
  moreover have "mappable pt GSection (unit_base GSection 0x20000000) (unat (16 :: u32)) s'"
    using R by (auto simp: mappable_def reserves_def unit_range_def)
  ultimately show thesis using that reserves_wf [OF R] t(3) r by blast
qed

theorem map_units_refines_witness:
  "\<exists>pt s s'. map_units pt 0x20000000 0x20000000 16 GSection s = Ok True s' \<and>
     pview pt s' 0x20010 = VMapped 0x20010"
proof -
  obtain pt s where w: "pt_wf pt s" "unlocked pt s" "\<not> reference_counted pt"
    "mappable pt GSection (unit_base GSection 0x20000000) (unat (16 :: u32)) s"
    "in_range GSection 0x20000000 16" using reserved_sections .
  obtain s' where "map_units pt 0x20000000 0x20000000 16 GSection s = Ok True s'"
    "\<forall>p. pview pt s' p = (if p \<in> unit_range GSection 0x20000000 16
       then VMapped (unit_base GSection 0x20000000 + (p - unit_base GSection 0x20000000)) else pview pt s p)"
    using map_units_refines [OF w(1-3,5,5,4)] by blast
  then have "map_units pt 0x20000000 0x20000000 16 GSection s = Ok True s' \<and>
      pview pt s' 0x20010 = VMapped 0x20010"
    by (simp add: unit_range_def unit_base_def frame_def)
  then show ?thesis by blast
qed

text \<open>
  C17: \<open>virtual_to_physical\<close> is the view: it fails on pages that are outside, free or only
  reserved, and otherwise gives the offset of the address in the physical page its page is
  mapped to, whichever of page, section or supersection maps it; the state is left as it was.
\<close>

theorem translation_is_view:
  assumes "pt_wf pt s" "unlocked pt s"
  shows "virtual_to_physical pt va s
    = Ok (case pview pt s (frame va) of VMapped f \<Rightarrow> Success (phys_address f va) | _ \<Rightarrow> Failure) s"
  by (rule virtual_to_physical_view [OF assms])

theorem translation_is_view_witness:
  "\<exists>pt s. virtual_to_physical pt 0x12345678 s = Ok Failure s"
proof -
  obtain pt s where t: "empty_table pt s" "nent pt = 2048" using small_table by metis
  have wf: "pt_wf pt s" "unlocked pt s" using t(1) by (simp_all add: empty_table_def)
  have "pview pt s (frame 0x12345678) = VFree" using t by (simp add: empty_table_def frame_def)
  then have "virtual_to_physical pt 0x12345678 s = Ok Failure s"
    using translation_is_view [OF wf, of "0x12345678"] by simp
  then show ?thesis by blast
qed

text \<open>
  C19: reserving a range and mapping it, as the loader does for RAM, devices and programs, makes
  every address of the range translate to the physical address at the same offset; with equal
  bases this is the identity map the loader turns paging on with.  On a table that counts references
  the pages mapped to have to be in use already, with counts below their maximum (\<open>map\<close> panics
  otherwise), and the request has to be aligned and not empty; on one that does not, anything goes.
\<close>

theorem reserve_map_translate:
  assumes wf: "pt_wf pt s" and l: "unlocked pt s"
    and counts: "reference_counted pt \<longrightarrow> 0 < unat n \<and> gran_pages g dvd frame pa \<and>
      (\<forall>f \<in> unit_range g pa n. owned s f \<and> rc s f \<noteq> 255)"
    and r: "in_range g va n" "in_range g pa n" and res: "reservable pt g va n s"
    and ok: "reserve_at pt va n g s = Ok (Success a) s1"
  shows "\<exists>s2. map_units pt a pa n g s1 = Ok True s2 \<and> change pt s s2 \<and> (reference_counted pt \<or> table_op pt s s2) \<and>
    (\<forall>x. frame x \<in> unit_range g va n \<longrightarrow>
       virtual_to_physical pt x s2
         = Ok (Success (phys_address (unit_base g pa + (frame x - unit_base g va)) x)) s2)"
proof -
  have a: "a = unit_address g va" and R: "reserves pt (g = GPage) (unit_range g va n) s s1"
    using reserve_at_cases [OF wf l r(1)] res ok by auto
  have ua: "unit_base g a = unit_base g va" unfolding a by (rule unit_base_address)
  note op1 = reserves_op [OF R]
  have l1: "unlocked pt s1" using op1 l by (simp add: table_op_def unlocked_def)
  have m: "mappable pt g (unit_base g a) (unat n) s1"
    using R by (auto simp: ua mappable_def reserves_def unit_range_def)
  have ra: "in_range g a n" using r(1) by (simp add: in_range_def ua)
  have ch1: "change pt s s1" by (rule change_reserves [OF R]) (use res in \<open>simp add: reservable_def\<close>)
  have "\<exists>s2. map_units pt a pa n g s1 = Ok True s2 \<and> change pt s1 s2 \<and> (reference_counted pt \<or> table_op pt s1 s2) \<and>
      (\<forall>p \<in> unit_range g va n. pview pt s2 p = VMapped (unit_base g pa + (p - unit_base g va)))"
  proof (cases "reference_counted pt")
    case True
    have "owned s1 f \<and> rc s1 f = rc s f" if "owned s f" for f
    proof -
      have "f < npages s" "rc s f \<noteq> 0" using that by (auto simp: owned_def used_def)
      then have "f \<notin> new_frames pt s s1" using op1 unfolding table_op_def by blast
      then show ?thesis using op1 that \<open>f < npages s\<close> by (simp add: table_op_def)
    qed
    then have "may_map pt a pa n g s1" using counts True m ra r(2) by (simp add: may_map_def)
    moreover have "ready pt s1" using table_op_wf [OF op1] l1 by (simp add: ready_def)
    ultimately obtain s2 where "map_units pt a pa n g s1 = Ok True s2" "change pt s1 s2"
      "\<And>p. pview pt s2 p = (if p \<in> unit_range g a n then VMapped (unit_base g pa + (p - unit_base g a)) else pview pt s1 p)"
      using map_units_change by metis
    then show ?thesis using True by (auto simp: unit_range_def ua)
  next
    case False
    then obtain s2 where s2: "map_units pt a pa n g s1 = Ok True s2"
      "maps pt g (unit_base g va) (unit_base g pa) (unat n) s1 s2"
      using map_units_Ok [OF reserves_wf [OF R] l1 False ra r(2) m] ua by metis
    have "table_op pt s1 s2" using s2(2) by (simp add: maps_def)
    then show ?thesis
      using s2 change_op [of pt s1 s2] False by (auto simp: maps_def unit_range_def)
  qed
  then obtain s2 where s2: "map_units pt a pa n g s1 = Ok True s2" "change pt s1 s2"
    "reference_counted pt \<or> table_op pt s1 s2"
    "\<forall>p \<in> unit_range g va n. pview pt s2 p = VMapped (unit_base g pa + (p - unit_base g va))"
    by blast
  have w: "pt_wf pt s2" "unlocked pt s2" using s2(2) l1 by (simp_all add: change_def unlocked_def)
  have "virtual_to_physical pt x s2
      = Ok (Success (phys_address (unit_base g pa + (frame x - unit_base g va)) x)) s2"
    if "frame x \<in> unit_range g va n" for x
    using virtual_to_physical_view [OF w] s2(4) that by simp
  then show ?thesis using s2(1,3) change_trans [OF ch1 s2(2)] table_op_trans [OF op1, of s2] by blast
qed

theorem reserve_map_translate_witness:
  "\<exists>pt s1 s2. map_units pt 0x20000000 0x20000000 16 GSection s1 = Ok True s2 \<and>
     virtual_to_physical pt 0x20201018 s2 = Ok (Success 0x20201018) s2"
proof -
  obtain pt s where t: "empty_table pt s" "nent pt = 2048" "\<not> reference_counted pt" using small_table by metis
  have wf: "pt_wf pt s" "unlocked pt s" using t(1) by (simp_all add: empty_table_def)
  have base: "unit_base GSection 0x20000000 = 0x20000" by (simp add: unit_base_def frame_def)
  have r: "in_range GSection 0x20000000 16" by (simp add: in_range_def base)
  have res: "reservable pt GSection 0x20000000 16 s" using empty_reservable [OF t(1) r] by (simp add: base)
  then obtain s1 where ok: "reserve_at pt 0x20000000 16 GSection s = Ok (Success (unit_address GSection 0x20000000)) s1"
    using reserve_at_cases [OF wf r] by auto
  have fr: "frame 0x20201018 = 0x20201" by (simp add: frame_def)
  obtain s2 where "map_units pt (unit_address GSection 0x20000000) 0x20000000 16 GSection s1 = Ok True s2"
    "\<forall>x. frame x \<in> unit_range GSection 0x20000000 16 \<longrightarrow> virtual_to_physical pt x s2
       = Ok (Success (phys_address (unit_base GSection 0x20000000 + (frame x - unit_base GSection 0x20000000)) x)) s2"
    using reserve_map_translate [OF wf _ r r res ok] t(3) by blast
  then have "map_units pt 0x20000000 0x20000000 16 GSection s1 = Ok True s2 \<and>
     virtual_to_physical pt 0x20201018 s2 = Ok (Success 0x20201018) s2"
    using phys_address_same [of "0x20201018"] by (simp add: unit_address_mask unit_range_def base fr)
  then show ?thesis by blast
qed

text \<open>
  \<open>get_unit_state\<close> answers with a state exactly when all pages of the unit are in that state
  and, for sections and supersections, none is under a second-level table; it changes nothing.
\<close>

theorem get_unit_state_is_view:
  assumes "pt_wf pt s" "unlocked pt s"
  shows "\<exists>r. get_unit_state pt va g s = Ok r s \<and>
    (\<forall>x. r = Success x \<longleftrightarrow> (\<forall>p \<in> unit_pages g (frame va).
       state_of_view (pview pt s p) = Success x \<and> (g = GPage \<or> \<not> by_page pt s p)))"
  by (rule unit_state_iff [OF assms])

theorem get_unit_state_is_view_witness:
  "\<exists>pt s. get_unit_state pt 0x12345678 GSupersection s = Ok (Success UFree) s"
proof -
  obtain pt s where t: "empty_table pt s" "nent pt = 2048" using small_table by metis
  have wf: "pt_wf pt s" "unlocked pt s" using t(1) by (simp_all add: empty_table_def)
  have "state_of_view (pview pt s p) = Success UFree \<and> (GSupersection = GPage \<or> \<not> by_page pt s p)"
    if "p \<in> unit_pages GSupersection (frame 0x12345678)" for p
  proof -
    have "p div 4096 = 0x12" using that by (simp add: unit_pages_def frame_def)
    then have "p div 256 < 2048" by (simp add: div_less_iff_less_mult div_eq_range)
    then show ?thesis using t by (simp add: empty_table_def)
  qed
  then have "get_unit_state pt 0x12345678 GSupersection s = Ok (Success UFree) s"
    using get_unit_state_is_view [OF wf, of "0x12345678" GSupersection] by metis
  then show ?thesis by blast
qed

subsection \<open>Reserving and allocating\<close>

text \<open>
  C9: \<open>reserve_allocate\<close> at an address, on a table that counts references, for a request inside the
  address space and RAM a whole number of units of the granularity.  If the range is free and the
  allocator has two blocks more than the request takes, it backs every page of the range with a physical
  page of its own that nobody owned, keeping the view of all other pages and the contents of every owned
  page outside the table; with less room it does the same or panics with \<open>OutOfMemory\<close>.  If the range is
  not free it changes nothing.
\<close>

theorem reserve_allocate_refines:
  assumes "pt_wf pt s" "unlocked pt s" "reference_counted pt" "gran_pages g dvd npages s" "in_range g va n"
  shows "if reservable pt g va n s
    then (\<exists>s'. reserve_allocate_at pt va n g s = Ok (Success (unit_address g va)) s' \<and>
        pt_wf pt s' \<and> held s' = held s \<and> (\<forall>f. owned s f \<longrightarrow> owned s' f) \<and>
        (\<forall>p. p \<notin> unit_range g va n \<longrightarrow> pview pt s' p = pview pt s p) \<and>
        (\<forall>p \<in> unit_range g va n. \<exists>f. pview pt s' p = VMapped f \<and> \<not> owned s f \<and> owned s' f) \<and>
        (\<forall>p \<in> unit_range g va n. \<forall>q \<in> unit_range g va n. pview pt s' p = pview pt s' q \<longrightarrow> p = q) \<and>
        (\<forall>b. owned s (frame b) \<and> frame b \<notin> table_frames pt s \<longrightarrow> mem s' b = mem s b)) \<or>
      \<not> space (gran_pages g) (units_cost g va n + 2) s \<and> (\<exists>t. reserve_allocate_at pt va n g s = panic OutOfMemory t)
    else reserve_allocate_at pt va n g s = Ok Failure s"
proof (cases "reservable pt g va n s \<and> space (gran_pages g) (units_cost g va n + 2) s")
  case True
  then obtain s' where s': "reserve_allocate_at pt va n g s = Ok (Success (unit_address g va)) s'"
    using reserve_allocate_units_room [OF assms(1-5)] by blast
  then have "allocates pt (unit_range g va n) s s'"
    using reserve_allocate_at_cases [OF assms] True by (auto simp: panic_def)
  then show ?thesis using True s' unfolding allocates_def by simp blast
next
  case False
  then show ?thesis
    using reserve_allocate_at_cases [OF assms] unfolding allocates_def by (simp split: if_splits) blast
qed

theorem reserve_allocate_refines_witness:
  "\<exists>pt s s' f. reserve_allocate_at pt 0x80000000 2 GPage s = Ok (Success 0x80000000) s' \<and>
     pview pt s' 0x80001 = VMapped f \<and> \<not> owned s f"
proof -
  obtain pt s where ok: "construct True True small = Ok pt s" using small_construct .
  have d: "4 dvd npages small" by simp
  note c = construct_spec [OF small_wf d ok]
  have u: "unlocked pt s" by (simp add: unlocked_def c(6) pt_lock_def)
  have n: "gran_pages GPage dvd npages s" and rc: "reference_counted pt" using c(3) by simp_all
  have r: "in_range GPage 0x80000000 2" by (simp add: in_range_def unit_base_def frame_def)
  have ran: "unit_range GPage 0x80000000 2 = {0x80000..<0x80002}"
    by (simp add: unit_range_def unit_base_def frame_def)
  have "pview pt s p = VFree" if "p \<in> {0x80000..<0x80002}" for p
    using zero_view(1) [of pt s p, OF c(4)] c(2) that by (simp add: div_less_iff_less_mult)
  then have "reservable pt GPage 0x80000000 2 s" by (simp add: reservable_def ran)
  moreover have "unit_address GPage 0x80000000 = 0x80000000" by (simp add: unit_address_mask)
  moreover have "0x80001 \<in> unit_range GPage 0x80000000 2" by (simp add: ran)
  moreover have "section_chunks 0x80000000 2 = [(0x80000000, 2)]" by (rule one_chunk) (simp_all add: frame_def aligned_def)
  then have "space (gran_pages GPage) (units_cost GPage 0x80000000 2 + 2) s"
    using small_room [OF ok, of "units_cost GPage 0x80000000 2 + 2"] by (simp add: units_cost_def space_room)
  ultimately show ?thesis using reserve_allocate_refines [OF c(1) u rc n r] by (metis (no_types, lifting))
qed

subsection \<open>Isolation\<close>

text \<open>
  Tables do not interfere: reserving in one table leaves every other table whose pages are
  disjoint from it well-formed and with the same view, and the two stay disjoint.
\<close>

theorem reserve_at_isolated:
  assumes wf: "pt_wf pt s" and l: "unlocked pt s" and r: "in_range g va n"
    and ok: "reserve_at pt va n g s = Ok a s'"
    and wf2: "pt_wf pt2 s" and apart: "table_frames pt2 s \<inter> table_frames pt s = {}"
  shows "pt_wf pt2 s' \<and> (\<forall>p. pview pt2 s' p = pview pt2 s p) \<and>
    table_frames pt2 s' \<inter> table_frames pt s' = {}"
proof (cases "reservable pt g va n s")
  case True
  then have R: "reserves pt (g = GPage) (unit_range g va n) s s'"
    using reserve_at_cases [OF wf l r] ok by auto
  show ?thesis using table_op_isolated [OF reserves_op [OF R] wf2 apart] by simp
next
  case False
  then show ?thesis using reserve_at_cases [OF wf l r] ok wf2 apart by simp
qed

text \<open>Two tables, one after the other: 20 pages are needed for the first levels alone.\<close>

definition larger :: kstate where
  "larger = PageAlloc 0x40000 0x8000 power_on"

lemma larger_facts [simp]:
  "npages larger = 64" "\<not> held larger PageAllocLock" "hint sz larger = 0"
  "p < 64 \<Longrightarrow> rc larger p = (if p < 9 then 1 else 0)"
  by (simp_all add: larger_def PageAlloc_state power_on_hints hint_def first_page_def frame_def)

lemma larger_wf [simp]: "pa_wf larger"
  unfolding larger_def by (rule PageAlloc_pa_wf) (simp_all add: aligned_def power_on_hints)

lemma alloc_4_somewhere:
  assumes wf: "pa_wf s" and n: "4 dvd npages s" and l: "\<not> held s PageAllocLock"
    and e: "e + 4 < npages s" "4 dvd e" "block_free s 4 e" "block_free s 4 (e + 4)"
  obtains r s' where "alloc 4 s = Ok r s'"
proof -
  have "(e + 4) mod npages s \<noteq> (e + 8) mod npages s"
  proof
    assume eq: "(e + 4) mod npages s = (e + 8) mod npages s"
    then have "npages s dvd (e + 8) - (e + 4)"
      using mod_eq_dvd_iff_nat [of "e + 4" "e + 8" "npages s"] by simp
    then have "npages s dvd 4" by simp
    then have "npages s \<le> 4" by (rule dvd_imp_le) simp
    then show False using e(1) by simp
  qed
  then consider "(e + 4) mod npages s \<noteq> hint 4 s" | "(e + 8) mod npages s \<noteq> hint 4 s" by metis
  then have "\<exists>e < npages s. unat (4 :: u32) dvd e \<and> block_free s (unat (4 :: u32)) e \<and>
      (e + unat (4 :: u32)) mod npages s \<noteq> hint 4 s"
  proof cases
    case 1
    then show ?thesis using e by (intro exI [of _ e]) simp
  next
    case 2
    then show ?thesis using e by (intro exI [of _ "e + 4"]) (simp add: add.assoc)
  qed
  then obtain f where "first_free 4 s = Some f" "(f + unat (4 :: u32)) mod npages s \<noteq> hint 4 s"
    using alloc_finds [OF wf, of 4] n by auto
  then show thesis using that alloc_eq [OF wf, of 4] n l by (simp add: Let_def)
qed

lemma two_tables:
  obtains pt pt2 s where "pt_wf pt s" "unlocked pt s" "pt_wf pt2 s" "table_frames pt2 s \<inter> table_frames pt s = {}"
    "reservable pt GSection 0x20000000 16 s"
proof -
  have n: "4 dvd npages larger" by simp
  obtain r0 t0 where "alloc 4 larger = Ok r0 t0"
    by (rule alloc_4_somewhere [of larger 12]) (simp_all add: block_free_def)
  then obtain pt2 s1 where c2: "construct False False larger = Ok pt2 s1" by (simp add: construct_def Let_def)
  note C2 = construct_spec [OF larger_wf n c2]
  have wf1: "pa_wf s1" and n1: "npages s1 = 64" using pt_wfD(1) [OF C2(1)] C2(8) by simp_all
  have l1: "\<not> held s1 PageAllocLock" by (simp add: C2(6))
  obtain q where q: "frame (root pt2) = 4 * q"
    using pt_wfD(4,5) [OF C2(1)] aligned_frame_iff [of "root pt2" 2] by (auto elim: dvdE)
  have fr: "block_free s1 4 x" if x: "12 \<le> x" "x + 4 \<le> 64" "4 dvd x" "x \<noteq> 4 * q" for x
  proof -
    obtain y where y: "x = 4 * y" using x(3) by (elim dvdE)
    have "rc s1 (x + i) = 0" if i: "i < 4" for i
    proof -
      have "x + i \<notin> root_frames pt2" using x(4) i by (auto simp: root_frames_def q y)
      then show ?thesis using C2(11) [of "x + i"] x(1,2) i by simp
    qed
    then show ?thesis by (simp add: block_free_def)
  qed
  obtain e where e: "e + 8 \<le> 64" "4 dvd e" "12 \<le> e" "e \<noteq> 4 * q" "e + 4 \<noteq> 4 * q"
  proof (cases "q < 6")
    case True
    then show thesis using that [of 24] by simp
  next
    case False
    then show thesis using that [of 12] by simp
  qed
  have "4 dvd e + 4" using e(2) by simp
  obtain r t where "alloc 4 s1 = Ok r t"
    using alloc_4_somewhere [OF wf1 _ l1, of e] fr [of e] fr [of "e + 4"] e n1 \<open>4 dvd e + 4\<close> by auto
  then obtain pt s where c: "construct False False s1 = Ok pt s" by (simp add: construct_def Let_def)
  have n1': "4 dvd npages s1" using n1 by simp
  note C = construct_spec [OF wf1 n1' c]
  have iso: "pt_wf pt2 s" using construct_gives_empty [OF wf1 n1' c] C2(1) by blast
  have tf2: "table_frames pt2 s = root_frames pt2"
  proof -
    have "fle pt2 s k = 0" if "k < nent pt2" for k
      using C(9) [of "slot (root pt2) k"] C2(4) [OF that] root_slot_owned [OF C2(1) that] pt_wfD(6) [OF C2(1)]
      by (simp add: fle_def)
    then show ?thesis using plain_not_table [OF plain_free(1)] by (auto simp: table_frames_def)
  qed
  have tf: "table_frames pt s = root_frames pt"
    using C(4) plain_not_table [OF plain_free(1)] by (auto simp: table_frames_def)
  have u: "unlocked pt s" by (simp add: unlocked_def C(6) l1)
  then have "empty_table pt s"
    using C(1,2) zero_view [of pt s, OF C(4)] C(4) by (simp add: empty_table_def)
  then have "reservable pt GSection 0x20000000 16 s"
    using empty_reservable [of pt s GSection "0x20000000" 16]
    by (simp add: in_range_def unit_base_def frame_def)
  moreover have "table_frames pt2 s \<inter> table_frames pt s = {}"
    unfolding tf tf2 using C(5) pt_wfD(7) [OF C2(1)] by blast
  ultimately show thesis using that C(1) iso u by blast
qed

theorem reserve_at_isolated_witness:
  "\<exists>pt pt2 s s'. reserve_at pt 0x20000000 16 GSection s = Ok (Success 0x20000000) s' \<and> pt_wf pt2 s' \<and>
     table_frames pt2 s' \<inter> table_frames pt s' = {}"
proof -
  obtain pt pt2 s where t: "pt_wf pt s" "unlocked pt s" "pt_wf pt2 s"
    "table_frames pt2 s \<inter> table_frames pt s = {}" "reservable pt GSection 0x20000000 16 s" using two_tables .
  have base: "unit_base GSection 0x20000000 = 0x20000" by (simp add: unit_base_def frame_def)
  have r: "in_range GSection 0x20000000 16" by (simp add: in_range_def base)
  obtain s' where ok: "reserve_at pt 0x20000000 16 GSection s = Ok (Success (unit_address GSection 0x20000000)) s'"
    using reserve_at_cases [OF t(1,2) r] t(5) by auto
  have "reserve_at pt 0x20000000 16 GSection s = Ok (Success 0x20000000) s' \<and> pt_wf pt2 s' \<and>
     table_frames pt2 s' \<inter> table_frames pt s' = {}"
    using reserve_at_isolated [OF t(1,2) r ok t(3,4)] ok by (simp add: unit_address_mask)
  then show ?thesis by blast
qed

subsection \<open>Reverse search, units\<close>

text \<open>
  C36: \<open>physical_to_virtual\<close> does not compute virtual addresses: whatever is mapped where, a result
  is the physical address itself, or lies in the page of a second-level table.
\<close>

theorem physical_to_virtual_wrong:
  assumes "unlocked pt s"
  shows "\<exists>r. physical_to_virtual pt pa s = Ok r s \<and>
    (\<forall>va. r = Success va \<longrightarrow> va = pa \<or> (\<exists>i < nent pt. is_table (fle pt s i) \<and> frame va = table_frame pt s i))"
  using physical_to_virtual_cases [OF assms, of pa] by blast

theorem physical_to_virtual_wrong_witness:
  "\<exists>pt s. virtual_to_physical pt 0x30000000 s = Ok (Success 0x00100000) s \<and>
     physical_to_virtual pt 0x00100000 s \<noteq> Ok (Success 0x30000000) s"
proof -
  obtain pt s where t: "empty_table pt s" "nent pt = 2048" "\<not> reference_counted pt" using small_table by metis
  have wf: "pt_wf pt s" "unlocked pt s" using t(1) by (simp_all add: empty_table_def)
  have base: "unit_base GSection 0x30000000 = 0x30000" "unit_base GSection 0x00100000 = 0x100"
    by (simp_all add: unit_base_def frame_def)
  have r: "in_range GSection 0x30000000 1" "in_range GSection 0x00100000 1" by (simp_all add: in_range_def base)
  have "reservable pt GSection 0x30000000 1 s" using empty_reservable [OF t(1) r(1)] by (simp add: base)
  then obtain s1 where R: "reserves pt False (unit_range GSection 0x30000000 1) s s1"
    using reserve_at_cases [OF wf r(1)] by auto
  have u1: "unlocked pt s1" using reserves_op [OF R] wf(2) by (simp add: table_op_def unlocked_def)
  have "mappable pt GSection (unit_base GSection 0x30000000) (unat (1 :: u32)) s1"
    using R by (auto simp: mappable_def reserves_def unit_range_def)
  then obtain s2 where M: "maps pt GSection 0x30000 0x100 1 s1 s2"
    using map_units_Ok [OF reserves_wf [OF R] u1 t(3) r] by (auto simp: base)
  have op: "table_op pt s1 s2" using M by (simp add: maps_def)
  have wf2: "pt_wf pt s2" "unlocked pt s2" using op u1 by (simp_all add: table_op_def unlocked_def)
  have "pview pt s2 (frame 0x30000000) = VMapped 0x100" using M by (simp add: maps_def frame_def)
  then have v: "virtual_to_physical pt 0x30000000 s2 = Ok (Success 0x00100000) s2"
    using virtual_to_physical_view [OF wf2, of "0x30000000"] by (simp add: phys_address_def)
  have nt: False if "i < nent pt" "is_table (fle pt s2 i)" for i
  proof -
    have "by_page pt s2 (i * 256)" using that by (simp add: by_page_def)
    then have "by_page pt s (i * 256)" using M R by (auto simp: maps_def reserves_def)
    then show ?thesis using t(1) by (simp add: empty_table_def)
  qed
  have "physical_to_virtual pt 0x00100000 s2 \<noteq> Ok (Success 0x30000000) s2"
    using physical_to_virtual_wrong [OF wf2(2), of "0x00100000"] nt by auto
  then show ?thesis using v by blast
qed

text \<open>The number of units for a size is the size divided by the unit, rounded up, without overflow.\<close>

lemma allocation_units_ceiling:
  "unat (get_num_allocation_units bytes g) = (unat bytes + (gran_pages g * 4096 - 1)) div (gran_pages g * 4096)"
  by (rule allocation_units)

end
