(* ===== verification/Table_System.thy ===== *)
theory Table_System
  imports Table_Change
begin

unbundle bit_operations_syntax

text \<open>
  Several page tables over one allocator.  The books: the tables are well-formed, unlocked and lie in
  disjoint pages, and each reference count is the number of references the tables hold, plus those
  held outside of them (by the allocator's own table, by stacks, by whoever called \<open>alloc\<close>).
\<close>

subsection \<open>The books\<close>

definition books :: "PageTable set \<Rightarrow> (nat \<Rightarrow> nat) \<Rightarrow> kstate \<Rightarrow> bool" where
  "books T outside s \<longleftrightarrow> finite T \<and> pa_wf s \<and> \<not> held s PageAllocLock \<and> (\<forall>pt \<in> T. ready pt s) \<and>
     (\<forall>pt \<in> T. \<forall>pt2 \<in> T. pt \<noteq> pt2 \<longrightarrow> table_frames pt s \<inter> table_frames pt2 s = {}) \<and>
     (\<forall>pt \<in> T. reference_counted pt \<longrightarrow> (\<forall>p f. pview pt s p = VMapped f \<longrightarrow> owned s f)) \<and>
     (\<forall>f < npages s. unat (rc s f) = outside f + (\<Sum>pt \<in> T. refs pt s f))"

lemma booksD:
  assumes "books T outside s"
  shows "finite T" "pa_wf s" "\<not> held s PageAllocLock" "pt \<in> T \<Longrightarrow> ready pt s" "pt \<in> T \<Longrightarrow> pt_wf pt s"
    "pt \<in> T \<Longrightarrow> pt2 \<in> T \<Longrightarrow> pt \<noteq> pt2 \<Longrightarrow> table_frames pt s \<inter> table_frames pt2 s = {}"
    "pt \<in> T \<Longrightarrow> reference_counted pt \<Longrightarrow> pview pt s p = VMapped f \<Longrightarrow> owned s f"
    "f < npages s \<Longrightarrow> unat (rc s f) = outside f + (\<Sum>pt \<in> T. refs pt s f)"
  using assms unfolding books_def ready_def by blast+

lemma books_none: "pa_wf s \<Longrightarrow> \<not> held s PageAllocLock \<Longrightarrow> books {} (\<lambda>f. unat (rc s f)) s"
  by (simp add: books_def)

lemma ready_emit [simp]: "ready pt (emit bs s) = ready pt s"
  by (simp add: ready_def)

lemma books_emit [simp]: "books T outside (emit bs s) = books T outside s"
  by (simp add: books_def)

text \<open>A page a table refers to is in use and not the allocator's own.\<close>

lemma refs_owned:
  assumes "books T outside s" "pt \<in> T" "0 < refs pt s f"
  shows "owned s f"
proof (cases "f \<in> table_frames pt s")
  case True
  then show ?thesis by (rule table_frames_owned [OF booksD(5) [OF assms(1,2)]])
next
  case False
  then have "reference_counted pt" "0 < card {p. pview pt s p = VMapped f}"
    using assms(3) by (simp_all add: refs_def split: if_splits)
  then show ?thesis using booksD(7) [OF assms(1,2)] by (auto simp: card_gt_0_iff)
qed

lemma table_refs: "f \<in> table_frames pt s \<Longrightarrow> 0 < refs pt s f"
  by (simp add: refs_def)

lemma mapped_has_refs: "reference_counted pt \<Longrightarrow> pview pt s p = VMapped f \<Longrightarrow> 0 < refs pt s f"
  using finite_mapped [of pt s f] by (auto simp: refs_def card_gt_0_iff)

lemma refs_le_sum: "finite T \<Longrightarrow> pt \<in> T \<Longrightarrow> refs pt s f \<le> (\<Sum>pt \<in> T. refs pt s f)"
  by (rule member_le_sum) simp_all

text \<open>What a table shows of itself, kept.\<close>

definition undisturbed :: "PageTable \<Rightarrow> kstate \<Rightarrow> kstate \<Rightarrow> bool" where
  "undisturbed pt s t \<longleftrightarrow> pview pt t = pview pt s \<and> table_frames pt t = table_frames pt s"

lemma undisturbed_trans: "undisturbed pt s t \<Longrightarrow> undisturbed pt t u \<Longrightarrow> undisturbed pt s u"
  by (simp add: undisturbed_def)

lemma undisturbed_sum: "(\<And>p. p \<in> T \<Longrightarrow> undisturbed p s t) \<Longrightarrow> (\<Sum>p \<in> T. refs p t f) = (\<Sum>p \<in> T. refs p s f)"
  by (rule sum.cong) (simp_all add: refs_def undisturbed_def)

subsection \<open>Operations on one of the tables\<close>

lemma books_change:
  assumes b: "books T outside s" and pt: "pt \<in> T" and c: "change pt s s'"
  shows "books T outside s'" "pt2 \<in> T \<Longrightarrow> pt2 \<noteq> pt \<Longrightarrow> undisturbed pt2 s s'"
proof -
  note C = c [unfolded change_def] and B = booksD [OF b]
  have other: "pt_wf pt2 s' \<and> pview pt2 s' = pview pt2 s \<and> table_frames pt2 s' = table_frames pt2 s \<and>
      table_frames pt2 s' \<inter> table_frames pt s' = {}" if "pt2 \<in> T" "pt2 \<noteq> pt" for pt2
    using C B(5) [OF that(1)] B(6) [OF that(1) pt that(2)] unfolding isolates_def by blast
  have wf: "pt_wf pt2 s'" if "pt2 \<in> T" for pt2 using other [OF that] C by blast
  have "ready pt2 s'" if "pt2 \<in> T" for pt2 using B(4) [OF that] wf [OF that] C by (simp add: ready_def unlocked_def)
  moreover have "table_frames p1 s' \<inter> table_frames p2 s' = {}" if "p1 \<in> T" "p2 \<in> T" "p1 \<noteq> p2" for p1 p2
  proof (cases "p1 = pt \<or> p2 = pt")
    case True
    then show ?thesis using other [OF that(1)] other [OF that(2)] that(3) by blast
  next
    case False
    then show ?thesis using other [OF that(1)] other [OF that(2)] B(6) [OF that] by simp
  qed
  moreover have "owned s' f" if "pt2 \<in> T" "reference_counted pt2" "pview pt2 s' p = VMapped f" for pt2 p f
  proof (cases "pt2 = pt")
    case True
    then have "pview pt s p = VMapped f \<or> owned s' f" using C that by blast
    then show ?thesis using B(7) [OF pt] C True that(2) by blast
  next
    case False
    then have "pview pt2 s p = VMapped f" using other [OF that(1)] that(3) by simp
    then show ?thesis using B(7) [OF that(1,2)] C by blast
  qed
  moreover have "unat (rc s' f) = outside f + (\<Sum>pt \<in> T. refs pt s' f)" if f: "f < npages s'" for f
  proof -
    have "(\<Sum>p \<in> T - {pt}. refs p s' f) = (\<Sum>p \<in> T - {pt}. refs p s f)"
      by (rule undisturbed_sum) (use other in \<open>simp add: undisturbed_def\<close>)
    then have "(\<Sum>p \<in> T. refs p s' f) + refs pt s f = (\<Sum>p \<in> T. refs p s f) + refs pt s' f"
      using sum.remove [OF B(1) pt, of "\<lambda>p. refs p s' f"] sum.remove [OF B(1) pt, of "\<lambda>p. refs p s f"] by simp
    moreover have "unat (rc s' f) + refs pt s f = unat (rc s f) + refs pt s' f" using C f by simp
    moreover have "unat (rc s f) = outside f + (\<Sum>p \<in> T. refs p s f)" using B(8) [of f] C f by simp
    ultimately show ?thesis by linarith
  qed
  moreover have "pa_wf s'" using C pt_wfD(1) by blast
  ultimately show "books T outside s'" using B(1,3) C unfolding books_def by simp
  show "undisturbed pt2 s s'" if "pt2 \<in> T" "pt2 \<noteq> pt" using other [OF that] by (simp add: undisturbed_def)
qed

subsection \<open>Construction and destruction\<close>

lemma books_construct:
  assumes b: "books T outside s" and d: "4 dvd npages s" and ok: "construct su rcd s = Ok pt s'"
  shows "books (insert pt T) outside s'" "pt \<notin> T" "p2 \<in> T \<Longrightarrow> undisturbed p2 s s'"
proof -
  note B = booksD [OF b] and c = construct_spec [OF booksD(2) [OF b] d ok]
  note keep = construct_keeps_table [OF B(2) d ok B(5)]
  have same: "undisturbed p s s'" if "p \<in> T" for p using keep [OF that] by (simp add: undisturbed_def fun_eq_iff)
  then show "p2 \<in> T \<Longrightarrow> undisturbed p2 s s'" .
  have root: "root_frames pt \<noteq> {}" by (simp add: root_frames_def)
  show new: "pt \<notin> T"
  proof
    assume "pt \<in> T"
    then have "owned s f" if "f \<in> root_frames pt" for f using pt_wfD(7) [OF B(5)] that by blast
    then show False using c(5) root by blast
  qed
  have v: "pview pt s' p \<noteq> VMapped f" for p f using zero_view(1) [of pt s' p, OF c(4)] by simp
  have frames: "table_frames pt s' = root_frames pt"
    using c(4) plain_not_table [OF plain_free(1)] by (auto simp: table_frames_def)
  have refs: "refs pt s' f = (if f \<in> root_frames pt then 1 else 0)" for f using v frames by (simp add: refs_def)
  have lock: "unlocked p s'" if "unlocked p s" for p using that c(6) by (simp add: unlocked_def pt_lock_def)
  have "unlocked pt s'" using B(3) c(6) by (simp add: unlocked_def pt_lock_def)
  then have "ready p s'" if "p \<in> insert pt T" for p
    using that c(1) keep(1) lock B(4) by (auto simp: ready_def)
  moreover have "table_frames p s' \<inter> table_frames q s' = {}" if "p \<in> insert pt T" "q \<in> insert pt T" "p \<noteq> q" for p q
  proof -
    have "table_frames p s' \<inter> root_frames pt = {}" if "p \<in> T" for p using keep(4,5) [OF that] by simp
    moreover have "table_frames p s' \<inter> table_frames q s' = {}" if "p \<in> T" "q \<in> T" "p \<noteq> q" for p q
      using keep(4) that B(6) [OF that] by simp
    ultimately show ?thesis using that frames by blast
  qed
  moreover have "owned s' f" if "p \<in> insert pt T" "reference_counted p" "pview p s' q = VMapped f" for p q f
    using that v keep(2) B(7) c(10) by auto
  moreover have "unat (rc s' f) = outside f + (\<Sum>p \<in> insert pt T. refs p s' f)" if f: "f < npages s'" for f
  proof -
    have n: "f < npages s" using f c(8) by simp
    have "(\<Sum>p \<in> T. refs p s' f) = (\<Sum>p \<in> T. refs p s f)" by (rule undisturbed_sum) (rule same)
    then have "(\<Sum>p \<in> insert pt T. refs p s' f) = refs pt s' f + (\<Sum>p \<in> T. refs p s f)" using B(1) new by simp
    then show ?thesis using B(8) [OF n] c(11) [OF n] c(12) [OF _ n] by (cases "f \<in> root_frames pt") (simp_all add: refs)
  qed
  moreover have "\<not> held s' PageAllocLock" using B(3) c(6) by (simp add: pt_lock_def)
  ultimately show "books (insert pt T) outside s'"
    using B(1) pt_wfD(1) [OF c(1)] unfolding books_def by simp
qed

text \<open>Counts that change for a reason outside of the tables.\<close>

lemma books_counts:
  assumes b: "books T outside s" and oc: "only_counts s t" and pa: "pa_wf t"
    and rc: "\<And>f. f < npages s \<Longrightarrow> unat (rc t f) = outside' f + (\<Sum>p \<in> T. refs p s f)"
  shows "books T outside' t" "p \<in> T \<Longrightarrow> undisturbed p s t"
proof -
  note B = booksD [OF b]
  have n: "npages t = npages s" by (rule only_counts_npages [OF oc])
  have own: "owned t f" if p: "p \<in> T" "0 < refs p s f" for p f
  proof -
    have o: "owned s f" by (rule refs_owned [OF b p])
    have "0 < (\<Sum>p \<in> T. refs p s f)" using refs_le_sum [OF B(1) p(1), of s f] p(2) by simp
    then have "unat (rc t f) \<noteq> 0" using rc [OF owned_less [OF o]] by simp
    then have "rc t f \<noteq> 0" by (simp add: unat_eq_0)
    then show ?thesis using o only_counts_pinned [OF oc] n by (simp add: owned_def used_def)
  qed
  have keep: "pt_wf p t" "pview p t = pview p s" "table_frames p t = table_frames p s" if p: "p \<in> T" for p
    using only_counts_keeps [OF oc pa own [OF p table_refs]] B(5) p by auto
  have same: "undisturbed p s t" if "p \<in> T" for p using keep(2,3) [OF that] by (simp add: undisturbed_def)
  then show "p \<in> T \<Longrightarrow> undisturbed p s t" .
  have h: "held t = held s" using oc by (simp add: only_counts_def)
  have "ready p t" if "p \<in> T" for p using B(4) [OF that] keep(1) [OF that] h by (simp add: ready_def unlocked_def)
  moreover have "(\<Sum>p \<in> T. refs p t f) = (\<Sum>p \<in> T. refs p s f)" for f by (rule undisturbed_sum) (rule same)
  moreover have "table_frames p t \<inter> table_frames q t = {}" if "p \<in> T" "q \<in> T" "p \<noteq> q" for p q
    using that keep(3) B(6) by simp
  moreover have "owned t f" if "p \<in> T" "reference_counted p" "pview p t q = VMapped f" for p q f
    using own [OF that(1) mapped_has_refs] that keep(2) by simp
  ultimately show "books T outside' t" using B(1,3) pa rc n h unfolding books_def by simp
qed

text \<open>A table that is given up: its references are nobody's until they are released.\<close>

lemma books_remove:
  assumes b: "books T outside s" and pt: "pt \<in> T"
  shows "books (T - {pt}) (\<lambda>f. outside f + refs pt s f) s"
proof -
  note B = booksD [OF b]
  have "unat (rc s f) = outside f + refs pt s f + (\<Sum>p \<in> T - {pt}. refs p s f)" if "f < npages s" for f
    using B(8) [OF that] sum.remove [OF B(1) pt, of "\<lambda>p. refs p s f"] by simp
  moreover have "finite (T - {pt})" using B(1) by simp
  ultimately show ?thesis using b unfolding books_def by blast
qed

text \<open>Every page the table refers to has that many references to give.\<close>

lemma books_enough:
  assumes b: "books T outside s" and pt: "pt \<in> T" and pos: "0 < refs pt s f"
  shows "f < npages s \<and> refs pt s f \<le> unat (rc s f) \<and> (refs pt s f = unat (rc s f) \<longrightarrow> \<not> pinned s f)"
proof -
  have "owned s f" by (rule refs_owned [OF b pt pos])
  then show ?thesis using booksD(8) [OF books_remove [OF b pt], of f] owned_less by (simp add: owned_def)
qed

lemma books_destroy:
  assumes b: "books T outside s" and pt: "pt \<in> T"
  obtains t where "destroy pt s = Ok () t" "only_counts s t" "books (T - {pt}) outside t"
    "\<And>pt2. pt2 \<in> T - {pt} \<Longrightarrow> undisturbed pt2 s t"
proof -
  note rest = books_remove [OF b pt]
  obtain t where t: "destroy pt s = Ok () t" "only_counts s t" "pa_wf t"
    "\<And>f. f < npages s \<Longrightarrow> unat (rc t f) = unat (rc s f) - refs pt s f"
    using destroy_Ok [OF booksD(5,3) [OF b]] books_enough [OF b] pt b by metis
  have c: "unat (rc t f) = outside f + (\<Sum>p \<in> T - {pt}. refs p s f)" if "f < npages s" for f
    using t(4) booksD(8) [OF rest] that by simp
  show thesis by (rule that [OF t(1,2) books_counts [OF rest t(2,3) c]])
qed

subsection \<open>References held outside of the tables\<close>

text \<open>A block from \<open>alloc\<close>, a reference taken with \<open>ref_acquire\<close>, one given back.\<close>

lemma books_alloc:
  assumes b: "books T outside s" and sz: "sz \<in> sizes" "unat sz dvd npages s" and al: "alloc sz s = Ok r t"
  shows "books T (\<lambda>f. outside f + (if frame r \<le> f \<and> f < frame r + unat sz then 1 else 0)) t"
    "p2 \<in> T \<Longrightarrow> undisturbed p2 s t" "pt \<in> T \<Longrightarrow> frame r \<le> f \<Longrightarrow> f < frame r + unat sz \<Longrightarrow> refs pt s f = 0"
proof -
  note B = booksD [OF b] and prov = alloc_is_provider [OF sz(1)]
  have sv: "serves sz s" using B(2) sz(2) by (simp add: serves_def)
  note ak = alloc_keeps [OF B(2) sz al]
  have keep: "pt_wf p t" "pview p t = pview p s" "table_frames p t = table_frames p s" if "p \<in> T" for p
    using alloc_keeps_table [OF B(5) [OF that] sz al] by (simp_all add: fun_eq_iff)
  have same: "undisturbed p s t" if "p \<in> T" for p using keep(2,3) [OF that] by (simp add: undisturbed_def)
  then show "p2 \<in> T \<Longrightarrow> undisturbed p2 s t" .
  obtain e where e: "allocatable s sz e" "r = of_nat e * PAGE_SIZE" using alloc_OkD [OF B(2) sz al] by metis
  then have fe: "frame r = e" using allocatable_range(5) [OF e(1)] by simp
  have "ready p t" if "p \<in> T" for p
    using B(4) [OF that] keep(1) [OF that] ak(1) by (simp add: ready_def unlocked_def)
  moreover have "(\<Sum>p \<in> T. refs p t f) = (\<Sum>p \<in> T. refs p s f)" for f by (rule undisturbed_sum) (rule same)
  moreover have "table_frames p t \<inter> table_frames q t = {}" if "p \<in> T" "q \<in> T" "p \<noteq> q" for p q
    using that keep(3) B(6) by simp
  moreover have "owned t f" if "p \<in> T" "reference_counted p" "pview p t q = VMapped f" for p q f
    using that keep(2) B(7) page_provider.owned_kept [OF prov sv al] by simp
  moreover have "unat (rc t f) = outside f + (if frame r \<le> f \<and> f < frame r + unat sz then 1 else 0) + (\<Sum>p \<in> T. refs p s f)"
    if f: "f < npages s" for f
    using ak(6) [OF f] B(8) [OF f] allocatable_free(1) [OF e(1), of f] fe by auto
  moreover have "pa_wf t" using page_provider.inv_kept [OF prov sv al] by (simp add: serves_def)
  ultimately show "books T (\<lambda>f. outside f + (if frame r \<le> f \<and> f < frame r + unat sz then 1 else 0)) t"
    using B(1,3) ak(1,3) unfolding books_def by simp
  show "refs pt s f = 0" if "pt \<in> T" "frame r \<le> f" "f < frame r + unat sz"
    using allocatable_not_owned [OF e(1), of f] refs_owned [OF b that(1), of f] that(2,3) fe by auto
qed

lemma books_acquire:
  assumes b: "books T outside s" and p: "page_ix page < npages s" "rc s (page_ix page) \<noteq> 0" "rc s (page_ix page) \<noteq> 255"
  obtains r t where "ref_acquire page s = Ok r t" "only_counts s t"
    "books T (outside(page_ix page := outside (page_ix page) + 1)) t"
    "\<And>pt. pt \<in> T \<Longrightarrow> undisturbed pt s t"
proof -
  let ?p = "page_ix page" and ?t = "count_state (page_ix page) (rc s (page_ix page) + 1) s"
  note B = booksD [OF b]
  have oc: "only_counts s ?t" by (rule only_counts_count_state [OF p(1)])
  have rc: "rc ?t q = (if q = ?p then rc s ?p + 1 else rc s q)" if "q < npages s" for q
    using npages_index [OF B(2)] p(1) that by (intro rc_count_state)
  have c: "unat (rc ?t f) = (outside(?p := outside ?p + 1)) f + (\<Sum>p \<in> T. refs p s f)" if "f < npages s" for f
    using rc [OF that] B(8) [OF that] B(8) [OF p(1)] unat_Suc8 [OF p(3)] by auto
  note books_counts [OF b oc ref_acquire_wf(1) [OF B(2) p] c]
  moreover have "ref_acquire page s = Ok (ucast (rc s ?p + 1)) ?t"
    using p(1,2) by (simp add: ref_acquire_eq [OF B(3)])
  ultimately show thesis using that oc by blast
qed

lemma books_release:
  assumes b: "books T outside s" and p: "page_ix page < npages s" "0 < outside (page_ix page)"
    and last: "pinned s (page_ix page) \<Longrightarrow> 1 < outside (page_ix page)"
  obtains r t where "ref_release page s = Ok r t" "only_counts s t"
    "books T (outside(page_ix page := outside (page_ix page) - 1)) t"
    "\<And>pt. pt \<in> T \<Longrightarrow> undisturbed pt s t"
proof -
  let ?p = "page_ix page" and ?t = "release_state (page_ix page) s"
  note B = booksD [OF b]
  have pos: "outside ?p \<le> unat (rc s ?p)" using B(8) [OF p(1)] by simp
  then have nz: "rc s ?p \<noteq> 0" using p(2) by auto
  have pin: "rc s ?p = 1 \<Longrightarrow> \<not> pinned s ?p" using last pos by auto
  have oc: "only_counts s ?t" by (rule only_counts_release_state [OF p(1)])
  have rc: "rc ?t q = (if q = ?p then rc s ?p - 1 else rc s q)" if "q < npages s" for q
    using npages_index [OF B(2)] p(1) that by (intro rc_release_state)
  have "unat (rc s ?p - 1) = unat (rc s ?p) - 1" using nz by (simp add: unat_minus_one)
  then have c: "unat (rc ?t f) = (outside(?p := outside ?p - 1)) f + (\<Sum>p \<in> T. refs p s f)" if "f < npages s" for f
    using rc [OF that] B(8) [OF that] p(2) by auto
  note books_counts [OF b oc ref_release_wf(1) [OF B(2) p(1) nz pin] c]
  moreover have "ref_release page s = Ok (ucast (rc s ?p - 1)) ?t"
    using p(1) nz by (simp add: ref_release_eq [OF B(3)])
  ultimately show thesis using that oc by blast
qed

end
