(* ===== verification/Kernel_Requests.thy ===== *)
theory Kernel_Requests
  imports Table_System Table_Print
begin

unbundle bit_operations_syntax

text \<open>
  The interface of \<open>PageTable\<close> as requests, and the kernel as the steps that its callers can make: any
  number of tables are constructed, used and destroyed, in any order, while pages are allocated and
  references taken and given back beside them.  Every proper request ends, in a state where the books
  are right again, or in the panic for want of memory.
\<close>

subsection \<open>Requests\<close>

datatype request =
    Reserve u32 AllocationGranularity
  | Reserve_at u32 u32 AllocationGranularity
  | Allocate u32 u32 AllocationGranularity
  | Reserve_allocate u32 AllocationGranularity
  | Reserve_allocate_at u32 u32 AllocationGranularity
  | Map u32 u32 u32 AllocationGranularity
  | Unit_state u32 AllocationGranularity
  | To_physical u32
  | To_virtual u32
  | Print_info
  | Destruct

fun perform :: "PageTable \<Rightarrow> request \<Rightarrow> kstate \<Rightarrow> (kstate, unit) outcome" where
  "perform pt (Reserve n g) s = bind_ok (reserve pt n g s) (\<lambda>_. Ok ())"
| "perform pt (Reserve_at va n g) s = bind_ok (reserve_at pt va n g s) (\<lambda>_. Ok ())"
| "perform pt (Allocate va n g) s = bind_ok (allocate pt va n g s) (\<lambda>_. Ok ())"
| "perform pt (Reserve_allocate n g) s = bind_ok (reserve_allocate pt n g s) (\<lambda>_. Ok ())"
| "perform pt (Reserve_allocate_at va n g) s = bind_ok (reserve_allocate_at pt va n g s) (\<lambda>_. Ok ())"
| "perform pt (Map va pa n g) s = bind_ok (map_units pt va pa n g s) (\<lambda>_. Ok ())"
| "perform pt (Unit_state va g) s = bind_ok (get_unit_state pt va g s) (\<lambda>_. Ok ())"
| "perform pt (To_physical va) s = bind_ok (virtual_to_physical pt va s) (\<lambda>_. Ok ())"
| "perform pt (To_virtual pa) s = bind_ok (physical_to_virtual pt pa s) (\<lambda>_. Ok ())"
| "perform pt Print_info s = print_table_info pt s"
| "perform pt Destruct s = destroy pt s"

text \<open>
  What a caller has to respect: some unit is asked for, and pages within one section when the table
  chooses the address; ranges do not wrap; only tables that count references allocate; RAM is a whole
  number of blocks of the size; \<open>map\<close> is given reserved units and, if the table counts references,
  pages in use whose counts are not at their maximum.
\<close>

fun proper :: "PageTable \<Rightarrow> request \<Rightarrow> kstate \<Rightarrow> bool" where
  "proper pt (Reserve n g) s = askable g n"
| "proper pt (Reserve_at va n g) s = in_range g va n"
| "proper pt (Allocate va n g) s = (reference_counted pt \<and> gran_pages g dvd npages s)"
| "proper pt (Reserve_allocate n g) s = (askable g n \<and> reference_counted pt \<and> gran_pages g dvd npages s)"
| "proper pt (Reserve_allocate_at va n g) s = (in_range g va n \<and> reference_counted pt \<and> gran_pages g dvd npages s)"
| "proper pt (Map va pa n g) s = may_map pt va pa n g s"
| "proper pt _ s = True"

lemma reserve_ends:
  assumes "ready pt s" "askable g n"
  shows "(\<exists>r s'. reserve pt n g s = Ok r s' \<and> change pt s s') \<or> (\<exists>t. reserve pt n g s = panic OutOfMemory t)"
proof (rule reserve_cases [of pt s n g])
  fix a s' assume ok: "reserve pt n g s = Ok (Success a) s'"
  then show ?thesis using change_reserve [OF assms ok] by blast
next
  assume ok: "reserve pt n g s = Ok Failure s"
  then show ?thesis using change_reserve [OF assms ok] by blast
qed (use assms in \<open>auto simp: ready_def askable_def\<close>)

lemma reserve_at_ends:
  assumes "ready pt s" "in_range g va n"
  shows "(\<exists>r s'. reserve_at pt va n g s = Ok r s' \<and> change pt s s') \<or> (\<exists>t. reserve_at pt va n g s = panic OutOfMemory t)"
proof (cases "reservable pt g va n s")
  case True
  then show ?thesis
    using reserve_at_cases [of pt s g va n] change_reserve_at [OF assms] assms by (auto simp: ready_def split: if_splits)
next
  case False
  then show ?thesis
    using reserve_at_cases [of pt s g va n] change_reserve_at [OF assms] assms by (auto simp: ready_def)
qed

text \<open>A reservation followed by an allocation.\<close>

lemma allocate_reserved_ends:
  assumes r: "ready pt s" and rcd: "reference_counted pt" and dv: "gran_pages g dvd npages s"
    and res: "(\<exists>r t. f s = Ok r t \<and> change pt s t) \<or> (\<exists>t. f s = panic OutOfMemory t)"
  shows "(\<exists>r s'. bind_ok (f s) (allocate_reserved pt n g) = Ok r s' \<and> change pt s s') \<or>
    (\<exists>t. bind_ok (f s) (allocate_reserved pt n g) = panic OutOfMemory t)"
  using res
proof
  assume "\<exists>r t. f s = Ok r t \<and> change pt s t"
  then obtain r t where t: "f s = Ok r t" "change pt s t" by blast
  have rt: "ready pt t" "gran_pages g dvd npages t" using change_ready [OF t(2) r] t(2) dv by (simp_all add: change_def)
  show ?thesis
  proof (cases r)
    case (Success a)
    then show ?thesis
      using allocate_change [OF rt(1) rcd rt(2), of a n] t(1) change_trans [OF t(2)]
      by (auto simp: allocate_reserved_def)
  next
    case Failure
    then show ?thesis using t by (simp add: allocate_reserved_def)
  qed
qed auto

lemma request_ends:
  assumes r: "ready pt s" and ok: "proper pt q s" and q: "q \<noteq> Destruct"
  shows "(\<exists>s'. perform pt q s = Ok () s' \<and> change pt s s') \<or> (\<exists>t. perform pt q s = panic OutOfMemory t)"
proof -
  have wf: "pt_wf pt s" "unlocked pt s" using r by (simp_all add: ready_def)
  have same: "change pt s (emit bs s)" for bs using change_refl [OF wf(1)] by (simp add: change_def isolates_def)
  show ?thesis
  proof (cases q)
    case (Reserve n g)
    then show ?thesis using reserve_ends [OF r, of g n] ok by auto
  next
    case (Reserve_at va n g)
    then show ?thesis using reserve_at_ends [OF r, of g va n] ok by auto
  next
    case (Allocate va n g)
    then show ?thesis using allocate_change [OF r, of g va n] ok by auto
  next
    case (Reserve_allocate n g)
    then show ?thesis
      using allocate_reserved_ends [OF r, of g "reserve pt n g" n] reserve_ends [OF r, of g n] ok
      by (auto simp: reserve_allocate_def)
  next
    case (Reserve_allocate_at va n g)
    then show ?thesis
      using allocate_reserved_ends [OF r, of g "reserve_at pt va n g" n] reserve_at_ends [OF r, of g va n] ok
      by (auto simp: reserve_allocate_at_def)
  next
    case (Map va pa n g)
    then have "may_map pt va pa n g s" using ok by simp
    then obtain s' where "map_units pt va pa n g s = Ok True s'" "change pt s s'" by (rule map_units_change [OF r])
    then show ?thesis using Map by simp
  next
    case (Unit_state va g)
    then show ?thesis using unit_state_iff [OF wf, of va g] change_refl [OF wf(1)] by auto
  next
    case (To_physical va)
    then show ?thesis using virtual_to_physical_view [OF wf, of va] change_refl [OF wf(1)] by simp
  next
    case (To_virtual pa)
    obtain r where "physical_to_virtual pt pa s = Ok r s" by (rule physical_to_virtual_cases [OF wf(2)])
    then show ?thesis using To_virtual change_refl [OF wf(1)] by simp
  next
    case Print_info
    have "print_table_info pt s = Ok () (emit (section_lines pt (locked pt s) 0 no_aggregation) s)"
      using wf(2) by (simp add: print_table_info_def with_lock_def unlocked_def locked_def emit_def fun_upd_idem)
    then show ?thesis using Print_info same by simp
  qed (use q in simp)
qed

text \<open>On books that are right, every proper request ends with books that are right, or in that panic.\<close>

lemma request_books:
  assumes b: "books T outside s" and pt: "pt \<in> T" and ok: "proper pt q s"
  obtains s' where "perform pt q s = Ok () s'" "books (if q = Destruct then T - {pt} else T) outside s'"
      "\<And>pt2. pt2 \<in> T - {pt} \<Longrightarrow> undisturbed pt2 s s'"
  | t where "perform pt q s = panic OutOfMemory t"
proof (cases "q = Destruct")
  case True
  show thesis
    by (rule books_destroy [OF b pt], rule that(1)) (use True in auto)
next
  case False
  then consider s' where "perform pt q s = Ok () s'" "change pt s s'" | t where "perform pt q s = panic OutOfMemory t"
    using request_ends [OF booksD(4) [OF b pt] ok] by blast
  then show thesis
  proof cases
    case (1 s')
    note c = books_change [OF b pt 1(2)]
    show thesis by (rule that(1) [OF 1(1)]) (use c False in auto)
  qed (rule that(2))
qed

subsection \<open>Steps of the kernel\<close>

text \<open>
  What the callers do: construct a table, make a request of one, take a block of pages, take one more
  reference to a page in use, give one back that is theirs.  The state of the system is the set of
  tables, the number of references to each page held outside of them, and the state of the kernel.
  The last reference to a page of the allocator's own table is never given back.
\<close>

type_synonym system = "PageTable set \<times> (nat \<Rightarrow> nat) \<times> kstate"

datatype event = New bool bool | Request PageTable request | Take u32 | Acquire u32 | Release u32

inductive kernel_step :: "event \<Rightarrow> system \<Rightarrow> system \<Rightarrow> bool" where
  new_table: "4 dvd npages s \<Longrightarrow> construct su rcd s = Ok pt s' \<Longrightarrow>
    kernel_step (New su rcd) (T, outside, s) (insert pt T, outside, s')"
| request: "pt \<in> T \<Longrightarrow> proper pt q s \<Longrightarrow> perform pt q s = Ok () s' \<Longrightarrow>
    kernel_step (Request pt q) (T, outside, s) (if q = Destruct then T - {pt} else T, outside, s')"
| take_block: "sz \<in> sizes \<Longrightarrow> unat sz dvd npages s \<Longrightarrow> alloc sz s = Ok r s' \<Longrightarrow>
    kernel_step (Take sz) (T, outside, s) (T, \<lambda>f. outside f + (if frame r \<le> f \<and> f < frame r + unat sz then 1 else 0), s')"
| take_reference: "page_ix a < npages s \<Longrightarrow> rc s (page_ix a) \<noteq> 0 \<Longrightarrow> rc s (page_ix a) \<noteq> 255 \<Longrightarrow> ref_acquire a s = Ok r s' \<Longrightarrow>
    kernel_step (Acquire a) (T, outside, s) (T, outside(page_ix a := outside (page_ix a) + 1), s')"
| give_back: "page_ix a < npages s \<Longrightarrow> 0 < outside (page_ix a) \<Longrightarrow> (pinned s (page_ix a) \<Longrightarrow> 1 < outside (page_ix a)) \<Longrightarrow>
    ref_release a s = Ok r s' \<Longrightarrow>
    kernel_step (Release a) (T, outside, s) (T, outside(page_ix a := outside (page_ix a) - 1), s')"

inductive kernel_run :: "event list \<Rightarrow> system \<Rightarrow> system \<Rightarrow> bool" where
  no_step: "kernel_run [] x x"
| next_step: "kernel_step e x y \<Longrightarrow> kernel_run es y z \<Longrightarrow> kernel_run (e # es) x z"

text \<open>The tables that events make requests of.\<close>

definition requested :: "event list \<Rightarrow> PageTable set" where
  "requested es = {pt. \<exists>q. Request pt q \<in> set es}"

lemma requested_simps [simp]: "requested [] = {}" "requested (Request pt q # es) = insert pt (requested es)"
  "requested (New su rcd # es) = requested es" "requested (Take sz # es) = requested es"
  "requested (Acquire a # es) = requested es" "requested (Release a # es) = requested es"
  by (auto simp: requested_def)

lemma kernel_step_books:
  assumes st: "kernel_step e (T, outside, s) (T', outside', s')" and b: "books T outside s"
  shows "books T' outside' s' \<and> (\<forall>pt \<in> T - requested [e]. pt \<in> T' \<and> undisturbed pt s s')"
  using st
proof (cases rule: kernel_step.cases)
  case (new_table su rcd pt)
  then show ?thesis using books_construct [OF b] by auto
next
  case (request pt q)
  then have p: "pt \<in> T" "proper pt q s" "perform pt q s = Ok () s'" by simp_all
  show ?thesis by (rule request_books [OF b p(1,2)]) (use request p(3) in \<open>auto simp: panic_def\<close>)
next
  case (take_block sz r)
  then show ?thesis using books_alloc [OF b] by auto
next
  case (take_reference a r)
  then show ?thesis by (auto elim!: books_acquire [OF b])
next
  case (give_back a r)
  then show ?thesis by (auto elim!: books_release [OF b])
qed

lemma kernel_run_books:
  assumes "kernel_run es x y" "books (fst x) (fst (snd x)) (snd (snd x))"
  shows "books (fst y) (fst (snd y)) (snd (snd y)) \<and>
    (\<forall>pt \<in> fst x - requested es. pt \<in> fst y \<and> undisturbed pt (snd (snd x)) (snd (snd y)))"
  using assms
proof (induction rule: kernel_run.induct)
  case (no_step x)
  then show ?case by (simp add: undisturbed_def)
next
  case (next_step e x y es z)
  obtain T out s T1 out1 s1 where x: "x = (T, out, s)" and y: "y = (T1, out1, s1)" using prod_cases3 by metis
  have 1: "books T1 out1 s1 \<and> (\<forall>pt \<in> T - requested [e]. pt \<in> T1 \<and> undisturbed pt s s1)"
    using kernel_step_books next_step.hyps(1) next_step.prems by (simp add: x y)
  have "requested (e # es) = requested [e] \<union> requested es" by (auto simp: requested_def)
  then show ?case using 1 next_step.IH by (auto simp: x y intro: undisturbed_trans)
qed

end
