(* ===== verification/Table_Lifetime.thy ===== *)
theory Table_Lifetime
  imports Kernel_Requests
begin

unbundle bit_operations_syntax

text \<open>
  The reference counts over the life of one page table.  Between its construction and its destruction
  every count is what it was before, plus the references the table holds: the books of that table
  alone.  Its requests, successful or not, keep these accounts, and the destructor settles them.
\<close>

subsection \<open>Accounts\<close>

definition accounts :: "PageTable \<Rightarrow> kstate \<Rightarrow> kstate \<Rightarrow> bool" where
  "accounts pt s0 s \<longleftrightarrow> books {pt} (\<lambda>f. unat (rc s0 f)) s \<and> npages s = npages s0 \<and> rtab s = rtab s0"

lemma accounts_emit [simp]: "accounts pt s0 (emit bs s) = accounts pt s0 s"
  by (simp add: accounts_def)

lemma accounts_ready: "accounts pt s0 s \<Longrightarrow> ready pt s"
  by (auto simp: accounts_def intro: booksD(4))

lemma construct_rtab:
  assumes "pa_wf s" "4 dvd npages s" "construct su rcd s = Ok pt s'"
  shows "rtab s' = rtab s"
proof -
  obtain r t where al: "alloc 4 s = Ok r t" and s': "\<exists>n h. s' = fill r 0 n 0 (t\<lparr>held := h\<rparr>)"
    using assms(3) by (auto simp: construct_def bind_ok_eq_Ok Let_def)
  have "unat (4 :: u32) dvd npages s" using assms(2) by simp
  then show ?thesis using alloc_keeps(4) [OF assms(1) sizes_4 _ al] s' by (auto simp: fill_def)
qed

lemma accounts_construct:
  assumes wf: "pa_wf s" and l: "\<not> held s PageAllocLock" and d: "4 dvd npages s" and ok: "construct su rcd s = Ok pt s'"
  shows "accounts pt s s'"
  using books_construct(1) [OF books_none [OF wf l] d ok] construct_spec(8) [OF wf d ok] construct_rtab [OF wf d ok]
  by (simp add: accounts_def)

lemma accounts_change: "accounts pt s0 s \<Longrightarrow> change pt s s' \<Longrightarrow> accounts pt s0 s'"
  using books_change [of "{pt}"] by (auto simp: accounts_def change_def)

text \<open>Settling the accounts.\<close>

lemma accounts_destroy:
  assumes a: "accounts pt s0 s"
  obtains t where "destroy pt s = Ok () t" "pa_wf t" "npages t = npages s0" "\<And>f. f < npages s0 \<Longrightarrow> rc t f = rc s0 f"
    "held t = held s" "rtab t = rtab s0"
proof -
  note A = a [unfolded accounts_def]
  obtain t where t: "destroy pt s = Ok () t" "only_counts s t" "books {} (\<lambda>f. unat (rc s0 f)) t"
    using books_destroy [OF conjunct1 [OF A], of pt] by auto
  have "npages t = npages s" by (rule only_counts_npages [OF t(2)])
  moreover have "rc t f = rc s0 f" if "f < npages t" for f
    using booksD(8) [OF t(3) that] by (simp add: word_unat_eq_iff)
  ultimately show thesis using that t A booksD(2) [OF t(3)] by (simp add: only_counts_def)
qed

subsection \<open>The life of a table\<close>

text \<open>Any sequence of proper requests, of which none panics.\<close>

inductive table_uses :: "PageTable \<Rightarrow> kstate \<Rightarrow> kstate \<Rightarrow> bool" for pt where
  unused: "table_uses pt s s"
| use_request: "table_uses pt s t \<Longrightarrow> proper pt q t \<Longrightarrow> q \<noteq> Destruct \<Longrightarrow> perform pt q t = Ok () u \<Longrightarrow> table_uses pt s u"

lemma uses_accounts: "table_uses pt s s' \<Longrightarrow> accounts pt s0 s \<Longrightarrow> accounts pt s0 s'"
proof (induction rule: table_uses.induct)
  case (use_request s t q u)
  then have "ready pt t" using accounts_ready by blast
  then have "change pt t u" using request_ends use_request.hyps by (fastforce simp: panic_def)
  then show ?case using accounts_change use_request by blast
qed

end
