(* ===== verification/Lifetime_Correct.thy ===== *)
theory Lifetime_Correct
  imports Table_Lifetime Table_Correct
begin

unbundle bit_operations_syntax

text \<open>
  Reservations at an address the table chooses, and the life of a table from its construction to its
  destruction: the properties.
\<close>

subsection \<open>Reservation anywhere\<close>

text \<open>
  C10: \<open>reserve\<close> without an address is complete, for a count that is not zero and, for pages, at most 256
  (with more the code writes past the second-level table it creates).  It either reserves a free range of
  the size asked for, inside the address space and (for pages) inside one section: exactly its pages
  become reserved, and nothing outside the table's pages and the counts of new pages changes; or, for
  pages, runs out of memory for a second-level table with less than two pages of room; or fails, changing
  nothing, and then there is no such range.  (A free range of pages that crosses from one section into the
  next is not found.)
\<close>

theorem reserve_anywhere_refines:
  assumes "pt_wf pt s" "unlocked pt s" "0 < unat n" "g = GPage \<longrightarrow> unat n \<le> 256"
  shows "(\<exists>a s'. reserve pt n g s = Ok (Success a) s' \<and> a = unit_address g a \<and> eligible g a n \<and>
      reservable pt g a n s \<and> pt_wf pt s' \<and> held s' = held s \<and> table_op pt s s' \<and>
      (\<forall>p. pview pt s' p = (if p \<in> unit_range g a n then VReserved else pview pt s p))) \<or>
    (g = GPage \<and> \<not> room 1 2 s \<and> (\<exists>t. reserve pt n g s = panic OutOfMemory t)) \<or>
    (reserve pt n g s = Ok Failure s \<and> \<not> (\<exists>va. eligible g va n \<and> reservable pt g va n s))"
proof -
  have n: "g = GPage \<Longrightarrow> unat n \<le> 256" using assms(4) by blast
  show ?thesis
  proof (rule reserve_cases [OF assms(1-3) n])
    fix a s' assume "reserve pt n g s = Ok (Success a) s'" "found pt g n s a s'"
    then show ?thesis by (auto simp: found_def reserves_def table_op_def)
  qed blast+
qed

theorem reserve_anywhere_refines_witness:
  "\<exists>pt s a s'. reserve pt 1 GSection s = Ok (Success a) s' \<and> pview pt s' (frame a) = VReserved"
proof -
  obtain pt s where t: "empty_table pt s" "nent pt = 2048" using small_table by metis
  have e: "eligible GSection 0 1" by (simp add: eligible_def in_range_def unit_base_simps frame_def)
  have "reservable pt GSection 0 1 s"
    using t by (simp add: reservable_def empty_table_def unit_range_def unit_base_simps frame_def div_less_iff_less_mult)
  then obtain a s' where a: "reserve pt 1 GSection s = Ok (Success a) s'"
    "\<forall>p. pview pt s' p = (if p \<in> unit_range GSection a 1 then VReserved else pview pt s p)"
    using reserve_anywhere_refines [of pt s 1 GSection] t e by (auto simp: empty_table_def)
  have "frame a \<in> unit_range GSection a 1"
    using div_mult_mod_eq [of "frame a" 256] by (simp add: unit_range_def unit_base_simps)
  then have "pview pt s' (frame a) = VReserved" using a(2) by simp
  then show ?thesis using a(1) by blast
qed

text \<open>Any reservations, at given addresses and anywhere, in any order.\<close>

inductive reserving :: "PageTable \<Rightarrow> kstate \<Rightarrow> kstate \<Rightarrow> bool" for pt where
  still: "reserving pt s s"
| anywhere: "reserving pt s t \<Longrightarrow> askable g n \<Longrightarrow> reserve pt n g t = Ok r u \<Longrightarrow> reserving pt s u"
| at_address: "reserving pt s t \<Longrightarrow> in_range g va n \<Longrightarrow> reserve_at pt va n g t = Ok r u \<Longrightarrow> reserving pt s u"

lemma reserving_keeps:
  assumes "reserving pt s s'" "ready pt s"
  shows "ready pt s' \<and> (pview pt s p = VReserved \<longrightarrow> pview pt s' p = VReserved)"
  using assms
proof (induction rule: reserving.induct)
  case (anywhere s t g n r u)
  then have "ready pt t \<and> askable g n" by blast
  then show ?case
    using anywhere.good_kept anywhere.reserved_stays anywhere.hyps anywhere.IH anywhere.prems by blast
next
  case (at_address s t g va n r u)
  then have "ready pt t \<and> in_range g va n" by blast
  then show ?case
    using at_address.good_kept at_address.reserved_stays at_address.hyps at_address.IH at_address.prems by blast
qed simp

text \<open>
  Two reservations never overlap.  Whatever one call of \<open>reserve\<close> returned is disjoint from what a
  later call returns, after any reservations at given addresses and anywhere in between.
\<close>

theorem reservations_disjoint:
  assumes "pt_wf pt s" "unlocked pt s" "askable g n" "askable h k"
    and "reserve pt n g s = Ok (Success a) s1" "reserving pt s1 s2" "reserve pt k h s2 = Ok (Success b) s3"
  shows "unit_range g a n \<inter> unit_range h b k = {}"
proof -
  have s: "ready pt s \<and> askable g n" using assms(1-3) by (simp add: ready_def)
  have r1: "ready pt s1" using anywhere.good_kept [OF s assms(5)] by blast
  have "pview pt s2 p = VReserved" if "p \<in> unit_range g a n" for p
    using anywhere.now_reserved [OF s assms(5), of p] reserving_keeps [OF assms(6) r1, of p] that by simp
  moreover have "ready pt s2 \<and> askable h k" using reserving_keeps [OF assms(6) r1] assms(4) by blast
  ultimately show ?thesis using anywhere.not_handed_out [OF _ assms(7)] by blast
qed

theorem reservations_disjoint_witness:
  "\<exists>pt s a b s1 s2. reserve pt 1 GSection s = Ok (Success a) s1 \<and> reserve pt 1 GSection s1 = Ok (Success b) s2 \<and>
     unit_range GSection a 1 \<inter> unit_range GSection b 1 = {}"
proof -
  obtain pt s where t: "empty_table pt s" "nent pt = 2048" using small_table by metis
  have wf: "pt_wf pt s" "unlocked pt s" using t(1) by (simp_all add: empty_table_def)
  have e: "eligible GSection (of_nat i * SECTION_SIZE) 1" "unit_range GSection (of_nat i * SECTION_SIZE) 1 = {256 * i..<256 * i + 256}"
    if "i < 2" for i
  proof -
    have "frame (of_nat i * SECTION_SIZE) = 256 * i" using that by (cases "i = 0") (auto simp: frame_def less_2_cases_iff)
    then show "eligible GSection (of_nat i * SECTION_SIZE) 1"
      "unit_range GSection (of_nat i * SECTION_SIZE) 1 = {256 * i..<256 * i + 256}"
      using that by (simp_all add: eligible_def in_range_def unit_range_def unit_base_simps mult.commute)
  qed
  have free: "pview pt s p = VFree" "\<not> by_page pt s p" if "p < 512" for p
    using t that by (simp_all add: empty_table_def div_less_iff_less_mult)
  have v0: "reservable pt GSection (of_nat i * SECTION_SIZE) 1 s" if "i < 2" for i
    using free that by (simp add: reservable_def e(2))
  obtain a s1 where a: "reserve pt 1 GSection s = Ok (Success a) s1" "found pt GSection 1 s a s1"
    by (rule reserve_cases [OF wf, of 1 GSection]) (use e(1) [of 0] v0 [of 0] in auto)
  note A = a(2) [unfolded found_def reserves_def]
  have ask: "askable GSection 1" by (simp add: askable_def)
  have wf1: "pt_wf pt s1" "unlocked pt s1"
    using anywhere.good_kept [OF _ a(1)] wf ask by (auto simp: ready_def)
  obtain i :: nat where i: "i < 2" "frame a div 256 \<noteq> i" 
    by (rule that [of "if frame a div 256 = 0 then 1 else 0"]) auto
  have "p \<notin> unit_range GSection a 1" if "p \<in> {256 * i..<256 * i + 256}" for p
    using i(2) that by (auto simp: unit_range_def unit_base_simps)
  then have "reservable pt GSection (of_nat i * SECTION_SIZE) 1 s1"
    using A v0 [OF i(1)] by (auto simp: reservable_def e(2) [OF i(1)])
  then obtain b s2 where b: "reserve pt 1 GSection s1 = Ok (Success b) s2"
    by (rule_tac reserve_cases [OF wf1, of 1 GSection]) (use e(1) [OF i(1)] in auto)
  then show ?thesis using reservations_disjoint [OF wf ask ask a(1) still b] a(1) by blast
qed

subsection \<open>Destruction\<close>

text \<open>
  The destructor gives back exactly the references the table holds: one for each page it lies in
  and, if it counts references, one for each virtual page mapped.  If every page it refers to has
  that many references, and no page of the allocator would be freed, each count goes down by them
  and nothing else changes.
\<close>

theorem destroy_returns_references:
  assumes "pt_wf pt s" "\<not> held s PageAllocLock"
    and "\<forall>f. 0 < refs pt s f \<longrightarrow> f < npages s \<and> refs pt s f \<le> unat (rc s f) \<and>
      (refs pt s f = unat (rc s f) \<longrightarrow> \<not> pinned s f)"
  shows "\<exists>t. destroy pt s = Ok () t \<and> pa_wf t \<and> only_counts s t \<and>
    (\<forall>f < npages s. unat (rc t f) = unat (rc s f) - refs pt s f)"
proof -
  have "f < npages s \<and> refs pt s f \<le> unat (rc s f) \<and> (refs pt s f = unat (rc s f) \<longrightarrow> \<not> pinned s f)"
    if "0 < refs pt s f" for f using assms(3) that by blast
  then obtain t where "destroy pt s = Ok () t" "only_counts s t" "pa_wf t"
    "\<And>f. f < npages s \<Longrightarrow> unat (rc t f) = unat (rc s f) - refs pt s f"
    using destroy_Ok [OF assms(1,2)] by blast
  then show ?thesis by blast
qed

theorem destroy_returns_references_witness:
  "\<exists>pt s t. construct True True small = Ok pt s \<and> destroy pt s = Ok () t \<and> rc s (frame (root pt)) = 1 \<and>
     rc t (frame (root pt)) = 0"
proof -
  obtain pt s where ok: "construct True True small = Ok pt s" using small_construct .
  have d: "4 dvd npages small" by simp
  note c = construct_spec [OF small_wf d ok]
  have a: "accounts pt small s" by (rule accounts_construct [OF small_wf _ d ok]) simp
  then have b: "books {pt} (\<lambda>f. unat (rc small f)) s" by (simp add: accounts_def)
  have l: "\<not> held s PageAllocLock" by (simp add: c(6) pt_lock_def)
  let ?f = "frame (root pt)"
  have f: "?f \<in> root_frames pt" by (simp add: root_frames_def)
  then have n: "?f < npages small" using owned_less [OF pt_wfD(7) [OF c(1)]] c(8) by simp
  have r: "rc s ?f = 1" "rc small ?f = 0" using c(11) [OF n] c(12) [OF f n] f by simp_all
  have e: "unat (rc s ?f) = unat (rc small ?f) + refs pt s ?f" using booksD(8) [OF b] n c(8) by simp
  obtain t where t: "destroy pt s = Ok () t" "unat (rc t ?f) = unat (rc s ?f) - refs pt s ?f"
    using destroy_returns_references [OF c(1) l] books_enough [OF b] n c(8) by (metis insertI1)
  have "unat (rc t ?f) = 0" using t(2) e r by simp
  then have "rc t ?f = 0" by (simp add: unat_eq_0)
  then show ?thesis using ok t(1) r(1) by blast
qed

text \<open>
  C11: a table leaves nothing behind.  After its construction, any proper requests (reservations,
  allocations, mappings, translations, listings), and its destruction, every reference count is what
  it was, so the same pages are in use: what an allocation that failed half way had mapped is given
  back too.
\<close>

theorem table_lifetime_restores_counts:
  assumes "pa_wf s" "4 dvd npages s" "\<not> held s PageAllocLock"
    and "construct su rcd s = Ok pt s1" "table_uses pt s1 s2"
  shows "\<exists>t. destroy pt s2 = Ok () t \<and> pa_wf t \<and> used t = used s \<and> (\<forall>f < npages s. rc t f = rc s f)"
proof -
  have "accounts pt s s2" using uses_accounts [OF assms(5)] accounts_construct [OF assms(1,3,2,4)] .
  then obtain t where "destroy pt s2 = Ok () t" "pa_wf t" "npages t = npages s" "\<And>f. f < npages s \<Longrightarrow> rc t f = rc s f"
    by (rule accounts_destroy) (rule that)
  moreover from this have "used t = used s" by (auto simp: used_def)
  ultimately show ?thesis by blast
qed

theorem table_lifetime_restores_counts_witness:
  "\<exists>pt s1 s2 t. construct True True small = Ok pt s1 \<and> reserve_at pt 0x80000000 1 GSection s1 = Ok (Success 0x80000000) s2 \<and>
     destroy pt s2 = Ok () t \<and> used t = used small"
proof -
  obtain pt s1 where ok: "construct True True small = Ok pt s1" using small_construct .
  have d: "4 dvd npages small" by simp
  note c = construct_spec [OF small_wf d ok]
  have wf: "pt_wf pt s1" "unlocked pt s1" using c(1,6) by (simp_all add: unlocked_def pt_lock_def)
  have r: "in_range GSection 0x80000000 1" by (simp add: in_range_def unit_base_simps frame_def)
  have ran: "unit_range GSection 0x80000000 1 = {0x80000..<0x80100}"
    by (simp add: unit_range_def unit_base_simps frame_def)
  have "pview pt s1 p = VFree \<and> \<not> by_page pt s1 p" if "p \<in> {0x80000..<0x80100}" for p
    using zero_view [of pt s1 p, OF c(4)] c(2) that by (simp add: div_less_iff_less_mult)
  then have res: "reservable pt GSection 0x80000000 1 s1" by (simp add: reservable_def ran)
  have "unit_address GSection 0x80000000 = 0x80000000" by (simp add: unit_address_def unit_base_simps frame_def)
  then obtain s2 where s2: "reserve_at pt 0x80000000 1 GSection s1 = Ok (Success 0x80000000) s2"
    using reserve_at_cases [OF wf r] res by auto
  have u: "table_uses pt s1 s2"
    by (rule use_request [OF unused, where q = "Reserve_at 0x80000000 1 GSection"]) (use r s2 in simp_all)
  show ?thesis using table_lifetime_restores_counts [OF small_wf d _ ok u] ok s2 by auto
qed

end
