(* ===== verification/Table_Tests.thy ===== *)
theory Table_Tests
  imports Table_Print
begin

unbundle bit_operations_syntax

text \<open>
  \<^verbatim>\<open>src/src/pagetable_tests.cc\<close>: the tests the loader runs when it is built with \<open>RUN_TESTS\<close>.  They
  construct a table, reserve ranges of every granularity in it, at given addresses and anywhere, look
  at the state of the units before and after, list the table, destroy it and compare the memory in
  use.  \<open>all_passed\<close> goes through all of them.
\<close>

subsection \<open>The shapes of the tests\<close>

text \<open>
  The state of \<open>n\<close> units a page apart, from \<open>base\<close> on, is \<open>want\<close> for each; a test of a single unit
  is the case \<open>n = 1\<close>.
\<close>

fun check_units ::
  "PageTable \<Rightarrow> AllocationGranularity \<Rightarrow> UnitState \<Rightarrow> u32 \<Rightarrow> nat list \<Rightarrow> bool \<Rightarrow> kstate \<Rightarrow> (kstate, bool) outcome" where
  "check_units table g want base [] all_passed s = Ok all_passed s"
| "check_units table g want base (i # is) all_passed s =
     bind_ok (get_unit_state table (base + of_nat i * 0x1000) g s)
       (\<lambda>check. check_units table g want base is (all_passed \<and> check = Success want))"

definition report :: "bool \<Rightarrow> kstate \<Rightarrow> (kstate, bool) outcome" where
  "report all_passed s = Ok all_passed (emit (line_of (if all_passed then ''passed'' else ''failed'')) s)"

text \<open>Free before, reserved, reserved after.\<close>

definition reservation_test ::
  "string \<Rightarrow> u32 \<Rightarrow> u32 \<Rightarrow> AllocationGranularity \<Rightarrow> PageTable \<Rightarrow> bool \<Rightarrow> kstate \<Rightarrow> (kstate, bool) outcome" where
  "reservation_test title addr n g table all_passed s =
     bind_ok (check_units table g UFree addr [0..<unat n] all_passed (emit (bytes_of title) s)) (\<lambda>all_passed s.
     bind_ok (reserve_at table addr n g s) (\<lambda>reservation s.
     bind_ok (check_units table g UReserved addr [0..<unat n] (all_passed \<and> is_success reservation) s)
       report))"

text \<open>A reservation that must fail.\<close>

definition clash_test ::
  "string \<Rightarrow> u32 \<Rightarrow> u32 \<Rightarrow> AllocationGranularity \<Rightarrow> PageTable \<Rightarrow> bool \<Rightarrow> kstate \<Rightarrow> (kstate, bool) outcome" where
  "clash_test title addr n g table all_passed s =
     bind_ok (reserve_at table addr n g (emit (bytes_of title) s))
       (\<lambda>reservation. report (all_passed \<and> \<not> is_success reservation))"

text \<open>
  A reservation anywhere; \<open>units\<close> of what it returns are looked at.  The address in a failed result is
  not initialised.
\<close>

definition anywhere_test ::
  "string \<Rightarrow> u32 \<Rightarrow> nat \<Rightarrow> AllocationGranularity \<Rightarrow> PageTable \<Rightarrow> bool \<Rightarrow> kstate \<Rightarrow> (kstate, bool) outcome" where
  "anywhere_test title n units g table all_passed s =
     bind_ok (reserve table n g (emit (bytes_of title) s)) (\<lambda>reservation s.
       case reservation of
         Failure \<Rightarrow> Undef
       | Success addr \<Rightarrow> bind_ok (check_units table g UReserved addr [0..<units] all_passed s) report)"

subsection \<open>The tests\<close>

definition test_single_page :: "PageTable \<Rightarrow> bool \<Rightarrow> kstate \<Rightarrow> (kstate, bool) outcome" where
  "test_single_page = reservation_test ''Single page reservation: '' 0x10000000 1 GPage"

definition test_single_section :: "PageTable \<Rightarrow> bool \<Rightarrow> kstate \<Rightarrow> (kstate, bool) outcome" where
  "test_single_section = reservation_test ''Single section reservation: '' 0x20000000 1 GSection"

definition test_single_supersection :: "PageTable \<Rightarrow> bool \<Rightarrow> kstate \<Rightarrow> (kstate, bool) outcome" where
  "test_single_supersection =
     reservation_test ''Single supersection reservation: '' 0x30000000 1 GSupersection"

definition test_page_in_table :: "PageTable \<Rightarrow> bool \<Rightarrow> kstate \<Rightarrow> (kstate, bool) outcome" where
  "test_page_in_table =
     reservation_test ''Reservation of page in partially-reserved second-level table: '' 0x10001000 1 GPage"

definition test_multi_page :: "PageTable \<Rightarrow> bool \<Rightarrow> kstate \<Rightarrow> (kstate, bool) outcome" where
  "test_multi_page = reservation_test ''Multi-page reservation: '' 0x11000000 5 GPage"

definition test_clash :: "PageTable \<Rightarrow> bool \<Rightarrow> kstate \<Rightarrow> (kstate, bool) outcome" where
  "test_clash = clash_test ''Clashing reservation: '' 0x10000000 1 GSection"

definition test_multi_page_in_table :: "PageTable \<Rightarrow> bool \<Rightarrow> kstate \<Rightarrow> (kstate, bool) outcome" where
  "test_multi_page_in_table =
     reservation_test ''Multi-page reservation in partially-reserved second-level table: '' 0x10007000 5 GPage"

definition test_overflowing :: "PageTable \<Rightarrow> bool \<Rightarrow> kstate \<Rightarrow> (kstate, bool) outcome" where
  "test_overflowing = reservation_test ''Overflowing reservation: '' 0x12000000 300 GPage"

definition test_overflowing_in_table :: "PageTable \<Rightarrow> bool \<Rightarrow> kstate \<Rightarrow> (kstate, bool) outcome" where
  "test_overflowing_in_table =
     reservation_test ''Overflowing reservation in partially-reserved second-level table: '' 0x10010000 300 GPage"

definition test_overlap :: "PageTable \<Rightarrow> bool \<Rightarrow> kstate \<Rightarrow> (kstate, bool) outcome" where
  "test_overlap = clash_test ''Partially-overlapping reservation: '' 0x11fff000 4 GPage"

definition test_any_page :: "PageTable \<Rightarrow> bool \<Rightarrow> kstate \<Rightarrow> (kstate, bool) outcome" where
  "test_any_page = anywhere_test ''Nonspecific single page reservation: '' 1 1 GPage"

definition test_any_section :: "PageTable \<Rightarrow> bool \<Rightarrow> kstate \<Rightarrow> (kstate, bool) outcome" where
  "test_any_section = anywhere_test ''Nonspecific single section reservation: '' 1 1 GSection"

definition test_any_supersection :: "PageTable \<Rightarrow> bool \<Rightarrow> kstate \<Rightarrow> (kstate, bool) outcome" where
  "test_any_supersection =
     anywhere_test ''Nonspecific single supersection reservation: '' 1 1 GSupersection"

definition test_any_pages :: "PageTable \<Rightarrow> bool \<Rightarrow> kstate \<Rightarrow> (kstate, bool) outcome" where
  "test_any_pages = anywhere_test ''Nonspecific multi-page reservation: '' 64 64 GPage"

text \<open>One test after the other.\<close>

fun in_turn :: "(bool \<Rightarrow> 's \<Rightarrow> ('s, bool) outcome) list \<Rightarrow> bool \<Rightarrow> 's \<Rightarrow> ('s, bool) outcome" where
  "in_turn [] all_passed s = Ok all_passed s"
| "in_turn (t # ts) all_passed s = bind_ok (t all_passed s) (in_turn ts)"

definition reservation_tests :: "PageTable \<Rightarrow> bool \<Rightarrow> kstate \<Rightarrow> (kstate, bool) outcome" where
  "reservation_tests table = in_turn
     [test_single_page table, test_single_section table, test_single_supersection table,
      test_page_in_table table, test_multi_page table, test_clash table,
      test_multi_page_in_table table, test_overflowing table, test_overflowing_in_table table,
      test_overlap table, test_any_page table, test_any_section table,
      test_any_supersection table, test_any_pages table]"

text \<open>The life of the table, and what it leaves in use.\<close>

definition leak_check :: "MemStats \<Rightarrow> bool \<Rightarrow> kstate \<Rightarrow> (kstate, bool) outcome" where
  "leak_check stats_i all_passed s =
     bind_ok (get_mem_stats s) (\<lambda>stats_f s.
       if usedmem stats_i \<noteq> usedmem stats_f
       then Ok False (emit (bytes_of ''Leaked '' @ puthex_bytes (usedmem stats_f - usedmem stats_i) @
              line_of '' bytes'') s)
       else Ok all_passed s)"

definition test_reservations :: "kstate \<Rightarrow> (kstate, bool) outcome" where
  "test_reservations s =
     bind_ok (get_mem_stats s) (\<lambda>stats_i s.
     bind_ok (construct True True (emit (line_of ''begin constructor'') s)) (\<lambda>table s.
     bind_ok (reservation_tests table True (emit (line_of ''end constructor'') s)) (\<lambda>all_passed s.
     bind_ok (print_table_info table (emit putline_bytes s)) (\<lambda>_ s.
     bind_ok (destroy table s) (\<lambda>_. leak_check stats_i all_passed)))))"

definition test_pagetables :: "kstate \<Rightarrow> (kstate, bool) outcome" where
  "test_pagetables s =
     (let all_passed = True
      in bind_ok (test_reservations s) (\<lambda>passed. Ok (all_passed \<and> passed)))"

end
