(* ===== verification/Paging_Manager.thy ===== *)
theory Paging_Manager
  imports Page_Table
begin

unbundle bit_operations_syntax

text \<open>
  \<open>class PagingManager\<close> (\<^verbatim>\<open>src/src/pagetable.cc\<close>): the writes to the system control coprocessor
  that install page tables and turn paging on.  The registers are a record; the cache and TLB
  operations are kept as events in the order of the code.
\<close>

datatype cp15_event = WriteTTBR0 | WriteTTBR1 | WriteTTBCR | WriteDACR | WriteControl
  | InvalidateICache | InvalidateTLB | Fence

record cp15 =
  ttbr0 :: u32
  ttbr1 :: u32
  ttbcr :: u32
  dacr :: u32
  control :: u32
  cp15_trace :: "cp15_event list"

definition cp15_event :: "cp15_event \<Rightarrow> cp15 \<Rightarrow> cp15" where
  "cp15_event e c = c\<lparr>cp15_trace := cp15_trace c @ [e]\<rparr>"

definition SetLowerPageTable :: "PageTable \<Rightarrow> cp15 \<Rightarrow> cp15" where
  "SetLowerPageTable pt c =
     cp15_event WriteTTBR0 (c\<lparr>ttbr0 := first_level_table pt AND 0xffffc000\<rparr>)"

definition SetUpperPageTable :: "PageTable \<Rightarrow> cp15 \<Rightarrow> cp15" where
  "SetUpperPageTable pt c =
     cp15_event WriteTTBR1 (c\<lparr>ttbr1 := first_level_table pt AND 0xffffc000\<rparr>)"

definition SetPagingMode :: "bool \<Rightarrow> bool \<Rightarrow> cp15 \<Rightarrow> cp15" where
  "SetPagingMode lower_enable upper_enable c =
     (let v = 0x00000001;
          v = (if \<not> lower_enable then v OR 0x10 else v);
          v = (if \<not> upper_enable then v OR 0x20 else v);
          c = cp15_event WriteTTBCR (c\<lparr>ttbcr := v\<rparr>)
      in cp15_event WriteDACR (c\<lparr>dacr := 0xffffffff\<rparr>))"

definition EnablePaging :: "cp15 \<Rightarrow> cp15" where
  "EnablePaging c =
     (let status = control c AND 0xffffeffb;
          c = cp15_event WriteControl (c\<lparr>control := status\<rparr>);
          c = cp15_event InvalidateICache c;
          c = cp15_event InvalidateTLB c;
          c = cp15_event Fence c;
          status = status OR 0x00800001
      in cp15_event WriteControl (c\<lparr>control := status\<rparr>))"

text \<open>The bits paging depends on: MMU on, ARMv6 descriptors, data and instruction caches off.\<close>

definition paging_on :: "cp15 \<Rightarrow> bool" where
  "paging_on c \<longleftrightarrow> control c AND 0x00800001 = 0x00800001 \<and> control c AND 0x1004 = 0"

lemma EnablePaging_simps [simp]:
  "ttbr0 (EnablePaging c) = ttbr0 c" "ttbr1 (EnablePaging c) = ttbr1 c"
  "ttbcr (EnablePaging c) = ttbcr c" "dacr (EnablePaging c) = dacr c"
  by (simp_all add: EnablePaging_def cp15_event_def Let_def)

lemma SetPagingMode_simps [simp]:
  "ttbr0 (SetPagingMode l u c) = ttbr0 c" "ttbr1 (SetPagingMode l u c) = ttbr1 c"
  "control (SetPagingMode l u c) = control c" "dacr (SetPagingMode l u c) = 0xffffffff"
  "ttbcr (SetPagingMode l u c) = 1 OR (if l then 0 else 0x10) OR (if u then 0 else 0x20)"
  by (simp_all add: SetPagingMode_def cp15_event_def Let_def)

lemma SetPageTable_simps [simp]:
  "ttbr0 (SetLowerPageTable pt c) = first_level_table pt AND 0xffffc000"
  "ttbr1 (SetLowerPageTable pt c) = ttbr1 c" "ttbcr (SetLowerPageTable pt c) = ttbcr c"
  "control (SetLowerPageTable pt c) = control c"
  "ttbr1 (SetUpperPageTable pt c) = first_level_table pt AND 0xffffc000"
  "ttbr0 (SetUpperPageTable pt c) = ttbr0 c" "ttbcr (SetUpperPageTable pt c) = ttbcr c"
  "control (SetUpperPageTable pt c) = control c"
  by (simp_all add: SetLowerPageTable_def SetUpperPageTable_def cp15_event_def)

lemma EnablePaging_on: "paging_on (EnablePaging c)"
proof -
  have "((control c AND 0xffffeffb) OR 0x00800001) AND 0x00800001 = 0x00800001"
    by (rule bit_word_eqI) (auto simp: bit_simps)
  moreover have "((control c AND 0xffffeffb) OR 0x00800001) AND 0x1004 = 0"
  proof -
    have "(control c AND 0xffffeffb) AND 0x1004 = 0" by (simp add: and.assoc)
    then show ?thesis by (simp add: bit.conj_disj_distrib2)
  qed
  ultimately show ?thesis by (simp add: paging_on_def EnablePaging_def cp15_event_def Let_def)
qed

end
