(* ===== verification/Atags.thy ===== *)
theory Atags
  imports Kernel
begin

unbundle bit_operations_syntax

text \<open>
  \<^verbatim>\<open>src/src/atags.cc\<close>: the list of tags the firmware leaves in memory.  A tag is its length in words,
  its kind and its payload; the kind \<open>ATAG_NONE\<close> ends the list.  The walk trusts the lengths, so it
  is a partial function: \<open>None\<close> when it never ends.
\<close>

definition ATAG_NONE :: u32 where "ATAG_NONE = 0x00000000"
definition ATAG_CORE :: u32 where "ATAG_CORE = 0x54410001"
definition ATAG_MEM :: u32 where "ATAG_MEM = 0x54410002"
definition ATAG_VIDEOTEXT :: u32 where "ATAG_VIDEOTEXT = 0x54410003"
definition ATAG_RAMDISK :: u32 where "ATAG_RAMDISK = 0x54410004"
definition ATAG_INITRD2 :: u32 where "ATAG_INITRD2 = 0x54410005"
definition ATAG_SERIAL :: u32 where "ATAG_SERIAL = 0x54410006"
definition ATAG_REVISION :: u32 where "ATAG_REVISION = 0x54410007"
definition ATAG_VIDEOLFB :: u32 where "ATAG_VIDEOLFB = 0x54410008"
definition ATAG_CMDLINE :: u32 where "ATAG_CMDLINE = 0x54410009"

lemmas atag_values = ATAG_NONE_def ATAG_CORE_def ATAG_MEM_def ATAG_VIDEOTEXT_def ATAG_RAMDISK_def
  ATAG_INITRD2_def ATAG_SERIAL_def ATAG_REVISION_def ATAG_VIDEOLFB_def ATAG_CMDLINE_def

subsection \<open>Tags in memory\<close>

record atag_header =
  atag_size :: u32
  atag_tag :: u32

record atag_core =
  core_flags :: u32
  core_pagesize :: u32
  core_rootdev :: u32

record atag_mem =
  mem_size :: u32
  mem_start :: u32

definition read_header :: "memory \<Rightarrow> u32 \<Rightarrow> atag_header" where
  "read_header m a = \<lparr>atag_size = load32 m a, atag_tag = load32 m (a + 4)\<rparr>"

definition read_core :: "memory \<Rightarrow> u32 \<Rightarrow> atag_core" where
  "read_core m a = \<lparr>core_flags = load32 m (a + 8), core_pagesize = load32 m (a + 12),
     core_rootdev = load32 m (a + 16)\<rparr>"

definition read_mem :: "memory \<Rightarrow> u32 \<Rightarrow> atag_mem" where
  "read_mem m a = \<lparr>mem_size = load32 m (a + 8), mem_start = load32 m (a + 12)\<rparr>"

text \<open>\<open>tag_base += ctag->hdr.size\<close>: a step in words.\<close>

definition next_tag :: "memory \<Rightarrow> u32 \<Rightarrow> u32" where
  "next_tag m a = a + 4 * atag_size (read_header m a)"

subsection \<open>Operations\<close>

definition tag_bytes :: "memory \<Rightarrow> u32 \<Rightarrow> u8 list" where
  "tag_bytes m a =
     (let tag = atag_tag (read_header m a)
      in if tag = ATAG_CORE then
           line_of ''Core tag'' @
           bytes_of ''Flags: '' @ puthex_bytes (core_flags (read_core m a)) @ putline_bytes @
           bytes_of ''Pagesize: '' @ puthex_bytes (core_pagesize (read_core m a)) @ putline_bytes @
           bytes_of ''Rootdev: '' @ puthex_bytes (core_rootdev (read_core m a)) @ putline_bytes
         else if tag = ATAG_MEM then
           line_of ''Memory tag'' @
           bytes_of ''Size: '' @ puthex_bytes (mem_size (read_mem m a)) @ putline_bytes @
           bytes_of ''Start: '' @ puthex_bytes (mem_start (read_mem m a)) @ putline_bytes
         else line_of ''Other tag'')"

partial_function (option) debug_atags :: "u32 \<Rightarrow> kstate \<Rightarrow> kstate option" where
  "debug_atags tag_base s =
     (if atag_tag (read_header (mem s) tag_base) = ATAG_NONE then Some s
      else debug_atags (next_tag (mem s) tag_base) (emit (tag_bytes (mem s) tag_base) s))"

partial_function (option) get_mem_range :: "u32 \<Rightarrow> kstate \<Rightarrow> (kstate, MemRange) outcome option" where
  "get_mem_range tag_base s =
     (let tag = atag_tag (read_header (mem s) tag_base)
      in if tag = ATAG_NONE then Some (panic NoMemory s)
         else if tag = ATAG_MEM then
           (let t = read_mem (mem s) tag_base
            in Some (Ok \<lparr>range_start = mem_start t, range_size = mem_size t\<rparr> s))
         else get_mem_range (next_tag (mem s) tag_base) s)"

subsection \<open>Well-formed lists\<close>

text \<open>
  The tags from \<open>a\<close> on, as the walk meets them: for each its address; the list ends with
  \<open>ATAG_NONE\<close> at \<open>e\<close>.
\<close>

fun tag_list :: "memory \<Rightarrow> u32 \<Rightarrow> u32 list \<Rightarrow> u32 \<Rightarrow> bool" where
  "tag_list m a [] e \<longleftrightarrow> a = e \<and> atag_tag (read_header m a) = ATAG_NONE"
| "tag_list m a (t # ts) e \<longleftrightarrow> a = t \<and> atag_tag (read_header m a) \<noteq> ATAG_NONE \<and>
     tag_list m (next_tag m a) ts e"

definition is_mem_tag :: "memory \<Rightarrow> u32 \<Rightarrow> bool" where
  "is_mem_tag m a \<longleftrightarrow> atag_tag (read_header m a) = ATAG_MEM"

lemma mem_tag_not_none: "ATAG_MEM \<noteq> ATAG_NONE"
  by (simp add: atag_values)

lemma get_mem_range_list:
  "tag_list (mem s) a ts e \<Longrightarrow> get_mem_range a s =
    Some (case find (is_mem_tag (mem s)) ts of
       None \<Rightarrow> panic NoMemory s
     | Some t \<Rightarrow> Ok \<lparr>range_start = mem_start (read_mem (mem s) t),
                     range_size = mem_size (read_mem (mem s) t)\<rparr> s)"
proof (induction ts arbitrary: a)
  case Nil
  then show ?case by (subst get_mem_range.simps) auto
next
  case (Cons t ts)
  have m: "is_mem_tag (mem s) t \<longleftrightarrow> atag_tag (read_header (mem s) t) = ATAG_MEM"
    by (simp add: is_mem_tag_def)
  show ?case
    using Cons m mem_tag_not_none by (subst get_mem_range.simps) (auto simp: Let_def)
qed

lemma debug_atags_list:
  "tag_list (mem s) a ts e \<Longrightarrow> debug_atags a s = Some (emit (concat (map (tag_bytes (mem s)) ts)) s)"
proof (induction ts arbitrary: a s)
  case Nil
  then show ?case by (subst debug_atags.simps) (auto simp: emit_def)
next
  case (Cons t ts)
  let ?s = "emit (tag_bytes (mem s) t) s"
  have t: "a = t" "atag_tag (read_header (mem s) t) \<noteq> ATAG_NONE" "tag_list (mem ?s) (next_tag (mem s) t) ts e"
    using Cons.prems by auto
  have "debug_atags (next_tag (mem s) t) ?s = Some (emit (concat (map (tag_bytes (mem s)) ts)) ?s)"
    using Cons.IH [OF t(3)] by simp
  then show ?case using t(1,2) by (subst debug_atags.simps) (simp add: emit_def)
qed

text \<open>A tag of length zero that is neither memory nor the end is walked over and over.\<close>

lemma get_mem_range_stuck:
  assumes "atag_size (read_header (mem s) a) = 0"
    and "\<not> is_mem_tag (mem s) a" "atag_tag (read_header (mem s) a) \<noteq> ATAG_NONE"
  shows "get_mem_range a s = None"
proof (rule ccontr)
  assume "get_mem_range a s \<noteq> None"
  then obtain r where r: "get_mem_range a s = Some r" by blast
  have "b = a \<longrightarrow> t = s \<longrightarrow> False" if "get_mem_range b t = Some r" for b t r
  proof (rule get_mem_range.raw_induct
      [where P = "\<lambda>b t r. b = a \<longrightarrow> t = s \<longrightarrow> False", OF _ that])
    fix f b t r
    assume IH: "\<And>b t r. f b t = Some r \<Longrightarrow> b = a \<longrightarrow> t = s \<longrightarrow> False"
      and eq: "(let tag = atag_tag (read_header (mem t) b)
        in if tag = ATAG_NONE then Some (panic NoMemory t)
           else if tag = ATAG_MEM then
             (let u = read_mem (mem t) b
              in Some (Ok \<lparr>range_start = mem_start u, range_size = mem_size u\<rparr> t))
           else f (next_tag (mem t) b) t) = Some r"
    show "b = a \<longrightarrow> t = s \<longrightarrow> False"
      using assms eq IH [of a s r] by (auto simp: Let_def is_mem_tag_def next_tag_def)
  qed
  then show False using r by blast
qed

text \<open>The walk that prints the tags does not stop at the memory tag.\<close>

lemma debug_atags_stuck:
  assumes "atag_size (read_header (mem s) a) = 0" "atag_tag (read_header (mem s) a) \<noteq> ATAG_NONE"
  shows "debug_atags a s = None"
proof (rule ccontr)
  assume "debug_atags a s \<noteq> None"
  then obtain r where r: "debug_atags a s = Some r" by blast
  have "b = a \<longrightarrow> mem t = mem s \<longrightarrow> False" if "debug_atags b t = Some r" for b t r
  proof (rule debug_atags.raw_induct
      [where P = "\<lambda>b t r. b = a \<longrightarrow> mem t = mem s \<longrightarrow> False", OF _ that])
    fix f b t r
    assume IH: "\<And>b t r. f b t = Some r \<Longrightarrow> b = a \<longrightarrow> mem t = mem s \<longrightarrow> False"
      and eq: "(if atag_tag (read_header (mem t) b) = ATAG_NONE then Some t
        else f (next_tag (mem t) b) (emit (tag_bytes (mem t) b) t)) = Some r"
    show "b = a \<longrightarrow> mem t = mem s \<longrightarrow> False"
      using assms eq IH [of a "emit (tag_bytes (mem t) a) t" r] by (auto simp: next_tag_def emit_def)
  qed
  then show False using r by blast
qed

end
