(* ===== verification/Elf.thy ===== *)
theory Elf
  imports Memory
begin

unbundle bit_operations_syntax

text \<open>
  The part of \<^verbatim>\<open>src/src/elf.h\<close> the loader uses: the 32-bit file, section and program headers as
  they lie in memory, the values of the fields it tests, and the identification of an ELF file.
  Offsets follow from the C layout of the structures: all fields are naturally aligned.
\<close>

type_synonym Elf32_Half = u16
type_synonym Elf32_Word = u32
type_synonym Elf32_Addr = u32
type_synonym Elf32_Off = u32
type_synonym Elf32_Section = u16

definition EI_NIDENT :: nat where "EI_NIDENT = 16"

record Elf32_Ehdr =
  e_ident :: "u8 list"
  e_type :: Elf32_Half
  e_machine :: Elf32_Half
  e_version :: Elf32_Word
  e_entry :: Elf32_Addr
  e_phoff :: Elf32_Off
  e_shoff :: Elf32_Off
  e_flags :: Elf32_Word
  e_ehsize :: Elf32_Half
  e_phentsize :: Elf32_Half
  e_phnum :: Elf32_Half
  e_shentsize :: Elf32_Half
  e_shnum :: Elf32_Half
  e_shstrndx :: Elf32_Half

record Elf32_Shdr =
  sh_name :: Elf32_Word
  sh_type :: Elf32_Word
  sh_flags :: Elf32_Word
  sh_addr :: Elf32_Addr
  sh_offset :: Elf32_Off
  sh_size :: Elf32_Word
  sh_link :: Elf32_Word
  sh_info :: Elf32_Word
  sh_addralign :: Elf32_Word
  sh_entsize :: Elf32_Word

record Elf32_Phdr =
  p_type :: Elf32_Word
  p_offset :: Elf32_Off
  p_vaddr :: Elf32_Addr
  p_paddr :: Elf32_Addr
  p_filesz :: Elf32_Word
  p_memsz :: Elf32_Word
  p_flags :: Elf32_Word
  p_align :: Elf32_Word

definition sizeof_Elf32_Ehdr :: nat where "sizeof_Elf32_Ehdr = 52"
definition sizeof_Elf32_Shdr :: nat where "sizeof_Elf32_Shdr = 40"
definition sizeof_Elf32_Phdr :: nat where "sizeof_Elf32_Phdr = 32"

text \<open>Segment types, section types and section flags.\<close>

definition PT_NULL :: u32 where "PT_NULL = 0"
definition PT_LOAD :: u32 where "PT_LOAD = 1"
definition SHT_NULL :: u32 where "SHT_NULL = 0"
definition SHT_PROGBITS :: u32 where "SHT_PROGBITS = 1"
definition SHF_WRITE :: u32 where "SHF_WRITE = push_bit 0 1"
definition SHF_ALLOC :: u32 where "SHF_ALLOC = push_bit 1 1"
definition SHF_EXECINSTR :: u32 where "SHF_EXECINSTR = push_bit 2 1"

subsection \<open>Reading\<close>

definition read_ehdr :: "memory \<Rightarrow> u32 \<Rightarrow> Elf32_Ehdr" where
  "read_ehdr m a =
    \<lparr>e_ident = map (\<lambda>i. load8 m (a + of_nat i)) [0..<EI_NIDENT],
     e_type = load16 m (a + 16), e_machine = load16 m (a + 18), e_version = load32 m (a + 20),
     e_entry = load32 m (a + 24), e_phoff = load32 m (a + 28), e_shoff = load32 m (a + 32),
     e_flags = load32 m (a + 36), e_ehsize = load16 m (a + 40), e_phentsize = load16 m (a + 42),
     e_phnum = load16 m (a + 44), e_shentsize = load16 m (a + 46), e_shnum = load16 m (a + 48),
     e_shstrndx = load16 m (a + 50)\<rparr>"

definition read_shdr :: "memory \<Rightarrow> u32 \<Rightarrow> Elf32_Shdr" where
  "read_shdr m a =
    \<lparr>sh_name = load32 m a, sh_type = load32 m (a + 4), sh_flags = load32 m (a + 8),
     sh_addr = load32 m (a + 12), sh_offset = load32 m (a + 16), sh_size = load32 m (a + 20),
     sh_link = load32 m (a + 24), sh_info = load32 m (a + 28), sh_addralign = load32 m (a + 32),
     sh_entsize = load32 m (a + 36)\<rparr>"

definition read_phdr :: "memory \<Rightarrow> u32 \<Rightarrow> Elf32_Phdr" where
  "read_phdr m a =
    \<lparr>p_type = load32 m a, p_offset = load32 m (a + 4), p_vaddr = load32 m (a + 8),
     p_paddr = load32 m (a + 12), p_filesz = load32 m (a + 16), p_memsz = load32 m (a + 20),
     p_flags = load32 m (a + 24), p_align = load32 m (a + 28)\<rparr>"

text \<open>Element \<open>i\<close> of the two header arrays of the file at \<open>h\<close>.\<close>

definition phdr_at :: "memory \<Rightarrow> u32 \<Rightarrow> nat \<Rightarrow> Elf32_Phdr" where
  "phdr_at m h i =
     read_phdr m (h + e_phoff (read_ehdr m h) + of_nat i * of_nat sizeof_Elf32_Phdr)"

definition shdr_at :: "memory \<Rightarrow> u32 \<Rightarrow> nat \<Rightarrow> Elf32_Shdr" where
  "shdr_at m h i =
     read_shdr m (h + e_shoff (read_ehdr m h) + of_nat i * of_nat sizeof_Elf32_Shdr)"

end
