(* ===== verification/Elf_Loader.thy ===== *)
theory Elf_Loader
  imports Page_Table Elf
begin

unbundle bit_operations_syntax

text \<open>
  \<^verbatim>\<open>src/src/elf_loader.cc\<close>.  The image and its headers are read in place, below the part of the
  address space that is mapped one to one.  The sections are copied to their virtual addresses while
  paging is on, so these accesses go through the MMU: it is a parameter, a function from the state
  and a virtual address to the physical address, or \<open>None\<close> where the access aborts.
\<close>

type_synonym mmu = "kstate \<Rightarrow> u32 \<Rightarrow> u32 option"

subsection \<open>Printing the headers\<close>

definition segment_bytes :: "Elf32_Phdr \<Rightarrow> u8 list" where
  "segment_bytes p =
     (if p_type p = PT_LOAD then
        line_of ''Program Segment'' @ bytes_of ''Addr: '' @ puthex_bytes (p_vaddr p) @
        putline_bytes @ bytes_of ''Offset: '' @ puthex_bytes (p_offset p) @
        putline_bytes @ bytes_of ''Size: '' @ puthex_bytes (p_memsz p) @
        putline_bytes @ bytes_of ''Size to copy: '' @ puthex_bytes (p_filesz p) @
        putline_bytes @ bytes_of ''Align: '' @ puthex_bytes (p_align p) @ putline_bytes @ putline_bytes
      else [])"

definition elf_parse_header :: "u32 \<Rightarrow> kstate \<Rightarrow> kstate" where
  "elf_parse_header h s =
     (let header = read_ehdr (mem s) h;
          s = emit (bytes_of ''Entry point: '' @ puthex_bytes (e_entry header) @ putline_bytes @
                    bytes_of ''Program Header Offset: '' @ puthex_bytes (e_phoff header) @ putline_bytes @
                    bytes_of ''Section Header Offset: '' @ puthex_bytes (e_shoff header) @ putline_bytes) s
      in if unat (e_shentsize header) \<noteq> sizeof_Elf32_Shdr then emit (line_of ''Size mismatch'') s
         else emit (concat (map (\<lambda>i. segment_bytes (phdr_at (mem s) h i))
                [0..<unat (e_phnum header)])) s)"

subsection \<open>Loading\<close>

definition load_segment :: "PageTable \<Rightarrow> Elf32_Phdr \<Rightarrow> kstate \<Rightarrow> (kstate, bool) outcome" where
  "load_segment pt seg s =
     (if p_type seg = PT_LOAD then
        if p_vaddr seg AND (PAGE_SIZE - 1) \<noteq> 0
        then Ok False (emit (line_of ''Unaligned segment'') s)
        else bind_ok (reserve_allocate_at pt (p_vaddr seg)
                        (get_num_allocation_units (p_memsz seg) GPage) GPage s)
               (\<lambda>allocation. Ok (is_success allocation))
      else Ok True s)"

text \<open>The loops read the count and the header of each element from the state they are in.\<close>

function load_segments :: "PageTable \<Rightarrow> u32 \<Rightarrow> nat \<Rightarrow> kstate \<Rightarrow> (kstate, bool) outcome" where
  "load_segments pt h i s =
     (if i < unat (e_phnum (read_ehdr (mem s) h)) then
        bind_ok (load_segment pt (phdr_at (mem s) h i) s)
          (\<lambda>success s. if success then load_segments pt h (i + 1) s else Ok False s)
      else Ok True s)"
  by pat_completeness auto
termination
proof (relation "measure (\<lambda>(pt, h, i, s). 65536 - i)", goal_cases)
  case (2 pt h i s x xa)
  have "unat (e_phnum (read_ehdr (mem s) h)) < 65536"
    using unsigned_less [of "e_phnum (read_ehdr (mem s) h)"] by simp
  then show ?case using 2 by simp
qed simp

declare load_segments.simps [simp del]

text \<open>
  \<open>memcpy\<close> on virtual addresses, a byte at a time. A byte whose address does not translate aborts;
  the vector returns to the access with \<open>r0\<close> to \<open>r3\<close> lost (\<open>Vectors_Correct\<close>), so what happens next has
  no meaning.
\<close>

fun vmemcpy :: "mmu \<Rightarrow> nat \<Rightarrow> u32 \<Rightarrow> u32 \<Rightarrow> kstate \<Rightarrow> (kstate, unit) outcome" where
  "vmemcpy tr 0 a b s = Ok () s"
| "vmemcpy tr (Suc count) a b s =
     (case tr s b of None \<Rightarrow> Undef
      | Some pb \<Rightarrow>
          (case tr s a of None \<Rightarrow> Undef
           | Some qa \<Rightarrow> vmemcpy tr count (a + 1) (b + 1)
                         (s\<lparr>mem := store8 qa (load8 (mem s) pb) (mem s)\<rparr>)))"

definition load_section :: "mmu \<Rightarrow> u32 \<Rightarrow> Elf32_Shdr \<Rightarrow> kstate \<Rightarrow> (kstate, unit) outcome" where
  "load_section tr h sec s =
     (if sh_type sec = SHT_PROGBITS then
        if sh_flags sec AND SHF_ALLOC \<noteq> 0
        then vmemcpy tr (unat (sh_size sec)) (sh_addr sec) (h + sh_offset sec) s
        else Ok () s
      else Ok () s)"

function load_sections :: "mmu \<Rightarrow> u32 \<Rightarrow> nat \<Rightarrow> kstate \<Rightarrow> (kstate, unit) outcome" where
  "load_sections tr h i s =
     (if i < unat (e_shnum (read_ehdr (mem s) h)) then
        bind_ok (load_section tr h (shdr_at (mem s) h i) s) (\<lambda>_. load_sections tr h (i + 1))
      else Ok () s)"
  by pat_completeness auto
termination
proof (relation "measure (\<lambda>(tr, h, i, s). 65536 - i)", goal_cases)
  case (2 tr h i s x xa)
  have "unat (e_shnum (read_ehdr (mem s) h)) < 65536"
    using unsigned_less [of "e_shnum (read_ehdr (mem s) h)"] by simp
  then show ?case using 2 by simp
qed simp

declare load_sections.simps [simp del]

text \<open>The result is the entry address, on success.\<close>

definition load_elf :: "mmu \<Rightarrow> u32 \<Rightarrow> PageTable \<Rightarrow> kstate \<Rightarrow> (kstate, u32 Result) outcome" where
  "load_elf tr h pt s =
     (let header = read_ehdr (mem s) h
      in if unat (e_phentsize header) \<noteq> sizeof_Elf32_Phdr then Ok Failure (emit (line_of ''Size mismatch'') s)
         else if unat (e_shentsize header) \<noteq> sizeof_Elf32_Shdr
           then Ok Failure (emit (line_of ''Size mismatch'') s)
         else if e_shnum header = 0xffff then Ok Failure (emit (bytes_of ''Too many sections'') s)
         else bind_ok (load_segments pt h 0 s) (\<lambda>success s.
                if \<not> success then Ok Failure s
                else bind_ok (load_sections tr h 0 s) (\<lambda>_ s.
                       Ok (Success (e_entry (read_ehdr (mem s) h))) s)))"

end
