(* ===== verification/Boot.thy ===== *)
theory Boot
  imports Table_Tests Paging_Manager Atags Elf_Loader
begin

unbundle bit_operations_syntax

text \<open>
  \<^verbatim>\<open>src/src/loader_main.cc\<close> and \<^verbatim>\<open>src/src/kernel_entry.cc\<close>: the boot sequence, in the
  build that starts the kernel and in the one that runs the tests, and the C++ part of the exception
  handlers.  The machine is the state the kernel
  objects share together with the registers the inline assembly sets: the stack pointers of the
  exception modes, the vector base, the interrupt mask and coprocessor 15.  Of the
  exceptions only the supervisor call the loader makes is here; the others are in \<open>Exceptions_Correct\<close>.
\<close>

subsection \<open>Exception handlers\<close>

definition at_bytes :: "string \<Rightarrow> u32 \<Rightarrow> u8 list" where
  "at_bytes what v = bytes_of what @ puthex_bytes v @ putline_bytes"

definition svc_entry :: "u32 \<Rightarrow> u32 \<Rightarrow> u32 \<Rightarrow> u32 \<Rightarrow> kstate \<Rightarrow> u32 \<times> kstate" where
  "svc_entry a b c d s =
     (0, emit (line_of ''System call!'' @ at_bytes ''a: '' a @ at_bytes ''b: '' b @
               at_bytes ''c: '' c @ at_bytes ''d: '' d) s)"

definition undef_instr_handler :: "u32 \<Rightarrow> kstate \<Rightarrow> kstate" where
  "undef_instr_handler saved_pc = emit (at_bytes ''Undefined instruction at '' saved_pc)"

definition prefetch_abort_handler :: "u32 \<Rightarrow> kstate \<Rightarrow> kstate" where
  "prefetch_abort_handler saved_pc = emit (at_bytes ''Prefetch abort at '' saved_pc)"

definition data_abort_handler :: "u32 \<Rightarrow> kstate \<Rightarrow> kstate" where
  "data_abort_handler saved_pc = emit (at_bytes ''Data abort at '' saved_pc)"

definition irq_handler :: "kstate \<Rightarrow> kstate" where
  "irq_handler = emit (line_of ''IRQ triggered'')"

definition fiq_handler :: "kstate \<Rightarrow> kstate" where
  "fiq_handler = emit (line_of ''FIQ triggered'')"

subsection \<open>The machine\<close>

record mode_stacks =
  fiq_stack :: u32
  irq_stack :: u32
  abort_stack :: u32
  undef_stack :: u32

record machine =
  sys :: kstate
  coproc :: cp15
  stacks :: mode_stacks
  vector_base :: u32
  interrupts :: bool
  uart :: trace

text \<open>
  What the loader takes from outside its sources: the addresses the linker script defines, the
  registers when it makes its supervisor call, the address translation of the hardware as the
  coprocessor is programmed, and the kernel it jumps to.
\<close>

record boot_env =
  kernel_image :: u32
  page_alloc_table_start :: u32
  ivt_start :: u32
  svc_registers :: "u32 \<times> u32 \<times> u32 \<times> u32"
  mmu :: "cp15 \<Rightarrow> mmu"
  entry_proc :: "u32 \<Rightarrow> PageTable \<Rightarrow> PageTable \<Rightarrow> machine \<Rightarrow> (machine, unit) outcome"

definition say :: "u8 list \<Rightarrow> machine \<Rightarrow> machine" where
  "say bs m = m\<lparr>sys := emit bs (sys m)\<rparr>"

text \<open>An operation on the shared state, run on the machine.\<close>

definition on_sys :: "(kstate \<Rightarrow> (kstate, 'a) outcome) \<Rightarrow> machine \<Rightarrow> (machine, 'a) outcome" where
  "on_sys f m =
     (case f (sys m) of
        Ok r s \<Rightarrow> Ok r (m\<lparr>sys := s\<rparr>)
      | Panic c s \<Rightarrow> Panic c (m\<lparr>sys := s\<rparr>)
      | Spin \<Rightarrow> Spin
      | Undef \<Rightarrow> Undef)"

definition or_spin :: "(kstate \<Rightarrow> (kstate, 'a) outcome option) \<Rightarrow> kstate \<Rightarrow> (kstate, 'a) outcome" where
  "or_spin f s = (case f s of None \<Rightarrow> Spin | Some r \<Rightarrow> r)"

definition fail_with :: "string \<Rightarrow> kstate \<Rightarrow> (kstate, 'a) outcome" where
  "fail_with message s = panic AssertionFailure (emit (line_of message) s)"

subsection \<open>The steps of \<open>loader_main\<close>\<close>

text \<open>Up to the check of the memory tag.\<close>

definition find_memory :: "u32 \<Rightarrow> u32 \<Rightarrow> u32 \<Rightarrow> u32 \<Rightarrow> machine \<Rightarrow> (machine, MemRange) outcome" where
  "find_memory r0 r1 atags cpsr_saved m0 =
     (let m = m0\<lparr>uart := uart_init (uart m0)\<rparr>;
          m = say (line_of ''Hello, kernel World!'') m;
          m = say (puthex_bytes r0 @ putline_bytes @ puthex_bytes r1 @ putline_bytes @
                   puthex_bytes atags @ putline_bytes @ puthex_bytes cpsr_saved @ putline_bytes) m
      in bind_ok (on_sys (or_spin (\<lambda>s. map_option (Ok ()) (debug_atags atags s))) m) (\<lambda>_ m.
         bind_ok (on_sys (or_spin (get_mem_range atags)) m) (\<lambda>system_memory m.
           if range_start system_memory \<noteq> 0 then on_sys (panic NonZeroBase) m
           else Ok system_memory m)))"

text \<open>Temporary stacks and the exception vector; then a supervisor call.\<close>

definition set_stacks :: "mode_stacks \<Rightarrow> machine \<Rightarrow> machine" where
  "set_stacks sps m = m\<lparr>interrupts := False, stacks := sps\<rparr>"

definition setup_exceptions :: "boot_env \<Rightarrow> machine \<Rightarrow> machine" where
  "setup_exceptions env m0 =
     (let m = set_stacks \<lparr>fiq_stack = 0x00808000, irq_stack = 0x00810000,
                abort_stack = 0x00818000, undef_stack = 0x00820000\<rparr> m0;
          m = m\<lparr>vector_base := ivt_start env\<rparr>;
          m = (case svc_registers env of (a, b, c, d) \<Rightarrow> m\<lparr>sys := snd (svc_entry a b c d (sys m))\<rparr>);
          m = say (line_of ''Enabling interrupts'') m
      in m\<lparr>interrupts := True\<rparr>)"

text \<open>The allocator, and a page for the stack of each exception mode.\<close>

definition alloc_stack :: "machine \<Rightarrow> (machine, u32) outcome" where
  "alloc_stack m = bind_ok (on_sys (alloc 1) m) (\<lambda>page. Ok (page + PAGE_SIZE))"

definition allocate_stacks :: "boot_env \<Rightarrow> u32 \<Rightarrow> machine \<Rightarrow> (machine, unit) outcome" where
  "allocate_stacks env memory m0 =
     (let m = m0\<lparr>sys := PageAlloc memory (page_alloc_table_start env) (sys m0)\<rparr>
      in bind_ok (alloc_stack m) (\<lambda>fiq m.
         bind_ok (alloc_stack m) (\<lambda>irq m.
         bind_ok (alloc_stack m) (\<lambda>abort m.
         bind_ok (alloc_stack m) (\<lambda>undef m.
           Ok () ((set_stacks \<lparr>fiq_stack = fiq, irq_stack = irq, abort_stack = abort,
                     undef_stack = undef\<rparr> m)\<lparr>interrupts := True\<rparr>))))))"

text \<open>One region of the identity mapping: RAM, then the memory-mapped devices.\<close>

definition identity_region :: "PageTable \<Rightarrow> u32 \<Rightarrow> u32 \<Rightarrow> kstate \<Rightarrow> (kstate, unit) outcome" where
  "identity_region pt base nsections s =
     bind_ok (reserve_at pt base nsections GSection s) (\<lambda>reservation s.
       if \<not> is_success reservation then fail_with ''Failed to reserve identity memory'' s
       else bind_ok (map_units pt base base nsections GSection s) (\<lambda>success s.
              if \<not> success then fail_with ''Failed to map identity'' s else Ok () s))"

definition identity_map :: "PageTable \<Rightarrow> u32 \<Rightarrow> kstate \<Rightarrow> (kstate, unit) outcome" where
  "identity_map pt memory s =
     bind_ok (identity_region pt 0x00000000 (get_num_allocation_units memory GSection) s)
       (\<lambda>_. identity_region pt 0x20000000 16)"

definition build_tables :: "u32 \<Rightarrow> kstate \<Rightarrow> (kstate, PageTable \<times> PageTable) outcome" where
  "build_tables memory s =
     bind_ok (construct True True s) (\<lambda>supervisor_table s.
     bind_ok (construct False False (emit putline_bytes s)) (\<lambda>identity_overlay s.
     bind_ok (identity_map identity_overlay memory s) (\<lambda>_.
       Ok (identity_overlay, supervisor_table))))"

definition enable_paging :: "PageTable \<Rightarrow> PageTable \<Rightarrow> machine \<Rightarrow> machine" where
  "enable_paging identity_overlay supervisor_table m0 =
     (let c = SetLowerPageTable identity_overlay (coproc m0);
          c = SetUpperPageTable supervisor_table c;
          c = SetPagingMode True True c;
          c = EnablePaging c
      in say (line_of ''Paging enabled'') (m0\<lparr>coproc := c\<rparr>))"

definition start_kernel :: "boot_env \<Rightarrow> PageTable \<Rightarrow> PageTable \<Rightarrow> machine \<Rightarrow> (machine, unit) outcome" where
  "start_kernel env identity_overlay supervisor_table m =
     bind_ok (on_sys (load_elf (mmu env (coproc m)) (kernel_image env) supervisor_table) m)
       (\<lambda>entry m. case entry of
          Failure \<Rightarrow> on_sys (fail_with ''Failed to load kernel'') m
        | Success entry_address \<Rightarrow>
            bind_ok (entry_proc env entry_address identity_overlay supervisor_table
                       (say (puthex_bytes entry_address @ putline_bytes) m))
              (\<lambda>_. on_sys (panic AssertionFailure)))"

definition loader_main :: "boot_env \<Rightarrow> u32 \<Rightarrow> u32 \<Rightarrow> u32 \<Rightarrow> u32 \<Rightarrow> machine \<Rightarrow> (machine, unit) outcome" where
  "loader_main env r0 r1 atags cpsr_saved m =
     bind_ok (find_memory r0 r1 atags cpsr_saved m) (\<lambda>system_memory m.
     bind_ok (allocate_stacks env (range_size system_memory) (setup_exceptions env m)) (\<lambda>_ m.
     bind_ok (on_sys (build_tables (range_size system_memory)) m)
       (\<lambda>(identity_overlay, supervisor_table) m.
         start_kernel env identity_overlay supervisor_table
           (enable_paging identity_overlay supervisor_table m))))"

text \<open>
  The build with \<open>RUN_TESTS\<close> runs the tests instead, and then sends back every byte it receives, for
  ever.  \<open>echo dev n\<close> is the first \<open>n\<close> rounds of that loop, with the bytes sent on the console as
  everywhere, the reads on the trace, and \<open>Spin\<close> when the receiver stays empty; the state after \<open>n\<close>
  rounds is a state inside of the loop, not the end of the program.
\<close>

fun echo :: "device \<Rightarrow> nat \<Rightarrow> machine \<Rightarrow> (machine, unit) outcome" where
  "echo dev 0 m = Ok () m"
| "echo dev (Suc n) m =
     (case uart_getc dev (uart m) of None \<Rightarrow> Spin
      | Some (byte, tr) \<Rightarrow> echo dev n (say [byte] (m\<lparr>uart := tr\<rparr>)))"

definition loader_main_tests ::
  "boot_env \<Rightarrow> device \<Rightarrow> nat \<Rightarrow> u32 \<Rightarrow> u32 \<Rightarrow> u32 \<Rightarrow> u32 \<Rightarrow> machine \<Rightarrow> (machine, unit) outcome" where
  "loader_main_tests env dev rounds r0 r1 atags cpsr_saved m =
     bind_ok (find_memory r0 r1 atags cpsr_saved m) (\<lambda>system_memory m.
     bind_ok (allocate_stacks env (range_size system_memory) (setup_exceptions env m)) (\<lambda>_ m.
     bind_ok (on_sys test_pagetables m) (\<lambda>passed m.
       echo dev rounds (say (line_of (if passed then ''All tests passed'' else ''Some tests failed'')) m))))"

subsection \<open>The kernel\<close>

definition kernel_entry :: "PageTable \<Rightarrow> PageTable \<Rightarrow> kstate \<Rightarrow> (kstate, unit) outcome" where
  "kernel_entry identity_overlay supervisor_pagetable s =
     bind_ok (print_table_info supervisor_pagetable (emit (line_of ''Running from higher-half'') s))
       (\<lambda>_. panic AssertionFailure)"

end
