(* ===== verification/Mmu.thy ===== *)
theory Mmu
  imports Boot Table_Allocate
begin

unbundle bit_operations_syntax

text \<open>
  The contract with the hardware the boot sequence relies on.  \<open>hw_walk\<close> is the translation the
  ARMv6 architecture documents for the format with subpages off: the base register is chosen by
  the top bits of the address, a first-level descriptor is a fault, a coarse table, a section or a
  supersection, a second-level one a fault, a large or a small page.  The MMU itself stays a
  parameter, and \<open>obeys_tables\<close> is the hypothesis that with paging on and every domain a manager (so
  that no permission applies) it translates by this walk.
\<close>

definition hw_second_level :: "memory \<Rightarrow> u32 \<Rightarrow> u32 \<Rightarrow> u32 option" where
  "hw_second_level m t va =
     (let d = load32 m (slot t (unat (drop_bit 12 va AND 0xff)))
      in if d AND 0x3 = 0 then None
         else if d AND 0x3 = 1 then Some ((d AND 0xffff0000) OR (va AND 0x0000ffff))
         else Some ((d AND 0xfffff000) OR (va AND 0x00000fff)))"

definition hw_first_level :: "memory \<Rightarrow> u32 \<Rightarrow> u32 \<Rightarrow> u32 option" where
  "hw_first_level m base va =
     (let e = load32 m (slot base (unat (drop_bit 20 va)))
      in if e AND 0x3 = 1 then hw_second_level m (e AND 0xfffffc00) va
         else if e AND 0x3 = 2 then
           (if e AND 0x00040000 \<noteq> 0
            then Some ((e AND 0xff000000) OR (va AND 0x00ffffff))
            else Some ((e AND 0xfff00000) OR (va AND 0x000fffff)))
         else None)"

definition hw_walk :: "cp15 \<Rightarrow> memory \<Rightarrow> u32 \<Rightarrow> u32 option" where
  "hw_walk c m va =
     (let N = unat (ttbcr c AND 0x7)
      in if drop_bit (32 - N) va = 0
         then (if ttbcr c AND 0x10 \<noteq> 0 then None
               else hw_first_level m (ttbr0 c AND NOT (mask (14 - N))) va)
         else (if ttbcr c AND 0x20 \<noteq> 0 then None
               else hw_first_level m (ttbr1 c AND NOT (mask 14)) va))"

definition obeys_tables :: "(cp15 \<Rightarrow> mmu) \<Rightarrow> bool" where
  "obeys_tables tr \<longleftrightarrow> (\<forall>c s va. paging_on c \<longrightarrow> dacr c = 0xffffffff \<longrightarrow> tr c s va = hw_walk c (mem s) va)"

text \<open>On a well-formed table the two walks, hardware and software, agree.\<close>

fun result_option :: "'a Result \<Rightarrow> 'a option" where
  "result_option (Success v) = Some v"
| "result_option Failure = None"

lemma hw_first_level_software:
  assumes wf: "pt_wf pt s" and i: "frame va div 256 < nent pt"
  shows "hw_first_level (mem s) (root pt) va = result_option (virtual_to_physical_internal pt va s)"
proof -
  let ?i = "frame va div 256" and ?j = "frame va mod 256"
  let ?e = "fle pt s ?i"
  have e: "load32 (mem s) (slot (root pt) (unat (drop_bit 20 va))) = ?e"
    by (simp add: fle_def ld_def entry_index)
  have ne: "\<not> first_level_num_entries pt \<le> drop_bit 20 va" using i by (simp add: entry_range)
  show ?thesis
  proof (cases "is_table ?e")
    case True
    have d: "load32 (mem s) (slot (?e AND 0xfffffc00) (unat (drop_bit 12 va AND 0xff))) = sle pt s ?i ?j"
      by (simp add: sle_def table_of_def ld_def frame_mod_256)
    have "plain (sle pt s ?i ?j)" using entry_tableD(5) [OF wf i True] by simp
    then show ?thesis
      using True e d ne
      by (elim plainE) (simp_all add: hw_first_level_def hw_second_level_def Let_def is_table_def
          virtual_to_physical_internal_def get_first_level_table_address_def
          get_second_level_table_address_def ld_def)
  next
    case False
    have "plain ?e" using entry_plainD [OF wf i False] .
    then show ?thesis
      using False e ne
      by (elim plainE) (simp_all add: hw_first_level_def Let_def is_table_def
          virtual_to_physical_internal_def get_first_level_table_address_def ld_def)
  qed
qed

text \<open>Which table serves an address: the lower half goes to the first, the upper half to the second.\<close>

definition table_for :: "PageTable \<Rightarrow> PageTable \<Rightarrow> u32 \<Rightarrow> PageTable" where
  "table_for lower upper va = (if unat va < 2 ^ 31 then lower else upper)"

lemma top_bit: "drop_bit 31 va = 0 \<longleftrightarrow> unat va < 2 ^ 31" for va :: u32
  by (simp add: word_eq_iff_unat32 unat_drop_bit32 div_eq_0_iff)

lemma lower_index: "unat va < 2 ^ 31 \<Longrightarrow> frame va div 256 < 2048"
  by (simp add: frame_def div_mult2_eq [symmetric] div_less_iff_less_mult)

lemma enable_paging_registers [simp]:
  "ttbr0 (coproc (enable_paging l u m)) = first_level_table l AND 0xffffc000"
  "ttbr1 (coproc (enable_paging l u m)) = first_level_table u AND 0xffffc000"
  "ttbcr (coproc (enable_paging l u m)) = 1" "dacr (coproc (enable_paging l u m)) = 0xffffffff"
  "paging_on (coproc (enable_paging l u m))"
  "sys (enable_paging l u m) = emit (line_of ''Paging enabled'') (sys m)"
  by (simp_all add: enable_paging_def say_def Let_def EnablePaging_on)

lemma root_mask_14: "aligned 14 a \<Longrightarrow> a AND 0xffffc000 = a"
  unfolding not_masks by (rule aligned_and_id)

lemma paging_walk:
  assumes "obeys_tables tr" and wf: "pt_wf lower s" "pt_wf upper s" "nent lower = 2048" "nent upper = 4096"
  shows "tr (coproc (enable_paging lower upper m)) s va
    = result_option (virtual_to_physical_internal (table_for lower upper va) va s)"
proof -
  let ?c = "coproc (enable_paging lower upper m)"
  have l: "root lower AND 0xffffc000 = root lower" "root lower AND NOT (mask 13) = root lower"
    using root_mask_14 pt_wfD(4) [OF wf(1)] aligned_and_id [OF aligned_mono [of 14 "root lower" 13]] by simp_all
  have u: "root upper AND 0xffffc000 = root upper" "root upper AND NOT (mask 14) = root upper"
    using root_mask_14 pt_wfD(4) [OF wf(2)] aligned_and_id [of 14 "root upper"] by simp_all
  have "tr ?c s va = hw_walk ?c (mem s) va" using assms(1) by (simp add: obeys_tables_def)
  also have "\<dots> = (if unat va < 2 ^ 31 then hw_first_level (mem s) (root lower) va
      else hw_first_level (mem s) (root upper) va)"
    unfolding top_bit [symmetric] by (simp add: hw_walk_def Let_def l u del: mask_numeral)
  also have "\<dots> = result_option (virtual_to_physical_internal (table_for lower upper va) va s)"
    using hw_first_level_software [OF wf(1), of va] hw_first_level_software [OF wf(2), of va]
      lower_index [of va] entry_index(2) [of va] wf(3,4) by (simp add: table_for_def)
  finally show ?thesis .
qed

end
