(* ===== verification/Boot_Steps.thy ===== *)
theory Boot_Steps
  imports Mmu Table_Correct Table_Room
begin

unbundle bit_operations_syntax

text \<open>
  The steps of the boot sequence that build the page tables, reduced to the views of the two
  tables: the identity mapping of RAM and of the devices in the lower one, the empty upper one.
\<close>

subsection \<open>One region\<close>

lemma identity_region_cases:
  assumes wf: "pt_wf pt s" and l: "unlocked pt s" and nrc: "\<not> reference_counted pt"
    and r: "in_range GSection base n"
  shows "if reservable pt GSection base n s
    then \<exists>s'. identity_region pt base n s = Ok () s' \<and> table_op pt s s' \<and>
      (\<forall>p. pview pt s' p = (if p \<in> unit_range GSection base n then VMapped p else pview pt s p)) \<and>
      (\<forall>p. by_page pt s' p = by_page pt s p)
    else identity_region pt base n s = fail_with ''Failed to reserve identity memory'' s"
proof (cases "reservable pt GSection base n s")
  case False
  then show ?thesis using reserve_at_cases [OF wf l r] by (simp add: identity_region_def)
next
  case True
  then obtain t where t: "reserve_at pt base n GSection s = Ok (Success (unit_address GSection base)) t"
    "reserves pt False (unit_range GSection base n) s t"
    using reserve_at_cases [OF wf l r] by auto
  have lt: "unlocked pt t" using reserves_op [OF t(2)] l by (simp add: table_op_def unlocked_def)
  have m: "mappable pt GSection (unit_base GSection base) (unat n) t"
    using t(2) by (auto simp: mappable_def reserves_def unit_range_def)
  obtain u where u: "map_units pt base base n GSection t = Ok True u"
    "maps pt GSection (unit_base GSection base) (unit_base GSection base) (unat n) t u"
    using map_units_Ok [OF reserves_wf [OF t(2)] lt nrc r r m] .
  have "table_op pt s u"
    using table_op_trans [OF reserves_op [OF t(2)]] u(2) by (simp add: maps_def)
  moreover have "pview pt u p = (if p \<in> unit_range GSection base n then VMapped p else pview pt s p)" for p
    using t(2) u(2) by (auto simp: maps_def reserves_def unit_range_def)
  moreover have "by_page pt u p = by_page pt s p" for p
    using t(2) u(2) by (auto simp: maps_def reserves_def)
  ultimately show ?thesis using t(1) u(1) True by (simp add: identity_region_def)
qed

subsection \<open>The identity mapping\<close>

definition identity_pages :: "u32 \<Rightarrow> nat set" where
  "identity_pages memory = {..<unat (get_num_allocation_units memory GSection) * 256} \<union> {0x20000..<0x21000}"

lemma section_units: "unat (get_num_allocation_units memory GSection) \<le> 4096"
proof -
  have "unat memory div 1048576 < 4096" by (simp add: div_less_iff_less_mult)
  then have "unat (memory div SECTION_SIZE) \<le> 4095" by (simp add: unat_div32)
  then have "unat (memory div SECTION_SIZE + (if memory AND (SECTION_SIZE - 1) \<noteq> 0 then 1 else 0)) \<le> 4096"
    by (auto simp: unat_add32)
  then show ?thesis by (simp add: get_num_allocation_units_def)
qed

lemma region_ranges:
  "unit_range GSection 0 n = {..<unat n * 256}" "in_range GSection 0 n \<longleftrightarrow> unat n \<le> 4096"
  "unit_range GSection 0x20000000 16 = {0x20000..<0x21000}" "in_range GSection 0x20000000 16"
  by (auto simp: unit_range_def in_range_def unit_base_def frame_def)

lemma empty_sections_reservable:
  assumes "empty_table pt s" "nent pt = 2048"
  shows "reservable pt GSection 0 n s \<longleftrightarrow> unat n \<le> 2048"
proof
  assume res: "reservable pt GSection 0 n s"
  show "unat n \<le> 2048"
  proof (rule ccontr)
    assume "\<not> unat n \<le> 2048"
    then have "2048 * 256 \<in> unit_range GSection 0 n" by (simp add: region_ranges)
    then have "pview pt s (2048 * 256) = VFree" using res unfolding reservable_def by blast
    then show False using assms by (simp add: empty_table_def)
  qed
next
  assume "unat n \<le> 2048"
  then show "reservable pt GSection 0 n s"
    using assms by (auto simp: reservable_def region_ranges empty_table_def div_less_iff_less_mult)
qed

lemma identity_map_cases:
  assumes e: "empty_table pt s" and n: "nent pt = 2048" and nrc: "\<not> reference_counted pt"
  shows "if unat (get_num_allocation_units memory GSection) \<le> 512
    then \<exists>s'. identity_map pt memory s = Ok () s' \<and> table_op pt s s' \<and>
      (\<forall>p. pview pt s' p = (if p \<in> identity_pages memory then VMapped p else pview pt s p)) \<and>
      (\<forall>p. by_page pt s' p = by_page pt s p)
    else \<exists>t. identity_map pt memory s = fail_with ''Failed to reserve identity memory'' t"
proof -
  let ?n = "get_num_allocation_units memory GSection"
  have wf: "pt_wf pt s" "unlocked pt s" using e by (simp_all add: empty_table_def)
  have r: "in_range GSection 0 ?n" using section_units by (simp add: region_ranges)
  note first = identity_region_cases [OF wf nrc r]
  show ?thesis
  proof (cases "unat ?n \<le> 2048")
    case False
    then show ?thesis
      using first by (auto simp: empty_sections_reservable [OF e n] identity_map_def fail_with_def)
  next
    case True
    then obtain t where t: "identity_region pt 0 ?n s = Ok () t" "table_op pt s t"
      "\<And>p. pview pt t p = (if p \<in> unit_range GSection 0 ?n then VMapped p else pview pt s p)"
      "\<And>p. by_page pt t p = by_page pt s p"
      using first by (auto simp: empty_sections_reservable [OF e n])
    have wft: "pt_wf pt t" "unlocked pt t" using t(2) wf by (simp_all add: table_op_def unlocked_def)
    have res: "reservable pt GSection 0x20000000 16 t \<longleftrightarrow> unat ?n \<le> 512"
    proof
      assume res: "reservable pt GSection 0x20000000 16 t"
      show "unat ?n \<le> 512"
      proof (rule ccontr)
        assume "\<not> unat ?n \<le> 512"
        then have "0x20000 \<in> unit_range GSection 0 ?n" by (simp add: region_ranges)
        moreover have "0x20000 \<in> unit_range GSection 0x20000000 16" by (simp add: region_ranges)
        ultimately show False using res t(3) [of "0x20000"] by (simp add: reservable_def)
      qed
    next
      assume le: "unat ?n \<le> 512"
      have "pview pt t p = VFree \<and> \<not> by_page pt t p" if "p \<in> {0x20000..<0x21000}" for p
      proof -
        have "p div 256 < 2048" using that by (simp add: div_less_iff_less_mult)
        moreover have "p \<notin> unit_range GSection 0 ?n" using that le by (simp add: region_ranges)
        ultimately show ?thesis using t(3,4) e n by (simp add: empty_table_def)
      qed
      then show "reservable pt GSection 0x20000000 16 t" by (simp add: reservable_def region_ranges)
    qed
    note second = identity_region_cases [OF wft nrc region_ranges(4), unfolded res]
    show ?thesis
    proof (cases "unat ?n \<le> 512")
      case False
      then show ?thesis using second t(1) by (auto simp: identity_map_def)
    next
      case True
      then obtain u where u: "identity_region pt 0x20000000 16 t = Ok () u" "table_op pt t u"
        "\<And>p. pview pt u p = (if p \<in> unit_range GSection 0x20000000 16 then VMapped p else pview pt t p)"
        "\<And>p. by_page pt u p = by_page pt t p"
        using second by auto
      have "identity_map pt memory s = Ok () u" using t(1) u(1) by (simp add: identity_map_def)
      moreover have "pview pt u p = (if p \<in> identity_pages memory then VMapped p else pview pt s p)" for p
        using t(3) u(3) by (auto simp: identity_pages_def region_ranges)
      moreover have "by_page pt u p = by_page pt s p" for p using t(4) u(4) by simp
      ultimately show ?thesis using True table_op_trans [OF t(2) u(2)] by auto
    qed
  qed
qed

subsection \<open>Both tables\<close>

lemmas room_construct = spends_room [OF spends_construct]

lemma construct_cases:
  assumes wf: "pa_wf s" and d: "4 dvd npages s" and l: "\<not> held s PageAllocLock"
  obtains pt s' where "construct su rcd s = Ok pt s'" "empty_table pt s'" "nent pt = (if su then 4096 else 2048)"
    "reference_counted pt = rcd" "npages s' = npages s" "\<not> held s' PageAllocLock"
    "\<And>l. \<not> held s l \<Longrightarrow> \<not> held s' l" "table_frames pt s' = root_frames pt"
    "\<And>k. room 4 (k + 4) s \<Longrightarrow> room 4 k s'"
  | t where "construct su rcd s = panic OutOfMemory t" "\<not> room 4 2 s"
proof -
  have d4: "unat (4 :: u32) dvd npages s" using d by simp
  have sz: "4 \<in> sizes" by (simp add: sizes_def)
  consider r t where "alloc 4 s = Ok r t" | t where "alloc 4 s = panic OutOfMemory t" "\<not> room 4 2 s"
  proof (cases "room 4 2 s")
    case True
    then show thesis using that(1) alloc_room [OF wf sz d4 l] by auto
  next
    case False
    then show thesis using that alloc_Ok_or_panic [OF wf sz d4 l] by auto
  qed
  then show thesis
  proof cases
    case 1
    then obtain pt s' where ok: "construct su rcd s = Ok pt s'" by (simp add: construct_def Let_def)
    note c = construct_spec [OF wf d ok]
    have f: "fle pt s' i = 0" if "i < nent pt" for i using c(4) [OF that] .
    have u: "unlocked pt s'" using l by (simp add: unlocked_def c(6) pt_lock_def)
    have "empty_table pt s'"
      using c(1,2) u zero_view [of pt s', OF f] f by (simp add: empty_table_def)
    moreover have "table_frames pt s' = root_frames pt"
      using f plain_not_table [OF plain_free(1)] by (auto simp: table_frames_def)
    moreover have "room 4 k s'" if "room 4 (k + 4) s" for k
      using room_construct [OF wf d ok that] .
    ultimately show thesis using that(1) [OF ok] c(2,3,6,8) u by (simp add: unlocked_def)
  next
    case 2
    then show thesis using that(2) by (simp add: construct_def)
  qed
qed

lemma empty_table_frames: "empty_table pt s \<Longrightarrow> table_frames pt s = root_frames pt"
  using plain_not_table [OF plain_free(1)] by (auto simp: empty_table_def table_frames_def)

text \<open>The first table after the second has been constructed.\<close>

lemma empty_table_kept:
  assumes e: "empty_table pt s" and ok: "construct su rcd s = Ok pt2 s'" and d: "4 dvd npages s"
    and tf: "table_frames pt s = root_frames pt"
  shows "empty_table pt s'" "table_frames pt s' \<inter> root_frames pt2 = {}"
proof -
  have wf: "pt_wf pt s" "unlocked pt s" and f0: "\<And>i. i < nent pt \<Longrightarrow> fle pt s i = 0"
    using e by (simp_all add: empty_table_def)
  note c = construct_spec [OF pt_wfD(1) [OF wf(1)] d ok]
  have "fle pt s' i = fle pt s i" if "i < nent pt" for i
    unfolding fle_def using root_slot_owned [OF wf(1) that] pt_wfD(6) [OF wf(1)] by (intro c(9)) simp_all
  then have f: "fle pt s' i = 0" if "i < nent pt" for i using f0 that by simp
  have "pt_wf pt s'" using construct_gives_empty [OF pt_wfD(1) [OF wf(1)] d ok wf(1)] by simp
  moreover have "unlocked pt s'" using wf(2) by (simp add: unlocked_def c(6))
  ultimately show "empty_table pt s'"
    using e zero_view [of pt s', OF f] f by (simp add: empty_table_def)
  have "table_frames pt s' = root_frames pt"
    using f plain_not_table [OF plain_free(1)] by (auto simp: table_frames_def)
  then show "table_frames pt s' \<inter> root_frames pt2 = {}" using c(5) pt_wfD(7) [OF wf(1)] by auto
qed

definition boot_tables :: "u32 \<Rightarrow> PageTable \<Rightarrow> PageTable \<Rightarrow> kstate \<Rightarrow> bool" where
  "boot_tables memory lower upper s \<longleftrightarrow>
     pt_wf lower s \<and> pt_wf upper s \<and> unlocked lower s \<and> unlocked upper s \<and>
     nent lower = 2048 \<and> nent upper = 4096 \<and> \<not> reference_counted lower \<and> reference_counted upper \<and>
     table_frames lower s \<inter> table_frames upper s = {} \<and>
     (\<forall>p. pview lower s p = (if p \<in> identity_pages memory then VMapped p
        else if p div 256 < 2048 then VFree else VOutside)) \<and>
     (\<forall>p. pview upper s p = (if p div 256 < 4096 then VFree else VOutside))"

lemma build_tables_cases:
  assumes wf: "pa_wf s" and d: "4 dvd npages s" and l: "\<not> held s PageAllocLock"
  shows "(\<exists>lower upper s'. build_tables memory s = Ok (lower, upper) s' \<and> boot_tables memory lower upper s' \<and>
      unat (get_num_allocation_units memory GSection) \<le> 512) \<or>
    (\<exists>t. build_tables memory s = panic OutOfMemory t \<and> \<not> room 4 6 s) \<or>
    (\<exists>t. build_tables memory s = panic AssertionFailure t \<and>
      \<not> unat (get_num_allocation_units memory GSection) \<le> 512)"
proof (rule construct_cases [OF wf d l, of True True])
  fix t assume t: "construct True True s = panic OutOfMemory t" "\<not> room 4 2 s"
  then have "\<not> room 4 6 s" using room_mono [of 4 6 s 4 2] by auto
  then show ?thesis using t(1) by (auto simp: build_tables_def)
next
  fix upper s1
  assume ok1: "construct True True s = Ok upper s1" and e1: "empty_table upper s1"
    and n1: "nent upper = (if True then 4096 else 2048)" "reference_counted upper = True"
      "npages s1 = npages s" "\<not> held s1 PageAllocLock"
    and tf1: "table_frames upper s1 = root_frames upper" and room1: "\<And>k. room 4 (k + 4) s \<Longrightarrow> room 4 k s1"
  let ?s1 = "emit putline_bytes s1"
  have "pa_wf ?s1" "4 dvd npages ?s1" "\<not> held ?s1 PageAllocLock"
    using pt_wfD(1) [of upper s1] e1 n1 d by (simp_all add: empty_table_def)
  then show ?thesis
  proof (rule construct_cases [of ?s1 False False])
    fix t assume t: "construct False False ?s1 = panic OutOfMemory t" "\<not> room 4 2 ?s1"
    then have "\<not> room 4 6 s" using room1 [of 2] by auto
    then show ?thesis using ok1 t(1) by (auto simp: build_tables_def)
  next
    fix lower s2
    assume ok2: "construct False False ?s1 = Ok lower s2" and e2: "empty_table lower s2"
      and n2: "nent lower = (if False then 4096 else 2048)" "reference_counted lower = False"
      and tf2: "table_frames lower s2 = root_frames lower"
    have e1': "empty_table upper ?s1" using e1 by (simp add: empty_table_def)
    note kept = empty_table_kept [OF e1' ok2]
    have up: "empty_table upper s2" "table_frames upper s2 \<inter> table_frames lower s2 = {}"
      using kept n1 d tf1 tf2 by simp_all
    have n2': "nent lower = 2048" "\<not> reference_counted lower" using n2 by simp_all
    note im = identity_map_cases [OF e2 n2', of memory]
    show ?thesis
    proof (cases "unat (get_num_allocation_units memory GSection) \<le> 512")
      case False
      then obtain t where "identity_map lower memory s2 = fail_with ''Failed to reserve identity memory'' t"
        using im by auto
      then show ?thesis using ok1 ok2 False by (auto simp: build_tables_def fail_with_def)
    next
      case True
      then obtain s3 where s3: "identity_map lower memory s2 = Ok () s3" "table_op lower s2 s3"
        "\<And>p. pview lower s3 p = (if p \<in> identity_pages memory then VMapped p else pview lower s2 p)"
        using im by auto
      have wfu: "pt_wf upper s2" using up(1) by (simp add: empty_table_def)
      note iso = table_op_isolated [OF s3(2) wfu up(2)]
      have "boot_tables memory lower upper s3"
        using iso s3(2,3) e2 up(1) n1 n2
        unfolding boot_tables_def by (auto simp: table_op_def unlocked_def empty_table_def)
      then show ?thesis using ok1 ok2 s3(1) True by (auto simp: build_tables_def)
    qed
  qed
qed

text \<open>The steps of building the tables, and what they keep: every owned page and its contents.\<close>

lemma build_tables_steps:
  assumes wf: "pa_wf s" and d: "4 dvd npages s" and l: "\<not> held s PageAllocLock"
    and ok: "build_tables memory s = Ok (lower, upper) s'"
  obtains s1 s2 where "construct True True s = Ok upper s1" "pa_wf (emit putline_bytes s1)"
    "4 dvd npages (emit putline_bytes s1)" "\<not> held (emit putline_bytes s1) PageAllocLock" "npages s1 = npages s"
    "empty_table upper (emit putline_bytes s1)"
    "construct False False (emit putline_bytes s1) = Ok lower s2" "empty_table lower s2" "\<not> reference_counted lower"
    "npages s2 = npages s" "table_op lower s2 s'" "\<forall>p. by_page lower s' p = by_page lower s2 p"
proof -
  obtain s1 s2 where c1: "construct True True s = Ok upper s1"
    and c2: "construct False False (emit putline_bytes s1) = Ok lower s2"
    and im: "identity_map lower memory s2 = Ok () s'"
    using ok by (auto simp: build_tables_def bind_ok_eq_Ok)
  let ?s1 = "emit putline_bytes s1"
  note C1 = construct_spec [OF wf d c1]
  have w1: "pa_wf ?s1" "4 dvd npages ?s1" "\<not> held ?s1 PageAllocLock" "npages s1 = npages s"
    using pt_wfD(1) [OF C1(1)] C1(6,8) d l by (simp_all add: pt_lock_def)
  have "empty_table upper s1" using construct_cases [OF wf d l, of True True] c1 by auto
  then have up: "empty_table upper ?s1" by (simp add: empty_table_def)
  have lo: "empty_table lower s2" "nent lower = 2048" "\<not> reference_counted lower" "npages s2 = npages ?s1"
    using construct_cases [OF w1(1-3), of False False] c2 by auto
  obtain s3 where "identity_map lower memory s2 = Ok () s3" "table_op lower s2 s3"
      "\<forall>p. by_page lower s3 p = by_page lower s2 p"
    using lo identity_map_cases [of lower s2 memory] im by (auto simp: fail_with_def split: if_splits)
  then show thesis using that [OF c1 w1 up c2 lo(1,3)] lo(4) w1(4) im by simp
qed

lemma build_tables_owned:
  assumes wf: "pa_wf s" and d: "4 dvd npages s" and l: "\<not> held s PageAllocLock"
    and ok: "build_tables memory s = Ok (lower, upper) s'" and f: "owned s f"
  shows "owned s' f" "f \<notin> table_frames lower s'" "f \<notin> table_frames upper s'" "frame b = f \<Longrightarrow> mem s' b = mem s b"
proof -
  obtain s1 s2 where c1: "construct True True s = Ok upper s1" and w1: "pa_wf (emit putline_bytes s1)"
    "4 dvd npages (emit putline_bytes s1)" and up: "empty_table upper (emit putline_bytes s1)"
    and c2: "construct False False (emit putline_bytes s1) = Ok lower s2" and lo: "empty_table lower s2"
    and op: "table_op lower s2 s'"
    by (rule build_tables_steps [OF wf d l ok])
  let ?s1 = "emit putline_bytes s1"
  note C1 = construct_spec [OF wf d c1] and C2 = construct_spec [OF w1 c2]
  note lo4 = empty_table_frames [OF lo]
  note kept = empty_table_kept [OF up c2 w1(2) empty_table_frames [OF up]]
  have wfu: "pt_wf upper s2" and ap: "table_frames upper s2 \<inter> table_frames lower s2 = {}"
    using kept lo4 by (simp_all add: empty_table_def)
  have own1: "owned ?s1 f" using C1(10) [OF f] by simp
  have own2: "owned s2 f" by (rule C2(10) [OF own1])
  then show "owned s' f" using op by (simp add: table_op_def)
  have "f \<notin> root_frames lower" using C2(5) [of f] own1 by auto
  then show nl: "f \<notin> table_frames lower s'"
    using new_not_owned [OF op, of f] own2 lo4 by (auto simp: new_frames_def)
  have "table_frames upper s2 = root_frames upper" using kept(1) empty_table_frames by blast
  moreover have "table_frames upper s' = table_frames upper s2"
    using table_op_isolated(4) [OF op wfu ap] by simp
  ultimately show "f \<notin> table_frames upper s'" using C1(5) [of f] f by auto
  show "mem s' b = mem s b" if b: "frame b = f"
  proof -
    have "b \<noteq> rtab s2 + of_nat q" if "q < npages s2" for q using owned_not_table [OF own2 that] b by blast
    then have "mem s' b = mem s2 b" using op nl b by (simp add: table_op_def)
    also have "\<dots> = mem ?s1 b" by (rule C2(13)) (use own1 b in simp)
    also have "\<dots> = mem s b" using C1(13) [of b] f b by simp
    finally show ?thesis .
  qed
qed

text \<open>They take the four pages of each first-level table, and print an empty line.\<close>

lemma build_tables_spends:
  assumes wf: "pa_wf s" and d: "4 dvd npages s" and l: "\<not> held s PageAllocLock"
    and ok: "build_tables memory s = Ok (lower, upper) s'"
  shows "spends 8 s s'" "console s' = console s @ putline_bytes"
proof -
  obtain s1 s2 where c1: "construct True True s = Ok upper s1" and w1: "pa_wf (emit putline_bytes s1)"
    "4 dvd npages (emit putline_bytes s1)"
    and c2: "construct False False (emit putline_bytes s1) = Ok lower s2" and lo: "empty_table lower s2"
    and op: "table_op lower s2 s'" and bp: "\<forall>p. by_page lower s' p = by_page lower s2 p"
    by (rule build_tables_steps [OF wf d l ok])
  have "spends 4 s (emit putline_bytes s1)" using spends_construct [OF wf d c1] by (simp add: spends_def)
  note first = spends_trans [OF this spends_construct [OF w1 c2]]
  have "spends 0 s2 s'" by (rule spends_same_tables [OF op]) (use lo bp in \<open>simp_all add: empty_table_def\<close>)
  from spends_trans [OF first this] show "spends 8 s s'" by simp
  show "console s' = console s @ putline_bytes"
    using construct_spec(7) [OF wf d c1] construct_spec(7) [OF w1 c2] op by (simp add: table_op_def)
qed

text \<open>What the processor translates to once paging is on.\<close>

lemma boot_translation:
  assumes b: "boot_tables memory lower upper s" and tr: "obeys_tables tr"
  shows "tr (coproc (enable_paging lower upper m)) s va
    = (if frame va \<in> identity_pages memory \<and> unat va < 2 ^ 31 then Some va else None)"
proof -
  note B = b [unfolded boot_tables_def]
  have walk: "virtual_to_physical_internal (table_for lower upper va) va s
      = (case pview (table_for lower upper va) s (frame va) of VMapped f \<Rightarrow> Success (phys_address f va) | _ \<Rightarrow> Failure)"
    using B walk_view [of lower s va] walk_view [of upper s va] by (simp add: table_for_def)
  have "tr (coproc (enable_paging lower upper m)) s va
      = result_option (virtual_to_physical_internal (table_for lower upper va) va s)"
    using paging_walk [OF tr] B by blast
  then show ?thesis using B phys_address_same [of va] unfolding walk by (simp add: table_for_def)
qed

end
