(* ===== verification/Boot_Correct.thy ===== *)
theory Boot_Correct
  imports Boot_Steps Table_System
begin

unbundle bit_operations_syntax

text \<open>
  What the boot sequence establishes: the memory it finds, the stacks of the exception modes, the
  identity mapping, and what the processor translates to when it enters the kernel.
\<close>

subsection \<open>Finding memory\<close>

lemma emit_emit [simp]: "emit cs (emit bs s) = emit (bs @ cs) s"
  by (simp add: emit_def)

lemma on_sys_simps [simp]:
  "on_sys (\<lambda>s. Ok r (f s)) m = Ok r (m\<lparr>sys := f (sys m)\<rparr>)" "on_sys (Ok r) m = Ok r m"
  "on_sys (panic c) m = Panic c (say (panic_bytes c) m)"
  by (simp_all add: on_sys_def say_def panic_def)

text \<open>What is printed: the banner, the registers the firmware left, and the tags.\<close>

definition banner :: "u32 \<Rightarrow> u32 \<Rightarrow> u32 \<Rightarrow> u32 \<Rightarrow> memory \<Rightarrow> u32 list \<Rightarrow> u8 list" where
  "banner r0 r1 a cpsr mm ts = line_of ''Hello, kernel World!'' @ puthex_bytes r0 @ putline_bytes @
     puthex_bytes r1 @ putline_bytes @ puthex_bytes a @ putline_bytes @ puthex_bytes cpsr @ putline_bytes @
     concat (map (tag_bytes mm) ts)"

lemma find_memory_eq:
  assumes "tag_list (mem (sys m)) a ts e"
  shows "find_memory r0 r1 a cpsr m =
    (let m' = m\<lparr>uart := uart_init (uart m), sys := emit (banner r0 r1 a cpsr (mem (sys m)) ts) (sys m)\<rparr>
     in case find (is_mem_tag (mem (sys m))) ts of
          None \<Rightarrow> on_sys (panic NoMemory) m'
        | Some t \<Rightarrow> if mem_start (read_mem (mem (sys m)) t) \<noteq> 0 then on_sys (panic NonZeroBase) m'
            else Ok \<lparr>range_start = 0, range_size = mem_size (read_mem (mem (sys m)) t)\<rparr> m')"
proof -
  have d: "debug_atags a (emit bs (sys m)) = Some (emit (bs @ concat (map (tag_bytes (mem (sys m))) ts)) (sys m))" for bs
    using debug_atags_list [of "emit bs (sys m)" a ts e] assms by simp
  have g: "get_mem_range a (emit bs (sys m)) = Some (case find (is_mem_tag (mem (sys m))) ts of
       None \<Rightarrow> panic NoMemory (emit bs (sys m))
     | Some t \<Rightarrow> Ok \<lparr>range_start = mem_start (read_mem (mem (sys m)) t),
                     range_size = mem_size (read_mem (mem (sys m)) t)\<rparr> (emit bs (sys m)))" for bs
    using get_mem_range_list [of "emit bs (sys m)" a ts e] assms
    by (simp split: option.split)
  show ?thesis
    by (simp add: find_memory_def Let_def say_def on_sys_def or_spin_def d g panic_def banner_def
        split: option.split)
qed

subsection \<open>Stacks\<close>

definition stack_frame :: "u32 \<Rightarrow> nat" where
  "stack_frame sp = frame (sp - PAGE_SIZE)"

text \<open>The pages \<open>fs\<close> have been taken from \<open>s0\<close>, and nothing else.\<close>

definition stacked :: "nat list \<Rightarrow> kstate \<Rightarrow> kstate \<Rightarrow> bool" where
  "stacked fs s0 s \<longleftrightarrow> pa_wf s \<and> npages s = npages s0 \<and> held s = held s0 \<and> distinct fs \<and> (\<forall>f \<in> set fs. owned s f) \<and>
     (\<forall>f < npages s0. rc s f = (if f \<in> set fs then 1 else rc s0 f)) \<and>
     spends (length fs) s0 s \<and> console s = console s0 \<and>
     (\<forall>b. owned s0 (frame b) \<longrightarrow> owned s (frame b) \<and> mem s b = mem s0 b)"

lemma alloc_stack_cases:
  assumes st: "stacked fs s0 (sys m)" and l: "\<not> held s0 PageAllocLock"
  obtains sp s where "alloc_stack m = Ok sp (m\<lparr>sys := s\<rparr>)" "stacked (fs @ [stack_frame sp]) s0 s" "aligned 12 sp"
  | t where "alloc_stack m = Panic OutOfMemory t" "\<not> room 4 (2 + length fs) s0"
proof -
  note S = st [unfolded stacked_def]
  have wf: "pa_wf (sys m)" and free: "\<not> held (sys m) PageAllocLock" using S l by simp_all
  have sz: "1 \<in> sizes" "unat (1 :: u32) dvd npages (sys m)" by (simp_all add: sizes_def)
  consider r s where "alloc 1 (sys m) = Ok r s"
    | t where "alloc 1 (sys m) = panic OutOfMemory t" "\<not> room 4 2 (sys m)"
  proof (cases "room 4 2 (sys m)")
    case True
    then have "room (unat (1 :: u32)) 2 (sys m)" using room_mono [of 4 2 "sys m" 1 2] by simp
    then show thesis using that(1) alloc_room [OF wf sz free] by blast
  next
    case False
    then show thesis using that alloc_Ok_or_panic [OF wf sz free] by blast
  qed
  then show thesis
  proof cases
    case (1 r s)
    note ak = alloc_keeps [OF wf sz 1]
    have sf: "stack_frame (r + PAGE_SIZE) = frame r" by (simp add: stack_frame_def)
    have own: "owned s (frame r)" using page1.fresh_owned [OF _ 1, of 0] wf by simp
    have kept: "owned s f" if "owned (sys m) f" for f using page1.owned_kept [OF _ 1 that] wf by simp
    have new: "frame r \<notin> set fs" using S ak(8) by blast
    have "spends (length fs) s0 (sys m)" using S by blast
    from spends_trans [OF this spends_alloc [OF wf sz 1]] have "spends (length (fs @ [frame r])) s0 s" by simp
    moreover have "owned s (frame b) \<and> mem s b = mem s0 b" if "owned s0 (frame b)" for b
      using page1.contents_kept [OF _ 1, of b] kept S that wf by simp
    moreover have "rc s f = (if f \<in> set (fs @ [frame r]) then 1 else rc s0 f)" if "f < npages s0" for f
      using ak(6) [of f] S that by auto
    moreover have "pa_wf s" using page1.inv_kept [OF _ 1] wf by simp
    ultimately have "stacked (fs @ [stack_frame (r + PAGE_SIZE)]) s0 s"
      using S ak(1-3) own kept new unfolding stacked_def sf by simp
    moreover have "aligned 12 (r + PAGE_SIZE)"
      using page1.fresh_aligned [OF _ 1] wf by (simp add: aligned_add aligned_def [of 12 "0x1000"])
    ultimately show thesis using that(1) by (simp add: alloc_stack_def on_sys_def 1)
  next
    case (2 t)
    then have "\<not> room 4 (2 + length fs) s0" using spends_room [of "length fs" s0 "sys m" 4 2] S by blast
    then show thesis using that(2) 2(1) by (simp add: alloc_stack_def on_sys_def panic_def)
  qed
qed

definition stack_tops :: "mode_stacks \<Rightarrow> u32 list" where
  "stack_tops sps = [fiq_stack sps, irq_stack sps, abort_stack sps, undef_stack sps]"

definition stack_frames :: "mode_stacks \<Rightarrow> nat list" where
  "stack_frames sps = map stack_frame (stack_tops sps)"

definition stacks_ok :: "mode_stacks \<Rightarrow> kstate \<Rightarrow> bool" where
  "stacks_ok sps s \<longleftrightarrow> distinct (stack_frames sps) \<and> list_all (owned s) (stack_frames sps) \<and>
     list_all (aligned 12) (stack_tops sps)"

lemma stacks_ok_mono: "stacks_ok sps s \<Longrightarrow> (\<And>f. owned s f \<Longrightarrow> owned t f) \<Longrightarrow> stacks_ok sps t"
  by (auto simp: stacks_ok_def list_all_iff)

lemma allocate_stacks_cases:
  fixes m memory env
  defines "s0 \<equiv> PageAlloc memory (page_alloc_table_start env) (sys m)"
  assumes wf: "pa_wf s0"
  obtains sps s where "allocate_stacks env memory m = Ok () (m\<lparr>sys := s, stacks := sps, interrupts := True\<rparr>)"
    "stacked (stack_frames sps) s0 s" "list_all (aligned 12) (stack_tops sps)"
  | t where "allocate_stacks env memory m = Panic OutOfMemory t" "\<not> room 4 5 s0"
proof -
  have l: "\<not> held s0 PageAllocLock" by (simp add: s0_def PageAlloc_state)
  have few: "\<not> room 4 5 s0" if "\<not> room 4 k s0" "k \<le> 5" for k using that room_mono [of 4 5 s0 4 k] by auto
  have st0: "stacked [] s0 (sys (m\<lparr>sys := s0\<rparr>))" using wf by (simp add: stacked_def spends_refl)
  show thesis
  proof (rule alloc_stack_cases [OF st0 l])
    fix t assume "alloc_stack (m\<lparr>sys := s0\<rparr>) = Panic OutOfMemory t" "\<not> room 4 (2 + length []) s0"
    then show thesis using that(2) few [of 2] by (simp add: allocate_stacks_def s0_def)
  next
    fix sp1 s1 assume ok1: "alloc_stack (m\<lparr>sys := s0\<rparr>) = Ok sp1 (m\<lparr>sys := s0, sys := s1\<rparr>)"
      and "stacked ([] @ [stack_frame sp1]) s0 s1" and al1: "aligned 12 sp1"
    then have st1: "stacked [stack_frame sp1] s0 (sys (m\<lparr>sys := s1\<rparr>))" by simp
    show thesis
    proof (rule alloc_stack_cases [OF st1 l])
      fix t assume "alloc_stack (m\<lparr>sys := s1\<rparr>) = Panic OutOfMemory t" "\<not> room 4 (2 + length [stack_frame sp1]) s0"
      then show thesis using that(2) few [of 3] ok1 by (simp add: allocate_stacks_def s0_def)
    next
      fix sp2 s2 assume ok2: "alloc_stack (m\<lparr>sys := s1\<rparr>) = Ok sp2 (m\<lparr>sys := s1, sys := s2\<rparr>)"
        and "stacked ([stack_frame sp1] @ [stack_frame sp2]) s0 s2" and al2: "aligned 12 sp2"
      then have st2: "stacked [stack_frame sp1, stack_frame sp2] s0 (sys (m\<lparr>sys := s2\<rparr>))" by simp
      show thesis
      proof (rule alloc_stack_cases [OF st2 l])
        fix t assume "alloc_stack (m\<lparr>sys := s2\<rparr>) = Panic OutOfMemory t"
          "\<not> room 4 (2 + length [stack_frame sp1, stack_frame sp2]) s0"
        then show thesis using that(2) few [of 4] ok1 ok2 by (simp add: allocate_stacks_def s0_def)
      next
        fix sp3 s3 assume ok3: "alloc_stack (m\<lparr>sys := s2\<rparr>) = Ok sp3 (m\<lparr>sys := s2, sys := s3\<rparr>)"
          and "stacked ([stack_frame sp1, stack_frame sp2] @ [stack_frame sp3]) s0 s3" and al3: "aligned 12 sp3"
        then have st3: "stacked [stack_frame sp1, stack_frame sp2, stack_frame sp3] s0 (sys (m\<lparr>sys := s3\<rparr>))" by simp
        show thesis
        proof (rule alloc_stack_cases [OF st3 l])
          fix t assume "alloc_stack (m\<lparr>sys := s3\<rparr>) = Panic OutOfMemory t"
            "\<not> room 4 (2 + length [stack_frame sp1, stack_frame sp2, stack_frame sp3]) s0"
          then show thesis using that(2) ok1 ok2 ok3 by (simp add: allocate_stacks_def s0_def)
        next
          fix sp4 s4 assume ok4: "alloc_stack (m\<lparr>sys := s3\<rparr>) = Ok sp4 (m\<lparr>sys := s3, sys := s4\<rparr>)"
            and st4: "stacked ([stack_frame sp1, stack_frame sp2, stack_frame sp3] @ [stack_frame sp4]) s0 s4"
            and al4: "aligned 12 sp4"
          let ?sps = "\<lparr>fiq_stack = sp1, irq_stack = sp2, abort_stack = sp3, undef_stack = sp4\<rparr>"
          have "allocate_stacks env memory m = Ok () (m\<lparr>sys := s4, stacks := ?sps, interrupts := True\<rparr>)"
            using ok1 ok2 ok3 ok4 by (simp add: allocate_stacks_def set_stacks_def s0_def)
          then show thesis using that(1) st4 al1 al2 al3 al4 by (simp add: stack_frames_def stack_tops_def)
        qed
      qed
    qed
  qed
qed

text \<open>The references held when the tables are built: the pages below the end of the table of counts, and the stacks.\<close>

definition boot_references :: "boot_env \<Rightarrow> u32 \<Rightarrow> mode_stacks \<Rightarrow> nat \<Rightarrow> nat" where
  "boot_references env memory sps f =
     (if f < first_page memory (page_alloc_table_start env) \<or> f \<in> set (stack_frames sps) then 1 else 0)"

text \<open>
  The pages below the table of counts, but for page 0, hold the loader and what was linked into it.
\<close>

definition early :: "boot_env \<Rightarrow> u32 \<Rightarrow> nat \<Rightarrow> bool" where
  "early env memory f \<longleftrightarrow> 0 < f \<and> f < frame (page_alloc_table_start env) \<and> f < unat memory div 4096"

lemma early_owned:
  assumes wf: "pa_wf (PageAlloc memory (page_alloc_table_start env) s)" and e: "early env memory (frame b)"
  shows "owned (PageAlloc memory (page_alloc_table_start env) s) (frame b)"
    "mem (PageAlloc memory (page_alloc_table_start env) s) b = mem s b"
proof -
  let ?loc = "page_alloc_table_start env" and ?t = "PageAlloc memory (page_alloc_table_start env) s"
  have n: "npages ?t = unat memory div 4096" "rtab ?t = ?loc" by (simp_all add: PageAlloc_state)
  have up: "frame ?loc \<le> frame (?loc + of_nat q)" if "q < npages ?t" for q
  proof -
    have "unat ?loc + q < 2 ^ 32" using pa_wfD(3) [OF wf] that n by simp
    then have "unat (?loc + of_nat q) = unat ?loc + q" by (simp add: unat_add32)
    then show ?thesis by (simp add: frame_def div_le_mono)
  qed
  have lt: "frame b < frame ?loc" "frame b < npages ?t" "0 < frame b" using e n by (simp_all add: early_def)
  have "\<not> pinned ?t (frame b)" using up lt n(2) by (fastforce simp: pinned_def)
  moreover have "rc ?t (frame b) \<noteq> 0" using lt by (simp add: PageAlloc_state first_page_def)
  ultimately show "owned ?t (frame b)" using lt(2) by (simp add: owned_def used_def)
  have "b \<noteq> ?loc + of_nat q" if "q < npages ?t" for q using up [OF that] lt(1) by auto
  then show "mem ?t b = mem s b" by (intro PageAlloc_state(7)) simp
qed

subsection \<open>The whole sequence\<close>

lemma setup_exceptions_simps [simp]:
  "coproc (setup_exceptions env m) = coproc m" "vector_base (setup_exceptions env m) = ivt_start env"
  "interrupts (setup_exceptions env m)"
  "palloc (sys (setup_exceptions env m)) = palloc (sys m)" "mem (sys (setup_exceptions env m)) = mem (sys m)"
  by (simp_all add: setup_exceptions_def set_stacks_def say_def svc_entry_def Let_def split: prod.split)

lemma enable_paging_simps [simp]:
  "stacks (enable_paging l u m) = stacks m" "vector_base (enable_paging l u m) = vector_base m"
  "interrupts (enable_paging l u m) = interrupts m"
  by (simp_all add: enable_paging_def say_def Let_def)

text \<open>The firmware's tags describe RAM from address 0 that the loader's tables can serve.\<close>

definition bootable :: "boot_env \<Rightarrow> u32 \<Rightarrow> u32 \<Rightarrow> machine \<Rightarrow> bool" where
  "bootable env a memory m \<longleftrightarrow>
     (\<exists>ts e t. tag_list (mem (sys m)) a ts e \<and> find (is_mem_tag (mem (sys m))) ts = Some t \<and>
        read_mem (mem (sys m)) t = \<lparr>mem_size = memory, mem_start = 0\<rparr>) \<and>
     4096 \<le> unat memory \<and> 4 dvd unat memory div 4096 \<and> aligned 12 (page_alloc_table_start env) \<and>
     unat (page_alloc_table_start env) + unat memory div 4096 \<le> 2 ^ 32 \<and>
     (\<forall>sz \<in> sizes. next_alloc sz (palloc (sys m)) = 0)"

text \<open>RAM enough that the stacks and tables cannot run out, wherever they end up.\<close>

definition roomy :: "boot_env \<Rightarrow> u32 \<Rightarrow> bool" where
  "roomy env memory \<longleftrightarrow> (first_page memory (page_alloc_table_start env) + 10) * 4 \<le> unat memory div 4096"

lemma first_page_room:
  assumes "(first_page memory (page_alloc_table_start env) + k) * 4 \<le> unat memory div 4096"
  shows "room 4 k (PageAlloc memory (page_alloc_table_start env) s)"
proof -
  let ?t = "PageAlloc memory (page_alloc_table_start env) s"
  have "used ?t \<subseteq> {..<first_page memory (page_alloc_table_start env)}"
    by (auto simp: used_def PageAlloc_state split: if_splits)
  then have "card (used ?t) \<le> first_page memory (page_alloc_table_start env)"
    using card_mono [of "{..<first_page memory (page_alloc_table_start env)}" "used ?t"] by simp
  then show ?thesis using assms by (simp add: room_def PageAlloc_state)
qed

lemma roomy_room: "roomy env memory \<Longrightarrow> room 4 10 (PageAlloc memory (page_alloc_table_start env) s)"
  by (simp add: roomy_def first_page_room)

lemma boot_wf:
  assumes "bootable env a memory m"
  shows "pa_wf (PageAlloc memory (page_alloc_table_start env) (sys (setup_exceptions env (m\<lparr>uart := v, sys := emit bs (sys m)\<rparr>))))"
  using assms by (intro PageAlloc_pa_wf) (simp_all add: bootable_def emit_def)

text \<open>What has been printed when the stacks are there: up to the supervisor call, by it, by the allocator.\<close>

definition exception_bytes :: "boot_env \<Rightarrow> u8 list" where
  "exception_bytes env = (case svc_registers env of (a, b, c, d) \<Rightarrow>
     line_of ''System call!'' @ at_bytes ''a: '' a @ at_bytes ''b: '' b @ at_bytes ''c: '' c @ at_bytes ''d: '' d) @
     line_of ''Enabling interrupts''"

definition stack_log :: "boot_env \<Rightarrow> u32 \<Rightarrow> u32 \<Rightarrow> u32 \<Rightarrow> u32 \<Rightarrow> u32 \<Rightarrow> memory \<Rightarrow> u8 list \<Rightarrow> bool" where
  "stack_log env memory r0 r1 a cpsr mm bs \<longleftrightarrow> (\<exists>ts e. tag_list mm a ts e \<and>
     bs = banner r0 r1 a cpsr mm ts @ exception_bytes env @ alloc_log memory (page_alloc_table_start env))"

lemma setup_exceptions_console: "console (sys (setup_exceptions env m)) = console (sys m) @ exception_bytes env"
  by (simp add: setup_exceptions_def set_stacks_def say_def svc_entry_def exception_bytes_def Let_def split: prod.split)

text \<open>Up to the stacks both builds of the loader are the same.\<close>

lemma boot_prefix:
  assumes b: "bootable env a memory m"
  obtains (stacks) m1 sps s where
      "find_memory r0 r1 a cpsr m = Ok \<lparr>range_start = 0, range_size = memory\<rparr> m1"
      "allocate_stacks env memory (setup_exceptions env m1)
        = Ok () ((setup_exceptions env m1)\<lparr>sys := s, stacks := sps, interrupts := True\<rparr>)"
      "stacks_ok sps s" "pa_wf s" "npages s = unat memory div 4096" "\<not> held s PageAllocLock"
      "\<And>f. f < npages s \<Longrightarrow> unat (rc s f) = boot_references env memory sps f"
      "\<And>k. (first_page memory (page_alloc_table_start env) + (k + 4)) * 4 \<le> unat memory div 4096 \<Longrightarrow> room 4 k s"
      "card (used s) \<le> first_page memory (page_alloc_table_start env) + 4"
      "\<And>b. early env memory (frame b) \<Longrightarrow> owned s (frame b) \<and> mem s b = mem (sys m) b"
      "\<exists>bs. stack_log env memory r0 r1 a cpsr (mem (sys m)) bs \<and> console s = console (sys m) @ bs"
  | (memory) m1 t where
      "find_memory r0 r1 a cpsr m = Ok \<lparr>range_start = 0, range_size = memory\<rparr> m1"
      "allocate_stacks env memory (setup_exceptions env m1) = Panic OutOfMemory t" "\<not> roomy env memory"
proof -
  obtain ts e t where tags: "tag_list (mem (sys m)) a ts e" "find (is_mem_tag (mem (sys m))) ts = Some t"
    "read_mem (mem (sys m)) t = \<lparr>mem_size = memory, mem_start = 0\<rparr>"
    using b by (auto simp: bootable_def)
  let ?m1 = "m\<lparr>uart := uart_init (uart m), sys := emit (banner r0 r1 a cpsr (mem (sys m)) ts) (sys m)\<rparr>"
  let ?s0 = "PageAlloc memory (page_alloc_table_start env) (sys (setup_exceptions env ?m1))"
  have found: "find_memory r0 r1 a cpsr m = Ok \<lparr>range_start = 0, range_size = memory\<rparr> ?m1"
    using tags by (simp add: find_memory_eq Let_def)
  show thesis
  proof (rule allocate_stacks_cases [OF boot_wf [OF b, where v = "uart_init (uart m)" and bs = "banner r0 r1 a cpsr (mem (sys m)) ts"]])
    fix t assume t: "allocate_stacks env memory (setup_exceptions env ?m1) = Panic OutOfMemory t" "\<not> room 4 5 ?s0"
    then have "\<not> roomy env memory"
      using roomy_room [of env memory "sys (setup_exceptions env ?m1)"] room_mono [of 4 10 _ 4 5] by auto
    then show thesis using memory [OF found t(1)] by blast
  next
    fix sps s
    assume ok: "allocate_stacks env memory (setup_exceptions env ?m1)
        = Ok () ((setup_exceptions env ?m1)\<lparr>sys := s, stacks := sps, interrupts := True\<rparr>)"
      and st: "stacked (stack_frames sps) ?s0 s" and al: "list_all (aligned 12) (stack_tops sps)"
    note S = st [unfolded stacked_def]
    have n: "npages s = unat memory div 4096" "npages ?s0 = unat memory div 4096" using S by (simp_all add: PageAlloc_state)
    have "spends (length (stack_frames sps)) ?s0 s" using S by blast
    moreover have "length (stack_frames sps) = 4" by (simp add: stack_frames_def stack_tops_def)
    ultimately have sp: "spends 4 ?s0 s" by (simp only:)
    have "unat (rc s f) = boot_references env memory sps f" if "f < npages s" for f
      using S n that by (simp add: boot_references_def PageAlloc_state)
    moreover have "stacks_ok sps s" using S al by (simp add: stacks_ok_def list_all_iff)
    moreover have "\<not> held s PageAllocLock" using S by (simp add: PageAlloc_state)
    moreover have "room 4 k s" if "(first_page memory (page_alloc_table_start env) + (k + 4)) * 4 \<le> unat memory div 4096" for k
      by (rule spends_room [OF sp first_page_room [OF that]])
    moreover have "card (used s) \<le> first_page memory (page_alloc_table_start env) + 4"
    proof -
      have "used ?s0 \<subseteq> {..<first_page memory (page_alloc_table_start env)}"
        by (auto simp: used_def PageAlloc_state split: if_splits)
      then have "card (used ?s0) \<le> first_page memory (page_alloc_table_start env)"
        using card_mono [of "{..<first_page memory (page_alloc_table_start env)}" "used ?s0"] by simp
      then show ?thesis using sp by (simp add: spends_def)
    qed
    moreover have "owned s (frame b) \<and> mem s b = mem (sys m) b" if "early env memory (frame b)" for b
      using early_owned [OF boot_wf [OF b, where v = "uart_init (uart m)"] that] S by simp
    moreover have "console s = console (sys m) @ banner r0 r1 a cpsr (mem (sys m)) ts @ exception_bytes env @
        alloc_log memory (page_alloc_table_start env)"
      using S by (simp add: PageAlloc_state setup_exceptions_console)
    then have "\<exists>bs. stack_log env memory r0 r1 a cpsr (mem (sys m)) bs \<and> console s = console (sys m) @ bs"
      using tags(1) unfolding stack_log_def by blast
    ultimately show thesis using stacks [OF found ok] S n(1) by blast
  qed
qed

text \<open>The tables the loader builds are the only ones, and their references the only others.\<close>

lemma build_tables_books:
  assumes wf: "pa_wf s" and d: "4 dvd npages s" and l: "\<not> held s PageAllocLock"
    and ok: "build_tables memory s = Ok (lower, upper) s'"
  shows "books {lower, upper} (\<lambda>f. unat (rc s f)) s'" "lower \<noteq> upper" "npages s' = npages s"
proof -
  let ?o = "\<lambda>f. unat (rc s f)"
  obtain s1 s2 where c1: "construct True True s = Ok upper s1" and d1: "4 dvd npages (emit putline_bytes s1)"
    and c2: "construct False False (emit putline_bytes s1) = Ok lower s2" and nrc: "\<not> reference_counted lower"
    and n2: "npages s2 = npages s" and op: "table_op lower s2 s'"
    by (rule build_tables_steps [OF wf d l ok])
  have "books {upper} ?o (emit putline_bytes s1)" using books_construct(1) [OF books_none [OF wf l] d c1] by simp
  note b2 = books_construct [OF this d1 c2]
  have "change lower s2 s'" by (rule change_op [OF op]) (use nrc in simp)
  then show "books {lower, upper} ?o s'" using books_change(1) [OF b2(1), of lower] by simp
  show "lower \<noteq> upper" using b2(2) by simp
  show "npages s' = npages s" using op n2 by (simp add: table_op_def)
qed

text \<open>What the tables are built over: where the image lies, and how much memory is left.\<close>

definition boot_leaves :: "boot_env \<Rightarrow> u32 \<Rightarrow> memory \<Rightarrow> PageTable \<Rightarrow> PageTable \<Rightarrow> kstate \<Rightarrow> bool" where
  "boot_leaves env memory mm lower upper s \<longleftrightarrow> npages s = unat memory div 4096 \<and>
     card (used s) \<le> first_page memory (page_alloc_table_start env) + 12 \<and>
     (\<forall>b. early env memory (frame b) \<longrightarrow> owned s (frame b) \<and> frame b \<notin> table_frames lower s \<and>
        frame b \<notin> table_frames upper s \<and> mem s b = mm b)"

lemma loader_main_cases:
  assumes b: "bootable env a memory m"
  obtains (kernel) lower upper m' where
      "loader_main env r0 r1 a cpsr m = start_kernel env lower upper (enable_paging lower upper m')"
      "boot_tables memory lower upper (sys m')" "stacks_ok (stacks m') (sys m')" "interrupts m'"
      "vector_base m' = ivt_start env" "unat (get_num_allocation_units memory GSection) \<le> 512"
      "books {lower, upper} (boot_references env memory (stacks m')) (sys m')" "lower \<noteq> upper"
      "boot_leaves env memory (mem (sys m)) lower upper (sys m')"
      "\<forall>f \<in> set (stack_frames (stacks m')). f \<notin> table_frames lower (sys m') \<and> f \<notin> table_frames upper (sys m')"
      "\<exists>bs. stack_log env memory r0 r1 a cpsr (mem (sys m)) bs \<and> console (sys m') = console (sys m) @ bs @ putline_bytes"
  | (memory) t where "loader_main env r0 r1 a cpsr m = Panic OutOfMemory t" "\<not> roomy env memory"
  | (devices) t where "loader_main env r0 r1 a cpsr m = Panic AssertionFailure t"
      "\<not> unat (get_num_allocation_units memory GSection) \<le> 512"
proof (rule boot_prefix [OF b, of r0 r1 cpsr])
  fix m1 t
  assume "find_memory r0 r1 a cpsr m = Ok \<lparr>range_start = 0, range_size = memory\<rparr> m1"
    "allocate_stacks env memory (setup_exceptions env m1) = Panic OutOfMemory t" "\<not> roomy env memory"
  then show thesis using memory by (simp add: loader_main_def)
next
  fix m1 sps s
  let ?m2 = "setup_exceptions env m1"
  assume found: "find_memory r0 r1 a cpsr m = Ok \<lparr>range_start = 0, range_size = memory\<rparr> m1"
    and stk: "allocate_stacks env memory ?m2 = Ok () (?m2\<lparr>sys := s, stacks := sps, interrupts := True\<rparr>)"
    and ok: "stacks_ok sps s" and s: "pa_wf s" "npages s = unat memory div 4096" "\<not> held s PageAllocLock"
    and rc: "\<And>f. f < npages s \<Longrightarrow> unat (rc s f) = boot_references env memory sps f"
    and rm: "\<And>k. (first_page memory (page_alloc_table_start env) + (k + 4)) * 4 \<le> unat memory div 4096 \<Longrightarrow> room 4 k s"
    and cd: "card (used s) \<le> first_page memory (page_alloc_table_start env) + 4"
    and ea: "\<And>b. early env memory (frame b) \<Longrightarrow> owned s (frame b) \<and> mem s b = mem (sys m) b"
    and log: "\<exists>bs. stack_log env memory r0 r1 a cpsr (mem (sys m)) bs \<and> console s = console (sys m) @ bs"
  let ?m3 = "?m2\<lparr>sys := s, stacks := sps, interrupts := True\<rparr>"
  have d: "4 dvd npages s" using b s(2) by (simp add: bootable_def)
  have run: "loader_main env r0 r1 a cpsr m =
      bind_ok (on_sys (build_tables memory) ?m3) (\<lambda>(lower, upper) m.
        start_kernel env lower upper (enable_paging lower upper m))"
    using found stk by (simp add: loader_main_def)
  consider lower upper s' where "build_tables memory s = Ok (lower, upper) s'" "boot_tables memory lower upper s'"
      "unat (get_num_allocation_units memory GSection) \<le> 512"
    | t where "build_tables memory s = panic OutOfMemory t" "\<not> room 4 6 s"
    | t where "build_tables memory s = panic AssertionFailure t"
        "\<not> unat (get_num_allocation_units memory GSection) \<le> 512"
    using build_tables_cases [OF s(1) d s(3), of memory] by blast
  then show thesis
  proof cases
    case (1 lower upper s')
    note bk = build_tables_books [OF s(1) d s(3) 1(1)]
    have "stacks_ok sps s'"
      by (rule stacks_ok_mono [OF ok]) (rule build_tables_owned(1) [OF s(1) d s(3) 1(1)])
    moreover have "books {lower, upper} (boot_references env memory sps) s'"
      using bk(1,3) rc unfolding books_def by simp
    moreover have "boot_leaves env memory (mem (sys m)) lower upper s'"
      using build_tables_spends(1) [OF s(1) d s(3) 1(1)] build_tables_owned(1-3) [OF s(1) d s(3) 1(1)]
        build_tables_owned(4) [OF s(1) d s(3) 1(1) _ refl] ea cd s(2)
      by (simp add: boot_leaves_def spends_def)
    moreover have "\<forall>f \<in> set (stack_frames sps). f \<notin> table_frames lower s' \<and> f \<notin> table_frames upper s'"
      using build_tables_owned(2,3) [OF s(1) d s(3) 1(1)] ok by (simp add: stacks_ok_def list_all_iff)
    moreover have "\<exists>bs. stack_log env memory r0 r1 a cpsr (mem (sys m)) bs \<and> console s' = console (sys m) @ bs @ putline_bytes"
      using log build_tables_spends(2) [OF s(1) d s(3) 1(1)] by auto
    ultimately show thesis
      using kernel [of lower upper "?m3\<lparr>sys := s'\<rparr>"] 1 bk(2) run by (simp add: on_sys_def)
  next
    case 2
    then have "\<not> roomy env memory" using rm [of 6] by (auto simp: roomy_def)
    then show thesis using memory run 2(1) by (simp add: on_sys_def panic_def)
  next
    case 3
    then show thesis using devices run by (simp add: on_sys_def panic_def)
  qed
qed

lemma loader_enters:
  assumes b: "bootable env a memory m" and room: "roomy env memory"
    and le: "unat (get_num_allocation_units memory GSection) \<le> 512"
  obtains lower upper m' where
    "loader_main env r0 r1 a cpsr m = start_kernel env lower upper (enable_paging lower upper m')"
    "boot_tables memory lower upper (sys m')" "stacks_ok (stacks m') (sys m')" "interrupts m'"
    "vector_base m' = ivt_start env"
    "books {lower, upper} (boot_references env memory (stacks m')) (sys m')" "lower \<noteq> upper"
    "boot_leaves env memory (mem (sys m)) lower upper (sys m')"
    "\<forall>f \<in> set (stack_frames (stacks m')). f \<notin> table_frames lower (sys m') \<and> f \<notin> table_frames upper (sys m')"
    "\<exists>bs. stack_log env memory r0 r1 a cpsr (mem (sys m)) bs \<and> console (sys m') = console (sys m) @ bs @ putline_bytes"
  by (rule loader_main_cases [OF b, of r0 r1 cpsr]) (use that room le in blast)+

subsection \<open>A machine to boot\<close>

text \<open>One memory tag at \<open>0x100\<close>, the table of counts at \<open>0x15000\<close>, hardware that walks the tables.\<close>

definition tagged :: "u32 \<Rightarrow> u32 \<Rightarrow> memory" where
  "tagged start ram = store32 0x100 4 (store32 0x104 ATAG_MEM (store32 0x108 ram (store32 0x10c start (\<lambda>_. 0))))"

definition pi :: "memory \<Rightarrow> machine" where
  "pi mm = \<lparr>sys = power_on\<lparr>mem := mm\<rparr>,
     coproc = \<lparr>ttbr0 = 0, ttbr1 = 0, ttbcr = 0, dacr = 0, control = 0, cp15_trace = []\<rparr>,
     stacks = \<lparr>fiq_stack = 0, irq_stack = 0, abort_stack = 0, undef_stack = 0\<rparr>,
     vector_base = 0, interrupts = False, uart = []\<rparr>"

definition pi_env :: boot_env where
  "pi_env = \<lparr>kernel_image = 0x13000, page_alloc_table_start = 0x15000, ivt_start = 0x11000,
     svc_registers = (0, 0, 0, 0), mmu = (\<lambda>c s va. hw_walk c (mem s) va),
     entry_proc = (\<lambda>entry lower upper m. Ok () m)\<rparr>"

lemma pi_simps [simp]:
  "mem (sys (pi mm)) = mm" "palloc (sys (pi mm)) = palloc power_on"
  "page_alloc_table_start pi_env = 0x15000" "obeys_tables (mmu pi_env)"
  by (simp_all add: pi_def pi_env_def obeys_tables_def)

definition tag_words :: "memory \<Rightarrow> u32 \<Rightarrow> u32 \<Rightarrow> bool" where
  "tag_words mm start ram \<longleftrightarrow> load32 mm 0x100 = 4 \<and> load32 mm 0x104 = ATAG_MEM \<and> load32 mm 0x108 = ram \<and>
     load32 mm 0x10c = start \<and> load32 mm 0x114 = 0"

lemma tagged_words: "tag_words (tagged start ram) start ram"
  by (simp add: tag_words_def tagged_def load32_store32_other aligned_def) (simp add: load32_def)

lemma tag_words_found:
  assumes "tag_words mm start ram"
  shows "tag_list mm 0x100 [0x100] 0x110" "find (is_mem_tag mm) [0x100] = Some 0x100"
    "read_mem mm 0x100 = \<lparr>mem_size = ram, mem_start = start\<rparr>"
  using assms by (simp_all add: tag_words_def read_header_def next_tag_def atag_values is_mem_tag_def read_mem_def)

lemmas tagged_found = tag_words_found [OF tagged_words]

lemma pi_bootable:
  assumes t: "tag_words mm 0 ram" and "4096 \<le> unat ram" "4 dvd unat ram div 4096"
  shows "bootable pi_env 0x100 ram (pi mm)"
proof -
  have n: "unat ram div 4096 \<le> 2 ^ 20" using frame_less [of ram] by (simp add: frame_def)
  have "\<exists>ts e t. tag_list mm 0x100 ts e \<and> find (is_mem_tag mm) ts = Some t \<and>
      read_mem mm t = \<lparr>mem_size = ram, mem_start = 0\<rparr>"
    using tag_words_found [OF t] by blast
  with n show ?thesis using assms by (simp add: bootable_def power_on_hints aligned_def)
qed

lemma pi_ram:
  "bootable pi_env 0x100 0x80000 (pi (tagged 0 0x80000))" "roomy pi_env 0x80000"
  "bootable pi_env 0x100 0x20100000 (pi (tagged 0 0x20100000))" "roomy pi_env 0x20100000"
  by (rule pi_bootable [OF tagged_words], simp, simp, simp add: roomy_def first_page_def frame_def,
      rule pi_bootable [OF tagged_words], simp, simp, simp add: roomy_def first_page_def frame_def)

lemma pi_sections:
  "unat (get_num_allocation_units 0x80000 GSection) = 1"
  "unat (get_num_allocation_units 0x20100000 GSection) = 513"
  by (simp_all add: get_num_allocation_units_def)

subsection \<open>Properties\<close>

text \<open>
  C18: with paging on, whatever MMU follows the documented table format translates exactly as
  \<open>virtual_to_physical\<close> predicts: through the lower table below 2 GiB and the upper one above.
\<close>

theorem paging_is_software_walk:
  assumes "obeys_tables tr" "pt_wf lower s" "pt_wf upper s" "nent lower = 2048" "nent upper = 4096"
  shows "tr (coproc (enable_paging lower upper m)) s va
    = (case virtual_to_physical_internal (if unat va < 2 ^ 31 then lower else upper) va s of
         Success pa \<Rightarrow> Some pa | Failure \<Rightarrow> None)"
  using paging_walk [OF assms] by (simp add: table_for_def split: Result.split)

theorem paging_is_software_walk_witness:
  "\<exists>lower upper s. mmu pi_env (coproc (enable_paging lower upper (pi (tagged 0 0x80000)))) s 0x20201018 = Some 0x20201018"
proof -
  have le: "unat (get_num_allocation_units 0x80000 GSection) \<le> 512" by (simp add: pi_sections)
  obtain lower upper and m' :: machine where b: "boot_tables 0x80000 lower upper (sys m')"
    by (rule loader_enters [OF pi_ram(1,2) le, of 0 0 0])
  note B = b [unfolded boot_tables_def]
  have "pview lower (sys m') (frame 0x20201018) = VMapped 0x20201"
    using B by (simp add: identity_pages_def frame_def)
  then have "virtual_to_physical_internal lower 0x20201018 (sys m') = Success 0x20201018"
    using walk_view [of lower "sys m'" "0x20201018"] B phys_address_same [of "0x20201018"] by (simp add: frame_def)
  then have "mmu pi_env (coproc (enable_paging lower upper (pi (tagged 0 0x80000)))) (sys m') 0x20201018
      = Some 0x20201018"
    using paging_is_software_walk [of "mmu pi_env" lower "sys m'" upper "pi (tagged 0 0x80000)" "0x20201018"] B
    by simp
  then show ?thesis by blast
qed

text \<open>
  C3: the loader reaches the kernel. If the tags describe RAM from 0 with at most 512 sections and
  room for the stacks and tables, \<open>loader_main\<close> runs up to \<open>start_kernel\<close> with both tables well-formed
  and disjoint, four distinct stack pages it owns, the exception vector installed, interrupts on,
  and an MMU under which RAM and the devices are mapped to themselves and nothing else is mapped.  The
  books are right from there on: besides the references of the two tables there is exactly one to each
  page below the end of the table of counts and to each stack page.
\<close>

theorem loader_main_enters_kernel:
  assumes b: "bootable env a memory m" and room: "roomy env memory" and tr: "obeys_tables (mmu env)"
    and le: "unat (get_num_allocation_units memory GSection) \<le> 512"
  shows "\<exists>lower upper m'. loader_main env r0 r1 a cpsr m = start_kernel env lower upper m' \<and>
    pt_wf lower (sys m') \<and> pt_wf upper (sys m') \<and> reference_counted upper \<and> unlocked upper (sys m') \<and>
    table_frames lower (sys m') \<inter> table_frames upper (sys m') = {} \<and>
    stacks_ok (stacks m') (sys m') \<and> vector_base m' = ivt_start env \<and> interrupts m' \<and> paging_on (coproc m') \<and>
    lower \<noteq> upper \<and> books {lower, upper} (boot_references env memory (stacks m')) (sys m') \<and>
    (\<forall>va. mmu env (coproc m') (sys m') va =
       (if frame va < unat (get_num_allocation_units memory GSection) * 256 \<or>
           0x20000 \<le> frame va \<and> frame va < 0x21000 then Some va else None))"
proof -
  obtain lower upper m' where k: "loader_main env r0 r1 a cpsr m
      = start_kernel env lower upper (enable_paging lower upper m')"
    "boot_tables memory lower upper (sys m')" "stacks_ok (stacks m') (sys m')" "interrupts m'"
    "vector_base m' = ivt_start env" "lower \<noteq> upper" "books {lower, upper} (boot_references env memory (stacks m')) (sys m')"
    by (rule loader_enters [OF b room le, of r0 r1 cpsr])
  let ?m = "enable_paging lower upper m'"
  have b': "boot_tables memory lower upper (sys ?m)" using k(2) by (simp add: boot_tables_def)
  have "unat va < 2 ^ 31" if "frame va \<in> identity_pages memory" for va
  proof -
    have "frame va < 0x80000" using that le by (auto simp: identity_pages_def)
    then show ?thesis by (simp add: frame_def div_less_iff_less_mult)
  qed
  then have "mmu env (coproc ?m) (sys ?m) va = (if frame va \<in> identity_pages memory then Some va else None)" for va
    using boot_translation [OF b' tr] by auto
  then have "mmu env (coproc ?m) (sys ?m) va =
      (if frame va < unat (get_num_allocation_units memory GSection) * 256 \<or>
           0x20000 \<le> frame va \<and> frame va < 0x21000 then Some va else None)" for va
    by (simp add: identity_pages_def)
  moreover have "stacks_ok (stacks ?m) (sys ?m)" using k(3) by (simp add: stacks_ok_def)
  ultimately show ?thesis
    using k(1,4-7) b' by (intro exI [of _ lower] exI [of _ upper] exI [of _ ?m]) (simp add: boot_tables_def)
qed

theorem loader_main_enters_kernel_witness:
  "\<exists>lower upper m'. loader_main pi_env 0 0xc42 0x100 0 (pi (tagged 0 0x80000)) = start_kernel pi_env lower upper m' \<and>
     mmu pi_env (coproc m') (sys m') 0x7fffc = Some 0x7fffc \<and> mmu pi_env (coproc m') (sys m') 0x80000000 = None"
proof -
  have le: "unat (get_num_allocation_units 0x80000 GSection) \<le> 512" by (simp add: pi_sections)
  obtain lower upper m' where
    "loader_main pi_env 0 0xc42 0x100 0 (pi (tagged 0 0x80000)) = start_kernel pi_env lower upper m'"
    "\<forall>va. mmu pi_env (coproc m') (sys m') va =
       (if frame va < unat (get_num_allocation_units 0x80000 GSection) * 256 \<or>
           0x20000 \<le> frame va \<and> frame va < 0x21000 then Some va else None)"
    using loader_main_enters_kernel [OF pi_ram(1,2) pi_simps(4) le, of 0 "0xc42" 0] by blast
  moreover from this have "mmu pi_env (coproc m') (sys m') 0x7fffc = Some 0x7fffc"
    "mmu pi_env (coproc m') (sys m') 0x80000000 = None"
    by (simp_all add: pi_sections frame_def)
  ultimately show ?thesis by blast
qed

text \<open>
  C29: with more than 512 sections of RAM the identity mapping of RAM runs into the devices at
  \<open>0x20000000\<close>: the second reservation fails and the loader panics with \<open>AssertionFailure\<close>.
\<close>

theorem large_memory_panics:
  assumes b: "bootable env a memory m" and room: "roomy env memory"
    and gt: "unat (get_num_allocation_units memory GSection) > 512"
  shows "\<exists>t. loader_main env r0 r1 a cpsr m = Panic AssertionFailure t"
  by (rule loader_main_cases [OF b, of r0 r1 cpsr]) (use room gt in auto)

theorem large_memory_panics_witness:
  "\<exists>t. loader_main pi_env 0 0xc42 0x100 0 (pi (tagged 0 0x20100000)) = Panic AssertionFailure t"
  by (rule large_memory_panics [OF pi_ram(3,4)]) (simp add: pi_sections)

text \<open>
  C28: without a memory tag the loader panics with \<open>NoMemory\<close>, and with RAM that does not start at 0
  with \<open>NonZeroBase\<close>, after the banner, the registers and the tags have been printed and before
  memory is touched.
\<close>

theorem loader_main_checks_memory:
  assumes "tag_list (mem (sys m)) a ts e"
  shows "(find (is_mem_tag (mem (sys m))) ts = None \<longrightarrow>
      loader_main env r0 r1 a cpsr m = Panic NoMemory
        (m\<lparr>uart := uart_init (uart m), sys := emit (banner r0 r1 a cpsr (mem (sys m)) ts @ panic_bytes NoMemory) (sys m)\<rparr>)) \<and>
    (\<forall>t. find (is_mem_tag (mem (sys m))) ts = Some t \<and> mem_start (read_mem (mem (sys m)) t) \<noteq> 0 \<longrightarrow>
      loader_main env r0 r1 a cpsr m = Panic NonZeroBase
        (m\<lparr>uart := uart_init (uart m), sys := emit (banner r0 r1 a cpsr (mem (sys m)) ts @ panic_bytes NonZeroBase) (sys m)\<rparr>))"
  using find_memory_eq [OF assms] by (simp_all add: loader_main_def Let_def say_def)

theorem loader_main_checks_memory_witness:
  "\<exists>t. loader_main pi_env 0 0 0x100 0 (pi (tagged 0x1000 0x80000)) = Panic NonZeroBase t"
  using loader_main_checks_memory [of "pi (tagged 0x1000 0x80000)" "0x100" "[0x100]" "0x110" pi_env 0 0 0]
    tagged_found [of "0x1000" "0x80000"]
  by (simp del: tag_list.simps find.simps)

text \<open>
  The kernel lists the page table it was given and stops: on a table whose entries are all zero
  the listing is one line that counts every section as unmapped, and the table's lock is free again.
\<close>

theorem kernel_entry_lists_table:
  assumes "\<And>i. i < nent pt \<Longrightarrow> fle pt s i = 0" "0 < nent pt" "nent pt \<le> 4096" "unlocked pt s"
  shows "kernel_entry l pt s = Panic AssertionFailure
    (emit (line_of ''Running from higher-half'' @ puthex_bytes 0 @ tab @
       putdec_bytes (first_level_num_entries pt) @ line_of '' unmapped sections'' @ panic_bytes AssertionFailure) s)"
proof -
  let ?s = "(emit (line_of ''Running from higher-half'') s)\<lparr>held := (held s)(pt_lock pt := True)\<rparr>"
  have z: "ld ?s (slot (root pt) i) = 0" if "i < unat (first_level_num_entries pt)" for i
    using assms(1) [of i] that by (simp add: fle_def nent_def ld_def)
  have "section_lines pt ?s 0 no_aggregation = section_aggregation_display 0 (first_level_num_entries pt) Unmapped"
    using z assms(2,3) by (intro section_lines_empty) (simp_all add: nent_def)
  moreover have "emit bs (s\<lparr>held := h\<rparr>) = (emit bs s)\<lparr>held := h\<rparr>" for bs h by (simp add: emit_def)
  ultimately show ?thesis
    using assms(4)
    by (simp add: kernel_entry_def print_table_info_def with_lock_def unlocked_def fun_upd_idem
        section_aggregation_display_def panic_def)
qed

theorem kernel_entry_lists_table_witness:
  "\<exists>l pt s t. kernel_entry l pt s = Panic AssertionFailure t"
proof -
  obtain pt s where t: "empty_table pt s" "nent pt = 2048" using small_table by metis
  show ?thesis using kernel_entry_lists_table [of pt s pt] t by (auto simp: empty_table_def)
qed

end
