(* ===== verification/Elf_Steps.thy ===== *)
theory Elf_Steps
  imports Mmu
begin

unbundle bit_operations_syntax

text \<open>
  Loading, step by step: the headers keep their contents while memory is allocated for the
  segments, each segment gets its pages, and a copy through the MMU puts each byte where its
  virtual address translates to.
\<close>

subsection \<open>Headers\<close>

lemma load_at:
  assumes "\<forall>k < n. m' (a + of_nat k) = m (a + of_nat k)"
  shows "d + 4 \<le> n \<Longrightarrow> load32 m' (a + of_nat d) = load32 m (a + of_nat d)"
    "d + 2 \<le> n \<Longrightarrow> load16 m' (a + of_nat d) = load16 m (a + of_nat d)"
    "d < n \<Longrightarrow> load8 m' (a + of_nat d) = load8 m (a + of_nat d)"
proof -
  have e: "m' (a + of_nat d + of_nat k) = m (a + of_nat d + of_nat k)" if "d + k < n" for k
    using assms that by (metis add.assoc of_nat_add)
  show "d + 4 \<le> n \<Longrightarrow> load32 m' (a + of_nat d) = load32 m (a + of_nat d)"
    by (rule load32_cong) (simp add: e)
  show "d + 2 \<le> n \<Longrightarrow> load16 m' (a + of_nat d) = load16 m (a + of_nat d)"
    using e [of 0] e [of 1] by (simp add: load16_def)
  show "d < n \<Longrightarrow> load8 m' (a + of_nat d) = load8 m (a + of_nat d)"
    using e [of 0] by (simp add: load8_def)
qed

definition same_bytes :: "memory \<Rightarrow> memory \<Rightarrow> u32 \<Rightarrow> nat \<Rightarrow> bool" where
  "same_bytes m' m a n \<longleftrightarrow> (\<forall>k < n. m' (a + of_nat k) = m (a + of_nat k))"

lemma read_ehdr_same: "same_bytes m' m h sizeof_Elf32_Ehdr \<Longrightarrow> read_ehdr m' h = read_ehdr m h"
proof -
  assume "same_bytes m' m h sizeof_Elf32_Ehdr"
  then have s: "\<forall>k < 52. m' (h + of_nat k) = m (h + of_nat k)"
    by (simp add: same_bytes_def sizeof_Elf32_Ehdr_def)
  note l = load_at(1) [OF s] and l2 = load_at(2) [OF s] and l3 = load_at(3) [OF s]
  show ?thesis
    using l [of 20] l [of 24] l [of 28] l [of 32] l [of 36] l2 [of 16] l2 [of 18] l2 [of 40] l2 [of 42]
      l2 [of 44] l2 [of 46] l2 [of 48] l2 [of 50] l3
    by (simp add: read_ehdr_def EI_NIDENT_def)
qed

lemma read_phdr_same: "same_bytes m' m a sizeof_Elf32_Phdr \<Longrightarrow> read_phdr m' a = read_phdr m a"
proof -
  assume "same_bytes m' m a sizeof_Elf32_Phdr"
  then have s: "\<forall>k < 32. m' (a + of_nat k) = m (a + of_nat k)"
    by (simp add: same_bytes_def sizeof_Elf32_Phdr_def)
  note l = load_at(1) [OF s]
  show ?thesis
    using l [of 0] l [of 4] l [of 8] l [of 12] l [of 16] l [of 20] l [of 24] l [of 28]
    by (simp add: read_phdr_def)
qed

text \<open>The bytes of the file header and of its program headers.\<close>

definition phnum :: "memory \<Rightarrow> u32 \<Rightarrow> nat" where
  "phnum m h = unat (e_phnum (read_ehdr m h))"

definition phdr_address :: "memory \<Rightarrow> u32 \<Rightarrow> nat \<Rightarrow> u32" where
  "phdr_address m h i = h + e_phoff (read_ehdr m h) + of_nat i * of_nat sizeof_Elf32_Phdr"

definition headers_same :: "memory \<Rightarrow> memory \<Rightarrow> u32 \<Rightarrow> bool" where
  "headers_same m' m h \<longleftrightarrow> same_bytes m' m h sizeof_Elf32_Ehdr \<and>
     (\<forall>i < phnum m h. same_bytes m' m (phdr_address m h i) sizeof_Elf32_Phdr)"

lemma headers_sameD:
  assumes "headers_same m' m h"
  shows "read_ehdr m' h = read_ehdr m h" "phnum m' h = phnum m h" "phdr_address m' h = phdr_address m h"
    "i < phnum m h \<Longrightarrow> phdr_at m' h i = phdr_at m h i"
proof -
  show e: "read_ehdr m' h = read_ehdr m h"
    using assms by (intro read_ehdr_same) (simp add: headers_same_def)
  show "phnum m' h = phnum m h" "phdr_address m' h = phdr_address m h"
    by (simp_all add: fun_eq_iff phnum_def phdr_address_def e)
  show "i < phnum m h \<Longrightarrow> phdr_at m' h i = phdr_at m h i"
    using assms read_phdr_same [of m' m "phdr_address m h i"]
    by (simp add: headers_same_def phdr_at_def phdr_address_def e)
qed

lemma headers_same_refl [simp]: "headers_same m m h"
  by (simp add: headers_same_def same_bytes_def)

lemma headers_same_trans: "headers_same m2 m1 h \<Longrightarrow> headers_same m1 m h \<Longrightarrow> headers_same m2 m h"
  using headers_sameD(2,3) [of m1 m h] by (simp add: headers_same_def same_bytes_def)

text \<open>The headers lie in pages somebody owns, outside a page table.\<close>

definition safe_byte :: "PageTable \<Rightarrow> kstate \<Rightarrow> u32 \<Rightarrow> bool" where
  "safe_byte pt s b \<longleftrightarrow> owned s (frame b) \<and> frame b \<notin> table_frames pt s"

definition headers_safe :: "PageTable \<Rightarrow> u32 \<Rightarrow> kstate \<Rightarrow> bool" where
  "headers_safe pt h s \<longleftrightarrow> (\<forall>k < sizeof_Elf32_Ehdr. safe_byte pt s (h + of_nat k)) \<and>
     (\<forall>i < phnum (mem s) h. \<forall>k < sizeof_Elf32_Phdr. safe_byte pt s (phdr_address (mem s) h i + of_nat k))"

lemma allocates_byte:
  "allocates pt P s s' \<Longrightarrow> safe_byte pt s b \<Longrightarrow> mem s' b = mem s b \<and> safe_byte pt s' b"
  by (simp add: allocates_def safe_byte_def)

lemma allocates_headers:
  assumes a: "allocates pt P s s'" and safe: "headers_safe pt h s"
  shows "headers_same (mem s') (mem s) h" "headers_safe pt h s'"
proof -
  show same: "headers_same (mem s') (mem s) h"
    using allocates_byte [OF a] safe by (simp add: headers_same_def same_bytes_def headers_safe_def)
  show "headers_safe pt h s'"
    using allocates_byte [OF a] safe unfolding headers_safe_def headers_sameD(2,3) [OF same] by simp
qed

subsection \<open>Segments\<close>

definition segment_pages :: "Elf32_Phdr \<Rightarrow> nat set" where
  "segment_pages p = (if p_type p = PT_LOAD
     then unit_range GPage (p_vaddr p) (get_num_allocation_units (p_memsz p) GPage) else {})"

definition segment_in_range :: "Elf32_Phdr \<Rightarrow> bool" where
  "segment_in_range p \<longleftrightarrow> (p_type p = PT_LOAD \<longrightarrow>
     in_range GPage (p_vaddr p) (get_num_allocation_units (p_memsz p) GPage))"

lemma load_segments_step:
  "load_segments pt h i s =
     (if i < phnum (mem s) h then bind_ok (load_segment pt (phdr_at (mem s) h i) s)
        (\<lambda>success s. if success then load_segments pt h (i + 1) s else Ok False s)
      else Ok True s)"
  by (subst load_segments.simps) (simp add: phnum_def)

text \<open>All segments from \<open>i\<close> on: each gets pages of its own, and they do not overlap.\<close>

definition load_pages :: "memory \<Rightarrow> u32 \<Rightarrow> nat \<Rightarrow> nat set" where
  "load_pages m h i = (\<Union>j \<in> {i..<phnum m h}. segment_pages (phdr_at m h j))"

definition loads :: "PageTable \<Rightarrow> u32 \<Rightarrow> nat \<Rightarrow> kstate \<Rightarrow> kstate \<Rightarrow> bool" where
  "loads pt h i s s' \<longleftrightarrow> allocates pt (load_pages (mem s) h i) s s' \<and>
     (\<forall>q \<in> load_pages (mem s) h i. pview pt s q = VFree) \<and>
     (\<forall>j k. i \<le> j \<and> j < k \<and> k < phnum (mem s) h \<longrightarrow>
        segment_pages (phdr_at (mem s) h j) \<inter> segment_pages (phdr_at (mem s) h k) = {})"

lemma load_pages_end: "\<not> i < phnum m h \<Longrightarrow> load_pages m h i = {}"
  by (simp add: load_pages_def)

lemma atLeastLessThan_insert_low: "i < n \<Longrightarrow> {i..<n} = insert i {Suc i..<n}" for i n :: nat
  by auto

lemma load_pages_step:
  "i < phnum m h \<Longrightarrow> load_pages m h i = segment_pages (phdr_at m h i) \<union> load_pages m h (Suc i)"
  using atLeastLessThan_insert_low [of i] by (simp add: load_pages_def)

lemma load_pages_same: "headers_same m' m h \<Longrightarrow> load_pages m' h i = load_pages m h i"
  using headers_sameD(2,4) [of m' m h] by (simp add: load_pages_def cong: SUP_cong_simp)

lemma loads_refl: "pt_wf pt s \<Longrightarrow> \<not> i < phnum (mem s) h \<Longrightarrow> loads pt h i s s"
  using allocates_refl by (auto simp: loads_def load_pages_end)

lemma loads_step:
  assumes i: "i < phnum (mem s) h" and a: "allocates pt (segment_pages (phdr_at (mem s) h i)) s t"
    and free: "\<forall>q \<in> segment_pages (phdr_at (mem s) h i). pview pt s q = VFree"
    and same: "headers_same (mem t) (mem s) h" and b: "loads pt h (Suc i) t u"
  shows "loads pt h i s u"
proof -
  let ?n = "phnum (mem s) h" and ?seg = "\<lambda>j. segment_pages (phdr_at (mem s) h j)"
  let ?L = "load_pages (mem s) h (Suc i)"
  note hs = headers_sameD(2,4) [OF same] load_pages_same [OF same]
  have B: "allocates pt ?L t u" "\<forall>q \<in> ?L. pview pt t q = VFree"
    "\<And>j k. Suc i \<le> j \<Longrightarrow> j < k \<Longrightarrow> k < ?n \<Longrightarrow> ?seg j \<inter> ?seg k = {}"
    using b hs unfolding loads_def by simp_all
  have disj: "?seg i \<inter> ?L = {}"
    using a B(2) unfolding allocates_def by (metis disjoint_iff page_view.distinct(9))
  have "allocates pt (load_pages (mem s) h i) s u"
    unfolding load_pages_step [OF i] by (rule allocates_trans [OF a B(1) disj])
  moreover have "pview pt s q = VFree" if q: "q \<in> load_pages (mem s) h i" for q
  proof (cases "q \<in> ?seg i")
    case True
    then show ?thesis using free by blast
  next
    case False
    then have "q \<in> ?L" "pview pt t q = pview pt s q"
      using q a by (simp_all add: load_pages_step [OF i] allocates_def)
    then show ?thesis using B(2) by simp
  qed
  moreover have "?seg j \<inter> ?seg k = {}" if jk: "i \<le> j" "j < k" "k < ?n" for j k
  proof (cases "j = i")
    case True
    then have "k \<in> {Suc i..<?n}" using jk by simp
    then have "?seg k \<subseteq> ?L" unfolding load_pages_def by blast
    then show ?thesis using disj True by blast
  next
    case False
    then show ?thesis using B(3) jk by simp
  qed
  ultimately show ?thesis unfolding loads_def by blast
qed

subsection \<open>Copying through the MMU\<close>

text \<open>
  Under an invariant that fixes the translation and survives the stores, each byte arrives where
  its virtual address translates to, and nothing else changes.
\<close>

lemma vmemcpy_copies:
  assumes "\<And>t i. I t \<Longrightarrow> i < n \<Longrightarrow> tr t (b + of_nat i) = Some (S i)"
    and "\<And>t i. I t \<Longrightarrow> i < n \<Longrightarrow> tr t (a + of_nat i) = Some (D i)"
    and "\<And>t i v. I t \<Longrightarrow> i < n \<Longrightarrow> I (t\<lparr>mem := store8 (D i) v (mem t)\<rparr>)"
    and "\<And>i j. i < n \<Longrightarrow> j < n \<Longrightarrow> D i \<noteq> S j" "\<And>i j. i < n \<Longrightarrow> j < n \<Longrightarrow> D i = D j \<Longrightarrow> i = j" "I s"
  shows "\<exists>s'. vmemcpy tr n a b s = Ok () s' \<and> I s' \<and> (\<forall>i < n. mem s' (D i) = mem s (S i)) \<and>
    (\<forall>x. (\<forall>i < n. x \<noteq> D i) \<longrightarrow> mem s' x = mem s x)"
  using assms
proof (induction n arbitrary: a b S D s)
  case 0
  then show ?case by simp
next
  case (Suc n)
  let ?s = "s\<lparr>mem := store8 (D 0) (load8 (mem s) (S 0)) (mem s)\<rparr>"
  have "\<exists>s'. vmemcpy tr n (a + 1) (b + 1) ?s = Ok () s' \<and> I s' \<and>
      (\<forall>i < n. mem s' (D (Suc i)) = mem ?s (S (Suc i))) \<and>
      (\<forall>x. (\<forall>i < n. x \<noteq> D (Suc i)) \<longrightarrow> mem s' x = mem ?s x)"
  proof (rule Suc.IH)
    fix t i assume "I t" "i < n"
    then show "tr t (b + 1 + of_nat i) = Some (S (Suc i))" "tr t (a + 1 + of_nat i) = Some (D (Suc i))"
      using Suc.prems(1) [of t "Suc i"] Suc.prems(2) [of t "Suc i"] by (simp_all add: add.assoc)
    show "\<And>v. I (t\<lparr>mem := store8 (D (Suc i)) v (mem t)\<rparr>)"
      using Suc.prems(3) [of t "Suc i"] \<open>I t\<close> \<open>i < n\<close> by simp
  next
    fix i j assume "i < n" "j < n"
    then show "D (Suc i) \<noteq> S (Suc j)" using Suc.prems(4) [of "Suc i" "Suc j"] by simp
    show "D (Suc i) = D (Suc j) \<Longrightarrow> i = j"
      using Suc.prems(5) [of "Suc i" "Suc j"] \<open>i < n\<close> \<open>j < n\<close> by simp
  next
    show "I ?s" using Suc.prems(3) [of s 0] Suc.prems(6) by simp
  qed
  then obtain s' where s': "vmemcpy tr n (a + 1) (b + 1) ?s = Ok () s'" "I s'"
    "\<forall>i < n. mem s' (D (Suc i)) = mem ?s (S (Suc i))"
    "\<And>x. \<forall>i < n. x \<noteq> D (Suc i) \<Longrightarrow> mem s' x = mem ?s x" by blast
  have run: "vmemcpy tr (Suc n) a b s = Ok () s'"
    using s'(1) Suc.prems(1) [of s 0] Suc.prems(2) [of s 0] Suc.prems(6) by simp
  have "mem s' (D i) = mem s (S i)" if i: "i < Suc n" for i
  proof (cases i)
    case 0
    have "\<forall>j < n. D 0 \<noteq> D (Suc j)" using Suc.prems(5) [of 0] by fastforce
    then show ?thesis using s'(4) 0 by (simp add: store8_def load8_def)
  next
    case (Suc j)
    have "D 0 \<noteq> S (Suc j)" using Suc.prems(4) [of 0 "Suc j"] i Suc by simp
    then have "S (Suc j) \<noteq> D 0" by (rule not_sym)
    then show ?thesis using s'(3) i Suc by (simp add: store8_def)
  qed
  moreover have "mem s' x = mem s x" if x: "\<forall>i < Suc n. x \<noteq> D i" for x
  proof -
    have "\<forall>i < n. x \<noteq> D (Suc i)" "x \<noteq> D 0" using x by auto
    then show ?thesis using s'(4) by (simp add: store8_def)
  qed
  ultimately show ?case using run s'(2) by blast
qed

text \<open>A byte that does not translate leaves the copy without a meaning.\<close>

lemma vmemcpy_undefined:
  assumes "\<And>t x. I t \<Longrightarrow> tr t x = T x"
    and "\<And>t i p v. I t \<Longrightarrow> i < n \<Longrightarrow> T (a + of_nat i) = Some p \<Longrightarrow> I (t\<lparr>mem := store8 p v (mem t)\<rparr>)"
    and "k < n" "T (a + of_nat k) = None \<or> T (b + of_nat k) = None" "I s"
  shows "vmemcpy tr n a b s = Undef"
  using assms
proof (induction n arbitrary: a b s k)
  case (Suc n)
  have t: "tr s a = T a" "tr s b = T b" using Suc.prems(1,5) by simp_all
  show ?case
  proof (cases "T a = None \<or> T b = None")
    case True
    then show ?thesis using t by (auto split: option.split)
  next
    case False
    then obtain p q where pq: "T a = Some p" "T b = Some q" by auto
    obtain j where j: "k = Suc j" using Suc.prems(4) pq by (cases k) auto
    let ?s = "s\<lparr>mem := store8 p (load8 (mem s) q) (mem s)\<rparr>"
    have keep: "I (t\<lparr>mem := store8 p v (mem t)\<rparr>)" if "I t" "i < n" "T (a + 1 + of_nat i) = Some p" for t i p v
      using Suc.prems(2) [of t "Suc i" p v] that by (simp add: add.assoc)
    have "I ?s" using Suc.prems(2) [of s 0 p] Suc.prems(5) pq by simp
    moreover have "j < n" "T (a + 1 + of_nat j) = None \<or> T (b + 1 + of_nat j) = None"
      using Suc.prems(3,4) j by (simp_all add: add.assoc)
    ultimately have "vmemcpy tr n (a + 1) (b + 1) ?s = Undef"
      using Suc.prems(1) keep by (intro Suc.IH [where k = j])
    then show ?thesis using t pq by simp
  qed
qed simp

subsection \<open>Copying while the tables are in force\<close>

text \<open>Writes outside a table leave the table and its view.\<close>

lemma writes_outside:
  assumes wf: "pt_wf pt s" and w: "writes F s s'"
    and F: "\<And>f. f \<in> F \<Longrightarrow> owned s f" "\<And>f. f \<in> F \<Longrightarrow> f \<notin> table_frames pt s"
  shows "pt_wf pt s'" "pview pt s' = pview pt s" "table_frames pt s' = table_frames pt s" "owned s' = owned s"
proof -
  note c = writes_counts [OF w F(1)]
  show ow: "owned s' = owned s" using c(5) by blast
  have word: "ld s' a = ld s a" if "frame a \<in> table_frames pt s" "aligned 2 a" for a
  proof -
    have "frame a \<notin> F" using that(1) F(2) by metis
    then show ?thesis using writes_ld [OF w that(2)] by simp
  qed
  have f: "fle pt s' k = fle pt s k" if "k < nent pt" for k
    unfolding fle_def using root_slot_frame [OF wf that] root_in_table_frames pt_wfD(6) [OF wf]
    by (intro word) auto
  have d: "sle pt s' k j = sle pt s k j" if "k < nent pt" "is_table (fle pt s k)" "j < 256" for k j
    unfolding sle_def f [OF that(1)]
    using table_slot_frame [OF wf that] table_in_table_frames [OF that(1,2)] entry_tableD(2) [OF wf that(1,2)]
    by (intro word) simp_all
  have "pa_wf s'" using c(6) pt_wfD(1) [OF wf] by blast
  then show "pt_wf pt s'" using f d by (intro pt_wf_stepI [where S = "{}", OF wf]) (simp_all add: ow)
  show "pview pt s' = pview pt s" using pview_other(1) [of pt "{}" s' s] f d by (auto simp: fun_eq_iff)
  show "table_frames pt s' = table_frames pt s"
    using f by (intro table_frames_cong) (simp_all add: table_frame_def)
qed

lemma writes_store8: "writes {frame x} s (s\<lparr>mem := store8 x v (mem s)\<rparr>)"
  by (auto simp: writes_def store8_def)

text \<open>Where a virtual address lies, by the views of the two tables.\<close>

definition place :: "PageTable \<Rightarrow> PageTable \<Rightarrow> kstate \<Rightarrow> u32 \<Rightarrow> u32 option" where
  "place lower upper s va =
     (case pview (table_for lower upper va) s (frame va) of VMapped f \<Rightarrow> Some (phys_address f va) | _ \<Rightarrow> None)"

definition tables_as :: "PageTable \<Rightarrow> PageTable \<Rightarrow> kstate \<Rightarrow> kstate \<Rightarrow> bool" where
  "tables_as lower upper s t \<longleftrightarrow> pt_wf lower t \<and> pt_wf upper t \<and> owned t = owned s \<and>
     pview lower t = pview lower s \<and> pview upper t = pview upper s \<and>
     table_frames lower t = table_frames lower s \<and> table_frames upper t = table_frames upper s"

definition data_page :: "PageTable \<Rightarrow> PageTable \<Rightarrow> kstate \<Rightarrow> nat \<Rightarrow> bool" where
  "data_page lower upper s f \<longleftrightarrow> owned s f \<and> f \<notin> table_frames lower s \<and> f \<notin> table_frames upper s"

lemma tables_as_store:
  assumes "tables_as lower upper s t" "data_page lower upper s (frame x)"
  shows "tables_as lower upper s (t\<lparr>mem := store8 x v (mem t)\<rparr>)"
  using assms writes_outside [OF _ writes_store8, of lower t x v] writes_outside [OF _ writes_store8, of upper t x v]
  by (simp add: tables_as_def data_page_def)

lemma mmu_place:
  assumes "obeys_tables tr" "tables_as lower upper s t" "nent lower = 2048" "nent upper = 4096"
  shows "tr (coproc (enable_paging lower upper m)) t va = place lower upper s va"
proof -
  have wf: "pt_wf lower t" "pt_wf upper t" and v: "pview lower t = pview lower s" "pview upper t = pview upper s"
    using assms(2) by (simp_all add: tables_as_def)
  have "virtual_to_physical_internal (table_for lower upper va) va t
      = (case pview (table_for lower upper va) t (frame va) of VMapped f \<Rightarrow> Success (phys_address f va) | _ \<Rightarrow> Failure)"
    using walk_view [OF wf(1)] walk_view [OF wf(2)] by (simp add: table_for_def)
  then show ?thesis
    using paging_walk [OF assms(1) wf assms(3,4)] v by (simp add: place_def table_for_def split: page_view.split)
qed

end
