(* ===== verification/Elf_Correct.thy ===== *)
theory Elf_Correct
  imports Elf_Steps Boot_Correct
begin

unbundle bit_operations_syntax

text \<open>
  What the program loader promises, over the definitions of \<open>Elf_Loader\<close>: which files it turns
  down, and where the bytes of a section end up.
\<close>

subsection \<open>Headers\<close>

text \<open>
  A file whose header sizes are not those of the 32-bit format, or with 65535 sections, is
  turned down with a message before anything is allocated or copied.
\<close>

theorem load_elf_rejects_headers:
  assumes "e_phentsize (read_ehdr (mem s) h) \<noteq> 32 \<or> e_shentsize (read_ehdr (mem s) h) \<noteq> 40 \<or>
    e_shnum (read_ehdr (mem s) h) = 0xffff"
  shows "\<exists>bs. load_elf tr h pt s = Ok Failure (emit bs s) \<and>
    (bs = line_of ''Size mismatch'' \<or> bs = bytes_of ''Too many sections'')"
proof -
  have "unat (e_phentsize (read_ehdr (mem s) h)) = 32 \<longleftrightarrow> e_phentsize (read_ehdr (mem s) h) = 32"
    "unat (e_shentsize (read_ehdr (mem s) h)) = 40 \<longleftrightarrow> e_shentsize (read_ehdr (mem s) h) = 40"
    using word_unat_eq_iff [of "e_phentsize (read_ehdr (mem s) h)" 32]
      word_unat_eq_iff [of "e_shentsize (read_ehdr (mem s) h)" 40] by simp_all
  then show ?thesis
    using assms by (auto simp: load_elf_def Let_def sizeof_Elf32_Phdr_def sizeof_Elf32_Shdr_def)
qed

theorem load_elf_rejects_headers_witness:
  "\<exists>bs. load_elf (\<lambda>s va. Some va) 0x5000 \<lparr>first_level_table = 0, first_level_num_entries = 0, reference_counted = True\<rparr> power_on
     = Ok Failure (emit bs power_on)"
proof -
  have "e_phentsize (read_ehdr (mem power_on) 0x5000) \<noteq> 32"
    by (simp add: read_ehdr_def power_on_def load16_def)
  then show ?thesis using load_elf_rejects_headers [of power_on "0x5000"] by blast
qed

subsection \<open>Sections\<close>

text \<open>
  With paging on, copying a section whose source translates to itself and whose destination
  translates, byte by byte, to distinct places in pages that are neither the source nor part of a
  table, puts every byte of the file where its virtual address translates to; nothing else in memory
  changes and both tables keep their views.
\<close>

theorem load_section_copies:
  assumes tr: "obeys_tables tr" and wf: "pt_wf lower s" "pt_wf upper s" "nent lower = 2048" "nent upper = 4096"
    and sec: "sh_type sec = SHT_PROGBITS" "sh_flags sec AND SHF_ALLOC \<noteq> 0"
    and src: "\<And>i. i < unat (sh_size sec) \<Longrightarrow>
      place lower upper s (h + sh_offset sec + of_nat i) = Some (h + sh_offset sec + of_nat i)"
    and dst: "\<And>i. i < unat (sh_size sec) \<Longrightarrow>
      place lower upper s (sh_addr sec + of_nat i) = Some (d i) \<and> data_page lower upper s (frame (d i))"
    and apart: "\<And>i j. i < unat (sh_size sec) \<Longrightarrow> j < unat (sh_size sec) \<Longrightarrow> d i \<noteq> h + sh_offset sec + of_nat j"
      "\<And>i j. i < unat (sh_size sec) \<Longrightarrow> j < unat (sh_size sec) \<Longrightarrow> d i = d j \<Longrightarrow> i = j"
  shows "\<exists>s'. load_section (tr (coproc (enable_paging lower upper m))) h sec s = Ok () s' \<and>
    tables_as lower upper s s' \<and>
    (\<forall>i < unat (sh_size sec). mem s' (d i) = mem s (h + sh_offset sec + of_nat i)) \<and>
    (\<forall>x. (\<forall>i < unat (sh_size sec). x \<noteq> d i) \<longrightarrow> mem s' x = mem s x)"
proof -
  let ?tr = "tr (coproc (enable_paging lower upper m))" and ?n = "unat (sh_size sec)"
  have "\<exists>s'. vmemcpy ?tr ?n (sh_addr sec) (h + sh_offset sec) s = Ok () s' \<and> tables_as lower upper s s' \<and>
      (\<forall>i < ?n. mem s' (d i) = mem s (h + sh_offset sec + of_nat i)) \<and>
      (\<forall>x. (\<forall>i < ?n. x \<noteq> d i) \<longrightarrow> mem s' x = mem s x)"
  proof (rule vmemcpy_copies)
    fix t i assume t: "tables_as lower upper s t" and i: "i < ?n"
    show "?tr t (h + sh_offset sec + of_nat i) = Some (h + sh_offset sec + of_nat i)"
      "?tr t (sh_addr sec + of_nat i) = Some (d i)"
      using mmu_place [OF tr t wf(3,4)] src [OF i] dst [OF i] by simp_all
    show "\<And>v. tables_as lower upper s (t\<lparr>mem := store8 (d i) v (mem t)\<rparr>)"
      using tables_as_store [OF t] dst [OF i] by simp
  next
    show "tables_as lower upper s s" using wf by (simp add: tables_as_def)
  qed (use apart in blast)+
  then show ?thesis using sec by (simp add: load_section_def)
qed

text \<open>The tables of the small boot: RAM is mapped to itself, pages 5 and 6 hold data.\<close>

lemma boot_image:
  obtains lower upper s where "boot_tables 0x40000 lower upper s" "data_page lower upper s 6"
proof -
  have used: "card (used larger) \<le> 9"
  proof -
    have "used larger \<subseteq> {..<9}" by (auto simp: used_def split: if_splits)
    then show ?thesis using card_mono [of "{..<9}" "used larger"] by simp
  qed
  then have rm: "room 4 6 larger" by (simp add: room_def)
  have le: "unat (get_num_allocation_units 0x40000 GSection) \<le> 512" by (simp add: get_num_allocation_units_def)
  have wf: "pa_wf larger" "4 dvd npages larger" "\<not> held larger PageAllocLock" by simp_all
  obtain lower upper s where b: "build_tables 0x40000 larger = Ok (lower, upper) s" "boot_tables 0x40000 lower upper s"
    using build_tables_cases [OF wf, of "0x40000"] rm le by blast
  have "owned larger 6"
    using frame_aligned_add [of "0x8000"] by (auto simp: owned_def used_def pinned_def larger_def PageAlloc_state aligned_def frame_def first_page_def)
  then have "data_page lower upper s 6"
    using build_tables_owned [OF wf b(1)] by (simp add: data_page_def)
  then show thesis using that b(2) by blast
qed

lemma boot_place:
  assumes "boot_tables memory lower upper s"
  shows "place lower upper s va = (if frame va \<in> identity_pages memory \<and> unat va < 2 ^ 31 then Some va else None)"
  using assms phys_address_same [of va] by (simp add: boot_tables_def place_def table_for_def)

theorem load_section_copies_witness:
  "\<exists>lower upper s s'. load_section (mmu pi_env (coproc (enable_paging lower upper (pi (mem s))))) 0x5000
       \<lparr>sh_name = 0, sh_type = SHT_PROGBITS, sh_flags = SHF_ALLOC, sh_addr = 0x6000, sh_offset = 0x100, sh_size = 16,
        sh_link = 0, sh_info = 0, sh_addralign = 0, sh_entsize = 0\<rparr> s = Ok () s' \<and>
     mem s' 0x6003 = mem s 0x5103"
proof -
  obtain lower upper s where b: "boot_tables 0x40000 lower upper s" "data_page lower upper s 6" using boot_image .
  note B = b(1) [unfolded boot_tables_def]
  let ?sec = "\<lparr>sh_name = 0, sh_type = SHT_PROGBITS, sh_flags = SHF_ALLOC, sh_addr = 0x6000, sh_offset = 0x100,
    sh_size = 16, sh_link = 0, sh_info = 0, sh_addralign = 0, sh_entsize = 0\<rparr> :: Elf32_Shdr"
  have n: "unat (sh_size ?sec) = 16" by simp
  have u: "unat (0x5100 + of_nat i :: u32) = 0x5100 + i" "unat (0x6000 + of_nat i :: u32) = 0x6000 + i" if "i < 16" for i :: nat
    using that by (simp_all add: unat_add32)
  have f: "frame (0x5100 + of_nat i) = 5" "frame (0x6000 + of_nat i) = 6" if "i < 16" for i
    using u [OF that] that by (simp_all add: frame_def)
  have id: "5 \<in> identity_pages 0x40000" "6 \<in> identity_pages 0x40000"
    by (simp_all add: identity_pages_def get_num_allocation_units_def)
  have ex: "\<exists>s'. load_section (mmu pi_env (coproc (enable_paging lower upper (pi (mem s))))) 0x5000 ?sec s = Ok () s' \<and>
    tables_as lower upper s s' \<and>
    (\<forall>i < unat (sh_size ?sec). mem s' (0x6000 + of_nat i) = mem s (0x5000 + sh_offset ?sec + of_nat i)) \<and>
    (\<forall>x. (\<forall>i < unat (sh_size ?sec). x \<noteq> 0x6000 + of_nat i) \<longrightarrow> mem s' x = mem s x)"
  proof (rule load_section_copies)
    fix i assume "i < unat (sh_size ?sec)"
    then have i: "i < 16" by simp
    show "place lower upper s (0x5000 + sh_offset ?sec + of_nat i) = Some (0x5000 + sh_offset ?sec + of_nat i)"
      using u [OF i] f [OF i] id i by (simp add: boot_place [OF b(1)])
    show "place lower upper s (sh_addr ?sec + of_nat i) = Some (0x6000 + of_nat i) \<and>
        data_page lower upper s (frame (0x6000 + of_nat i))"
      using u [OF i] f [OF i] id i b(2) by (simp add: boot_place [OF b(1)])
    fix j assume "j < unat (sh_size ?sec)"
    then have j: "j < 16" by simp
    show "(0x6000 + of_nat i :: u32) \<noteq> 0x5000 + sh_offset ?sec + of_nat j"
    proof
      assume "(0x6000 + of_nat i :: u32) = 0x5000 + sh_offset ?sec + of_nat j"
      then have "(0x6000 + of_nat i :: u32) = 0x5100 + of_nat j" by simp
      then have "0x6000 + i = 0x5100 + j" using u(2) [OF i] u(1) [OF j] by metis
      then show False using i j by simp
    qed
    show "i = j" if "(0x6000 + of_nat i :: u32) = 0x6000 + of_nat j"
      using u(2) [OF i] u(2) [OF j] that by (metis add_left_cancel)
  qed (use B in \<open>simp_all add: SHF_ALLOC_def\<close>)
  then obtain s' where s': "load_section (mmu pi_env (coproc (enable_paging lower upper (pi (mem s))))) 0x5000 ?sec s = Ok () s'"
    "\<forall>i < unat (sh_size ?sec). mem s' (0x6000 + of_nat i) = mem s (0x5000 + sh_offset ?sec + of_nat i)" by blast
  have "mem s' 0x6003 = mem s 0x5103" using s'(2) [rule_format, of 3] by simp
  then show ?thesis using s'(1) by blast
qed

text \<open>
  C32: a section with a byte at an address that does not translate, such as one outside every segment, is
  not loaded, provided that its bytes that do translate land in pages of data (no page table, no table of
  counts, so that the copy cannot make the address translate): the store aborts, the vector returns to it
  with registers lost, and \<open>load_section\<close> has no meaning from there. Nothing in \<open>load_elf\<close> checks the
  sections against the segments, nor where their bytes land.
\<close>

theorem load_section_undefined:
  assumes tr: "obeys_tables tr" and wf: "pt_wf lower s" "pt_wf upper s" "nent lower = 2048" "nent upper = 4096"
    and sec: "sh_type sec = SHT_PROGBITS" "sh_flags sec AND SHF_ALLOC \<noteq> 0"
    and k: "k < unat (sh_size sec)" "place lower upper s (sh_addr sec + of_nat k) = None"
    and dst: "\<And>i p. i < unat (sh_size sec) \<Longrightarrow> place lower upper s (sh_addr sec + of_nat i) = Some p \<Longrightarrow>
      data_page lower upper s (frame p)"
  shows "load_section (tr (coproc (enable_paging lower upper m))) h sec s = Undef"
proof -
  let ?tr = "tr (coproc (enable_paging lower upper m))" and ?n = "unat (sh_size sec)"
  have "vmemcpy ?tr ?n (sh_addr sec) (h + sh_offset sec) s = Undef"
  proof (rule vmemcpy_undefined)
    show "?tr t x = place lower upper s x" if "tables_as lower upper s t" for t x
      using mmu_place [OF tr that wf(3,4)] .
    show "tables_as lower upper s (t\<lparr>mem := store8 p v (mem t)\<rparr>)"
      if "tables_as lower upper s t" "i < ?n" "place lower upper s (sh_addr sec + of_nat i) = Some p" for t i p v
      using tables_as_store [OF that(1) dst [OF that(2,3)]] .
    show "tables_as lower upper s s" using wf by (simp add: tables_as_def)
  qed (use k in blast)+
  then show ?thesis using sec by (simp add: load_section_def)
qed

theorem load_section_undefined_witness:
  "\<exists>lower upper s. load_section (mmu pi_env (coproc (enable_paging lower upper (pi (mem s))))) 0x5000
       \<lparr>sh_name = 0, sh_type = SHT_PROGBITS, sh_flags = SHF_ALLOC, sh_addr = 0x80000000, sh_offset = 0x100, sh_size = 4,
        sh_link = 0, sh_info = 0, sh_addralign = 0, sh_entsize = 0\<rparr> s = Undef"
proof -
  obtain lower upper s where b: "boot_tables 0x40000 lower upper s" using boot_image by metis
  note B = b [unfolded boot_tables_def]
  have u: "unat (0x80000000 + of_nat i :: u32) = 0x80000000 + i" if "i < 4" for i :: nat
    using that by (simp add: unat_add32)
  let ?sec = "\<lparr>sh_name = 0, sh_type = SHT_PROGBITS, sh_flags = SHF_ALLOC, sh_addr = 0x80000000, sh_offset = 0x100,
    sh_size = 4, sh_link = 0, sh_info = 0, sh_addralign = 0, sh_entsize = 0\<rparr> :: Elf32_Shdr"
  have "load_section (mmu pi_env (coproc (enable_paging lower upper (pi (mem s))))) 0x5000 ?sec s = Undef"
    by (rule load_section_undefined [where k = 0])
      (use B u in \<open>simp_all add: SHF_ALLOC_def boot_place [OF b]\<close>)
  then show ?thesis by blast
qed

end
