(* ===== verification/Tests_Steps.thy ===== *)
theory Tests_Steps
  imports Boot_Steps Table_Lifetime
begin

unbundle bit_operations_syntax

text \<open>
  The run-time tests, step by step: what a table looks like between two of them, and that each test
  finds what it looks for.
\<close>

subsection \<open>The state between two tests\<close>

text \<open>
  The pages \<open>R\<close> are reserved and all others free, the sections \<open>T\<close> have second-level tables, and there
  is room for \<open>k\<close> more.
\<close>

definition testing :: "PageTable \<Rightarrow> kstate \<Rightarrow> nat set \<Rightarrow> nat set \<Rightarrow> nat \<Rightarrow> kstate \<Rightarrow> bool" where
  "testing pt s0 R T k s \<longleftrightarrow> pt_wf pt s \<and> unlocked pt s \<and> nent pt = 4096 \<and> accounts pt s0 s \<and> room 1 (k + 2) s \<and>
     (\<forall>p < 2 ^ 20. pview pt s p = (if p \<in> R then VReserved else VFree)) \<and>
     (\<forall>p < 2 ^ 20. by_page pt s p \<longleftrightarrow> p div 256 \<in> T)"

lemma testing_emit [simp]: "testing pt s0 R T k (emit bs s) = testing pt s0 R T k s"
  by (simp add: testing_def)

lemma in_range_below: "in_range g va n \<Longrightarrow> p \<in> unit_range g va n \<Longrightarrow> p < 2 ^ 20"
  by (simp add: in_range_def unit_range_def)

lemma testing_reserves:
  assumes t: "testing pt s0 R T k s" and r: "reserves pt (g = GPage) (unit_range g va n) s s'"
    and free: "reservable pt g va n s"
    and m: "g = GPage \<Longrightarrow> card ((\<lambda>p. p div 256) ` unit_range g va n) \<le> m" "g = GPage \<Longrightarrow> m \<le> k"
  shows "testing pt s0 (R \<union> unit_range g va n)
    (if g = GPage then T \<union> (\<lambda>p. p div 256) ` unit_range g va n else T) (if g = GPage then k - m else k) s'"
proof -
  note T = t [unfolded testing_def]
  have op: "table_op pt s s'" using r by (rule reserves_op)
  have le: "(if g = GPage then k - m else k) + 2
      + (if g = GPage then card ((\<lambda>q. q div 256) ` unit_range g va n) else 0) \<le> k + 2"
    using m by (cases "g = GPage") auto
  have "room 1 ((if g = GPage then k - m else k) + 2) s'"
  proof (rule reserves_room [OF r])
    show "room 1 ((if g = GPage then k - m else k) + 2
        + (if g = GPage then card ((\<lambda>q. q div 256) ` unit_range g va n) else 0)) s"
      using T room_mono [OF _ order_refl le] by blast
  qed (use T in \<open>simp_all add: unit_range_def\<close>)
  moreover have "unlocked pt s'" "pt_wf pt s'" using op T by (simp_all add: table_op_def unlocked_def)
  moreover have "accounts pt s0 s'" using accounts_change [OF _ change_reserves [OF r]] T free by (simp add: reservable_def)
  moreover have "by_page pt s' p \<longleftrightarrow> p div 256 \<in> (if g = GPage then T \<union> (\<lambda>q. q div 256) ` unit_range g va n else T)"
    if p: "p < 2 ^ 20" for p
  proof -
    have new: "by_page pt s' p" if nw: "g = GPage" "p div 256 \<in> (\<lambda>q. q div 256) ` unit_range g va n"
    proof -
      obtain q where q: "q \<in> unit_range g va n" "p div 256 = q div 256" using nw(2) by blast
      then have "by_page pt s' q" using r nw(1) unfolding reserves_def by simp
      then show ?thesis using q(2) by (simp add: by_page_def)
    qed
    then show ?thesis
      using r T p unfolding reserves_def by (cases "g = GPage") (auto simp del: atLeastLessThan_iff)
  qed
  ultimately show ?thesis
    using r T unfolding testing_def reserves_def by simp
qed

subsection \<open>Looking at units\<close>

lemma unit_state_Ok:
  assumes "pt_wf pt s" "unlocked pt s"
    and "\<forall>p \<in> unit_pages g (frame va). state_of_view (pview pt s p) = Success x \<and> (g = GPage \<or> \<not> by_page pt s p)"
  shows "get_unit_state pt va g s = Ok (Success x) s"
  using unit_state_iff [OF assms(1,2), of va g] assms(3) by metis

lemma check_units_Ok:
  "\<forall>i \<in> set is. get_unit_state pt (base + of_nat i * 0x1000) g s = Ok (Success want) s \<Longrightarrow>
   check_units pt g want base is b s = Ok b s"
  by (induction "is" arbitrary: b) simp_all

text \<open>The units a test looks at are in the range it reserves.\<close>

lemma unit_in_range:
  assumes r: "in_range g va n" and one: "g = GPage \<or> unat n = 1" and i: "i < unat n"
  shows "unit_pages g (frame (va + of_nat i * 0x1000)) \<subseteq> unit_range g va n"
proof (cases "g = GPage")
  case True
  have "frame va + i < 2 ^ 20" using r i True by (simp add: in_range_def unit_base_simps)
  then have "frame (va + of_nat i * 0x1000) = frame va + i" by (rule frame_add_page)
  then show ?thesis using True i by (auto simp: unit_pages_def unit_range_def unit_base_simps)
next
  case False
  then have n: "unat n = 1" "i = 0" using one i by simp_all
  show ?thesis
  proof
    fix p assume "p \<in> unit_pages g (frame (va + of_nat i * 0x1000))"
    then have "p div gran_pages g = frame va div gran_pages g" using n(2) by (simp add: unit_pages_def)
    then show "p \<in> unit_range g va n"
      using div_eq_range [of "gran_pages g" p "frame va div gran_pages g"] n(1)
      by (simp add: unit_range_def unit_base_def)
  qed
qed

lemma check_range:
  assumes t: "testing pt s0 R T k s" and r: "in_range g va n" and one: "g = GPage \<or> unat n = 1"
    and want: "\<forall>p \<in> unit_range g va n. p \<in> R \<longleftrightarrow> want = UReserved" "want \<noteq> UCommitted"
    and flat: "g = GPage \<or> (\<forall>p \<in> unit_range g va n. p div 256 \<notin> T)"
    and le: "m \<le> unat n"
  shows "check_units pt g want va [0..<m] b s = Ok b s"
proof (rule check_units_Ok, rule ballI)
  fix i assume "i \<in> set [0..<m]"
  then have i: "i < unat n" using le by simp
  note sub = unit_in_range [OF r one i]
  have "state_of_view (pview pt s p) = Success want \<and> (g = GPage \<or> \<not> by_page pt s p)"
    if "p \<in> unit_pages g (frame (va + of_nat i * 0x1000))" for p
  proof -
    have p: "p \<in> unit_range g va n" "p < 2 ^ 20" using sub that in_range_below [OF r] by blast+
    then show ?thesis using t want flat by (cases want) (auto simp: testing_def)
  qed
  then show "get_unit_state pt (va + of_nat i * 0x1000) g s = Ok (Success want) s"
    using t by (intro unit_state_Ok) (auto simp: testing_def)
qed

subsection \<open>The three shapes of test\<close>

lemma reservation_test_passes:
  assumes t: "testing pt s0 R T k s" and r: "in_range g va n" and one: "g = GPage \<or> unat n = 1"
    and free: "unit_range g va n \<inter> R = {}" and flat: "g = GPage \<or> (\<forall>p \<in> unit_range g va n. p div 256 \<notin> T)"
    and m: "g = GPage \<Longrightarrow> length (section_chunks (va AND 0xfffff000) n) = m \<and> m \<le> k"
  obtains s' where "reservation_test title va n g pt b s = Ok b s'"
    "testing pt s0 (R \<union> unit_range g va n)
      (if g = GPage then T \<union> (\<lambda>p. p div 256) ` unit_range g va n else T) (if g = GPage then k - m else k) s'"
proof -
  let ?s = "emit (bytes_of title) s"
  have t': "testing pt s0 R T k ?s" using t by simp
  note tt = t' [unfolded testing_def]
  have c1: "check_units pt g UFree va [0..<unat n] b ?s = Ok b ?s"
    using check_range [OF t' r one _ _ flat order_refl, of UFree b] free by auto
  have res: "reservable pt g va n ?s"
    unfolding reservable_def using tt in_range_below [OF r] free flat by auto
  have room: "room 1 (length (section_chunks (va AND 0xfffff000) n) + 2) ?s" if "g = GPage"
    using tt m [OF that] room_mono [of 1 "k + 2" ?s 1] by simp
  obtain s1 where s1: "reserve_at pt va n g ?s = Ok (Success (unit_address g va)) s1"
      "reserves pt (g = GPage) (unit_range g va n) ?s s1"
    using reserve_at_Ok [OF _ _ r res room] tt by blast
  have card: "card ((\<lambda>p. p div 256) ` unit_range g va n) \<le> m" if g: "g = GPage"
  proof -
    have b: "aligned 12 (va AND 0xfffff000)" unfolding not_masks by (rule aligned_and_not_mask)
    have "chain (frame va) (section_chunks (va AND 0xfffff000) n) (frame va + unat n)"
      using chain_section_chunks [OF b, of n] r g by (simp add: in_range_def unit_base_simps)
    then show ?thesis using chain_card m [OF g] g by (fastforce simp: unit_range_def unit_base_simps)
  qed
  have t1: "testing pt s0 (R \<union> unit_range g va n)
      (if g = GPage then T \<union> (\<lambda>p. p div 256) ` unit_range g va n else T) (if g = GPage then k - m else k) s1"
    using testing_reserves [OF t' s1(2) res card] m by blast
  have c2: "check_units pt g UReserved va [0..<unat n] b s1 = Ok b s1"
    using check_range [OF t1 r one _ _ _ order_refl, of UReserved b] flat by auto
  show thesis
    using that t1 s1(1) c1 c2 by (simp add: reservation_test_def report_def)
qed

lemma clash_test_passes:
  assumes t: "testing pt s0 R T k s" and r: "in_range g va n"
    and clash: "p \<in> unit_range g va n" "p \<in> R \<or> g \<noteq> GPage \<and> p div 256 \<in> T"
  obtains s' where "clash_test title va n g pt b s = Ok b s'" "testing pt s0 R T k s'"
proof -
  let ?s = "emit (bytes_of title) s"
  have t': "testing pt s0 R T k ?s" using t by simp
  note tt = t' [unfolded testing_def]
  have "\<not> (pview pt ?s p = VFree \<and> (g = GPage \<or> \<not> by_page pt ?s p))"
    using tt clash(2) in_range_below [OF r clash(1)] by (auto simp del: emit_view)
  then have "\<not> reservable pt g va n ?s"
    unfolding reservable_def using clash(1) by blast
  then have "reserve_at pt va n g ?s = Ok Failure ?s"
    using reserve_at_cases [of pt ?s, OF _ _ r] tt by auto
  then show thesis using that t by (simp add: clash_test_def report_def)
qed

lemma eligible_sections:
  assumes "eligible GPage a n" "0 < unat n"
  shows "(\<lambda>p. p div 256) ` unit_range GPage a n = {frame a div 256}"
proof -
  have c: "chunk_ok a n" using assms by (simp add: eligible_def chunk_ok_def)
  have "unit_range GPage a n = chunk_pages a n" by (simp add: unit_range_def unit_base_simps chunk_pages_def)
  moreover have "frame a \<in> chunk_pages a n" using assms(2) by (simp add: chunk_pages_def)
  then have "frame a div 256 \<in> (\<lambda>p. p div 256) ` chunk_pages a n" by (rule imageI)
  moreover have "(\<lambda>p. p div 256) ` chunk_pages a n \<subseteq> {frame a div 256}" using in_chunk [OF c] by auto
  ultimately show ?thesis by auto
qed

lemma anywhere_test_passes:
  assumes t: "testing pt s0 R T k s" and ask: "askable g n" and one: "g = GPage \<or> unat n = 1" and u: "units \<le> unat n"
    and el: "eligible g va n" and free: "\<forall>p \<in> unit_range g va n. p \<notin> R \<and> (g = GPage \<or> p div 256 \<notin> T)"
    and k: "g = GPage \<Longrightarrow> 1 \<le> k"
  obtains a s' where "anywhere_test title n units g pt b s = Ok b s'" "eligible g a n" "unit_range g a n \<inter> R = {}"
    "testing pt s0 (R \<union> unit_range g a n)
      (if g = GPage then insert (frame a div 256) T else T) (if g = GPage then k - 1 else k) s'"
proof -
  let ?s = "emit (bytes_of title) s"
  have t': "testing pt s0 R T k ?s" using t by simp
  note tt = t' [unfolded testing_def]
  have wf: "pt_wf pt ?s" "unlocked pt ?s" using tt by blast+
  have n: "0 < unat n" "g = GPage \<Longrightarrow> unat n \<le> 256" using ask by (simp_all add: askable_def)
  have "in_range g va n" using el by (simp add: eligible_def)
  then have "reservable pt g va n ?s"
    unfolding reservable_def using tt in_range_below free by (auto simp del: emit_view)
  moreover have "room 1 2 ?s" using tt room_mono [of 1 "k + 2" ?s 1 2] by simp
  ultimately obtain a s1 where a: "reserve pt n g ?s = Ok (Success a) s1" "found pt g n ?s a s1"
    using reserve_cases [OF wf n] el by metis
  have ea: "eligible g a n" "in_range g a n" using a(2) by (simp_all add: found_def eligible_def)
  have rv: "reserves pt (g = GPage) (unit_range g a n) ?s s1" using a(2) by (simp add: found_def)
  have "\<forall>p \<in> R \<inter> {..<2 ^ 20}. pview pt ?s p = VReserved" using tt by simp
  then have "R \<inter> {..<2 ^ 20} \<inter> unit_range g a n = {}"
    using wf ask by (intro anywhere.not_handed_out [OF _ a(1)]) (simp_all add: ready_def)
  then have disj: "unit_range g a n \<inter> R = {}" using in_range_below [OF ea(2)] by auto
  have im: "g = GPage \<Longrightarrow> (\<lambda>p. p div 256) ` unit_range g a n = {frame a div 256}"
    using eligible_sections [of a n] ea(1) n(1) by simp
  have "reservable pt g a n ?s" using a(2) by (simp add: found_def)
  then have t1: "testing pt s0 (R \<union> unit_range g a n)
      (if g = GPage then insert (frame a div 256) T else T) (if g = GPage then k - 1 else k) s1"
    using testing_reserves [OF t' rv, of 1] im k by (cases "g = GPage") auto
  have "by_page pt s1 p = (g = GPage)" if "p \<in> unit_range g a n" for p
    using rv that unfolding reserves_def by blast
  then have flat: "g = GPage \<or> (\<forall>p \<in> unit_range g a n. p div 256 \<notin> (if g = GPage then insert (frame a div 256) T else T))"
    using t1 in_range_below [OF ea(2)] unfolding testing_def by auto
  have "check_units pt g UReserved a [0..<units] b s1 = Ok b s1"
    using check_range [OF t1 ea(2) one _ _ flat u, of UReserved b] by auto
  then show thesis using that [of "emit (line_of (if b then ''passed'' else ''failed'')) s1" a] a(1) ea(1) disj t1
    by (simp add: anywhere_test_def report_def)
qed

end
