(* ===== verification/Tests_Correct.thy ===== *)
theory Tests_Correct
  imports Tests_Steps
begin

unbundle bit_operations_syntax

text \<open>
  The run-time tests pass: on any well-formed allocator with enough room the tests of
  \<^verbatim>\<open>src/src/pagetable_tests.cc\<close> all pass, and leave every reference count as it was.  Beside it, the
  properties of reservation anywhere and of the destructor that this rests on.
\<close>

subsection \<open>The tests at given addresses\<close>

lemma in_turn_append: "in_turn (ts @ us) b s = bind_ok (in_turn ts b s) (in_turn us)"
proof (induction ts arbitrary: b s)
  case (Cons t ts)
  then show ?case by (cases "t b s") simp_all
qed simp

lemmas range_simps = unit_range_def unit_base_def frame_def in_range_def

lemma test_ranges:
  "unit_range GPage 0x10000000 1 = {0x10000..<0x10001}" "unit_range GSection 0x20000000 1 = {0x20000..<0x20100}"
  "unit_range GSupersection 0x30000000 1 = {0x30000..<0x31000}" "unit_range GPage 0x10001000 1 = {0x10001..<0x10002}"
  "unit_range GPage 0x11000000 5 = {0x11000..<0x11005}" "unit_range GSection 0x10000000 1 = {0x10000..<0x10100}"
  "unit_range GPage 0x10007000 5 = {0x10007..<0x1000c}" "unit_range GPage 0x12000000 300 = {0x12000..<0x1212c}"
  "unit_range GPage 0x10010000 300 = {0x10010..<0x1013c}" "unit_range GPage 0x11fff000 4 = {0x11fff..<0x12003}"
  by (simp_all add: range_simps)

lemma test_in_range:
  "in_range GPage 0x10000000 1" "in_range GSection 0x20000000 1" "in_range GSupersection 0x30000000 1"
  "in_range GPage 0x10001000 1" "in_range GPage 0x11000000 5" "in_range GSection 0x10000000 1"
  "in_range GPage 0x10007000 5" "in_range GPage 0x12000000 300" "in_range GPage 0x10010000 300"
  "in_range GPage 0x11fff000 4"
  by (simp_all add: range_simps)

lemma test_chunks:
  "length (section_chunks (0x10000000 AND 0xfffff000) 1) = 1" "length (section_chunks (0x10001000 AND 0xfffff000) 1) = 1"
  "length (section_chunks (0x11000000 AND 0xfffff000) 5) = 1" "length (section_chunks (0x10007000 AND 0xfffff000) 5) = 1"
  "length (section_chunks (0x12000000 AND 0xfffff000) 300) = 2" "length (section_chunks (0x10010000 AND 0xfffff000) 300) = 2"
proof -
  have e: "section_chunks x 0 = []" for x by (subst section_chunks.simps) simp
  have p: "pages_in_rest_of_section 0x12000000 = 256" "pages_in_rest_of_section 0x10010000 = 240"
    "next_section 0x12000000 = 0x12100000" "next_section 0x10010000 = 0x10100000"
    by (simp_all add: pages_in_rest_of_section_def next_section_def)
  have t: "section_chunks 0x12100000 44 = [(0x12100000, 44)]" "section_chunks 0x10100000 60 = [(0x10100000, 60)]"
    by (intro one_chunk; simp add: frame_def aligned_def)+
  show "length (section_chunks (0x12000000 AND 0xfffff000) 300) = 2" "length (section_chunks (0x10010000 AND 0xfffff000) 300) = 2"
    using t by (subst section_chunks.simps; simp add: p min_def Let_def)+
qed (simp_all add: one_chunk frame_def aligned_def)

text \<open>All page reservations of the tests are between 0x10000000 and 0x20000000.\<close>

lemma page_step:
  assumes t: "testing pt s0 R T (k + m) s" and r: "in_range GPage va n" and P: "unit_range GPage va n = P"
    and m: "length (section_chunks (va AND 0xfffff000) n) = m"
    and T: "T \<subseteq> {0x100..<0x200}" and P2: "P \<inter> R = {}" "P \<subseteq> {0x10000..<0x20000}"
  obtains s' T' where "reservation_test title va n GPage pt True s = Ok True s'"
    "testing pt s0 (R \<union> P) T' k s'" "T' \<subseteq> {0x100..<0x200}"
proof -
  have "(\<lambda>p. p div 256) ` P \<subseteq> {0x100..<0x200}" using P2(2) by (auto simp: div_less_iff_less_mult less_eq_div_iff_mult_less_eq)
  then have sub: "T \<union> (\<lambda>p. p div 256) ` P \<subseteq> {0x100..<0x200}" using T by blast
  obtain s' where "reservation_test title va n GPage pt True s = Ok True s'"
    "testing pt s0 (R \<union> P) (T \<union> (\<lambda>p. p div 256) ` P) k s'"
    by (rule reservation_test_passes [OF t r, of m title True]) (use P P2 m in auto)
  then show thesis using that sub by blast
qed

lemma section_step:
  assumes t: "testing pt s0 R T k s" and r: "in_range g va 1" and g: "g \<noteq> GPage" and P: "unit_range g va 1 = P"
    and T: "T \<subseteq> {0x100..<0x200}" and P2: "P \<inter> R = {}" "P \<subseteq> {0x20000..<0x100000}"
  obtains s' where "reservation_test title va 1 g pt True s = Ok True s'" "testing pt s0 (R \<union> P) T k s'"
proof -
  have nt: "p div 256 \<notin> T" if "p \<in> P" for p
  proof
    assume "p div 256 \<in> T"
    then have "p div 256 < 0x200" using T by auto
    then show False using that P2(2) by (auto simp: div_less_iff_less_mult)
  qed
  have one: "g = GPage \<or> unat (1 :: u32) = 1" by simp
  have free: "unit_range g va 1 \<inter> R = {}" using P P2(1) by simp
  have flat: "g = GPage \<or> (\<forall>p \<in> unit_range g va 1. p div 256 \<notin> T)" using nt P by blast
  obtain s' where "reservation_test title va 1 g pt True s = Ok True s'" "testing pt s0 (R \<union> P) T k s'"
    by (rule reservation_test_passes [OF t r one free flat, of k title True]) (simp_all add: P g)
  then show thesis by (rule that)
qed

lemma clash_step:
  assumes t: "testing pt s0 R T k s" and r: "in_range g va n" and P: "unit_range g va n = P" and R: "p \<in> P" "p \<in> R"
  obtains s' where "clash_test title va n g pt True s = Ok True s'" "testing pt s0 R T k s'"
  using clash_test_passes [OF t r, of p title True] P R that by blast

lemma fixed_tests:
  assumes t: "testing pt s0 {} {} (k + 8) s"
  obtains s' R T where "in_turn [test_single_page pt, test_single_section pt, test_single_supersection pt,
      test_page_in_table pt, test_multi_page pt, test_clash pt, test_multi_page_in_table pt,
      test_overflowing pt, test_overflowing_in_table pt, test_overlap pt] True s = Ok True s'"
    "testing pt s0 R T k s'" "R \<subseteq> {0x10000..}" "T \<subseteq> {0x100..}"
proof -
  have k8: "k + 8 = k + 2 + 2 + 1 + 1 + 1 + 1" by simp
  have t0: "testing pt s0 {} {} (k + 2 + 2 + 1 + 1 + 1 + 1) s" "{} \<subseteq> {0x100..<0x200 :: nat}" using t by (simp_all only: k8 empty_subsetI)
  obtain s1 T1 where s1: "test_single_page pt True s = Ok True s1"
      "testing pt s0 ({} \<union> {0x10000..<0x10001}) T1 (k + 2 + 2 + 1 + 1 + 1) s1" "T1 \<subseteq> {0x100..<0x200}"
    unfolding test_single_page_def
    by (rule page_step [OF t0(1) test_in_range(1) test_ranges(1) test_chunks(1) t0(2)]) auto
  obtain s2 where s2: "test_single_section pt True s1 = Ok True s2"
      "testing pt s0 ({} \<union> {0x10000..<0x10001} \<union> {0x20000..<0x20100}) T1 (k + 2 + 2 + 1 + 1 + 1) s2"
    unfolding test_single_section_def
    by (rule section_step [OF s1(2) test_in_range(2) _ test_ranges(2) s1(3)]) auto
  obtain s3 where s3: "test_single_supersection pt True s2 = Ok True s3"
      "testing pt s0 ({} \<union> {0x10000..<0x10001} \<union> {0x20000..<0x20100} \<union> {0x30000..<0x31000}) T1 (k + 2 + 2 + 1 + 1 + 1) s3"
    unfolding test_single_supersection_def
    by (rule section_step [OF s2(2) test_in_range(3) _ test_ranges(3) s1(3)]) auto
  obtain s4 T4 where s4: "test_page_in_table pt True s3 = Ok True s4"
      "testing pt s0 ({} \<union> {0x10000..<0x10001} \<union> {0x20000..<0x20100} \<union> {0x30000..<0x31000} \<union> {0x10001..<0x10002}) T4 (k + 2 + 2 + 1 + 1) s4"
      "T4 \<subseteq> {0x100..<0x200}"
    unfolding test_page_in_table_def
    by (rule page_step [OF s3(2) test_in_range(4) test_ranges(4) test_chunks(2) s1(3)]) auto
  obtain s5 T5 where s5: "test_multi_page pt True s4 = Ok True s5"
      "testing pt s0 ({} \<union> {0x10000..<0x10001} \<union> {0x20000..<0x20100} \<union> {0x30000..<0x31000} \<union> {0x10001..<0x10002}
        \<union> {0x11000..<0x11005}) T5 (k + 2 + 2 + 1) s5" "T5 \<subseteq> {0x100..<0x200}"
    unfolding test_multi_page_def
    by (rule page_step [OF s4(2) test_in_range(5) test_ranges(5) test_chunks(3) s4(3)]) auto
  obtain s6 where s6: "test_clash pt True s5 = Ok True s6"
      "testing pt s0 ({} \<union> {0x10000..<0x10001} \<union> {0x20000..<0x20100} \<union> {0x30000..<0x31000} \<union> {0x10001..<0x10002}
        \<union> {0x11000..<0x11005}) T5 (k + 2 + 2 + 1) s6"
    unfolding test_clash_def by (rule clash_step [OF s5(2) test_in_range(6) test_ranges(6), of "0x10000"]) auto
  obtain s7 T7 where s7: "test_multi_page_in_table pt True s6 = Ok True s7"
      "testing pt s0 ({} \<union> {0x10000..<0x10001} \<union> {0x20000..<0x20100} \<union> {0x30000..<0x31000} \<union> {0x10001..<0x10002}
        \<union> {0x11000..<0x11005} \<union> {0x10007..<0x1000c}) T7 (k + 2 + 2) s7" "T7 \<subseteq> {0x100..<0x200}"
    unfolding test_multi_page_in_table_def
    by (rule page_step [OF s6(2) test_in_range(7) test_ranges(7) test_chunks(4) s5(3)]) auto
  obtain s8 T8 where s8: "test_overflowing pt True s7 = Ok True s8"
      "testing pt s0 ({} \<union> {0x10000..<0x10001} \<union> {0x20000..<0x20100} \<union> {0x30000..<0x31000} \<union> {0x10001..<0x10002}
        \<union> {0x11000..<0x11005} \<union> {0x10007..<0x1000c} \<union> {0x12000..<0x1212c}) T8 (k + 2) s8" "T8 \<subseteq> {0x100..<0x200}"
    unfolding test_overflowing_def
    by (rule page_step [OF s7(2) test_in_range(8) test_ranges(8) test_chunks(5) s7(3)]) auto
  obtain s9 T9 where s9: "test_overflowing_in_table pt True s8 = Ok True s9"
      "testing pt s0 ({} \<union> {0x10000..<0x10001} \<union> {0x20000..<0x20100} \<union> {0x30000..<0x31000} \<union> {0x10001..<0x10002}
        \<union> {0x11000..<0x11005} \<union> {0x10007..<0x1000c} \<union> {0x12000..<0x1212c} \<union> {0x10010..<0x1013c}) T9 k s9"
      "T9 \<subseteq> {0x100..<0x200}"
    unfolding test_overflowing_in_table_def
    by (rule page_step [OF s8(2) test_in_range(9) test_ranges(9) test_chunks(6) s8(3)]) auto
  obtain s10 where s10: "test_overlap pt True s9 = Ok True s10"
      "testing pt s0 ({} \<union> {0x10000..<0x10001} \<union> {0x20000..<0x20100} \<union> {0x30000..<0x31000} \<union> {0x10001..<0x10002}
        \<union> {0x11000..<0x11005} \<union> {0x10007..<0x1000c} \<union> {0x12000..<0x1212c} \<union> {0x10010..<0x1013c}) T9 k s10"
    unfolding test_overlap_def by (rule clash_step [OF s9(2) test_in_range(10) test_ranges(10), of "0x12000"]) auto
  show thesis
  proof (rule that [OF _ s10(2)])
    show "T9 \<subseteq> {0x100..}" using s9(3) by auto
  next
    show "{} \<union> {0x10000..<0x10001} \<union> {0x20000..<0x20100} \<union> {0x30000..<0x31000} \<union> {0x10001..<0x10002} \<union> {0x11000..<0x11005}
        \<union> {0x10007..<0x1000c} \<union> {0x12000..<0x1212c} \<union> {0x10010..<0x1013c} \<subseteq> {0x10000 :: nat..}" by auto
  qed (simp add: s1 s2 s3 s4 s5 s6 s7 s8 s9 s10)
qed

subsection \<open>The tests anywhere\<close>

text \<open>
  All that is known of a reservation anywhere is that it lies within one supersection; \<open>U\<close> are those
  found so far, and any other below 0x10000000 is still free.
\<close>

definition spread :: "nat set \<Rightarrow> nat set \<Rightarrow> nat set \<Rightarrow> bool" where
  "spread U R T \<longleftrightarrow> (\<forall>p \<in> R. 0x10000 \<le> p \<or> p div 4096 \<in> U) \<and> (\<forall>i \<in> T. 0x100 \<le> i \<or> i div 16 \<in> U)"

lemma another: "finite U \<Longrightarrow> card U < 16 \<Longrightarrow> \<exists>e < 16. e \<notin> (U :: nat set)"
proof (rule ccontr)
  assume f: "finite U" "card U < 16" and "\<not> (\<exists>e < 16. e \<notin> U)"
  then have "{..<16} \<subseteq> U" by auto
  then have "card {..<16 :: nat} \<le> card U" by (rule card_mono [OF f(1)])
  then show False using f(2) by simp
qed

lemma in_block: "p \<in> {4096 * e..<4096 * e + m} \<Longrightarrow> m \<le> 4096 \<Longrightarrow> p div 4096 = e" for p :: nat
  by (auto intro!: div_nat_eqI)

lemma eligible_block:
  assumes el: "eligible g a n" and n: "unat n = 1 \<or> g = GPage" and p: "p \<in> unit_range g a n"
  shows "p div 4096 = frame a div 4096"
proof -
  have "p div gran_pages g = frame a div gran_pages g \<or> p div 256 = frame a div 256"
  proof (cases "g = GPage")
    case True
    then have "frame a \<le> p" "p < frame a + unat n" "frame a mod 256 + unat n \<le> 256"
      using el p by (simp_all add: eligible_def unit_range_def unit_base_simps)
    then have "frame a div 256 * 256 \<le> p" "p < frame a div 256 * 256 + 256"
      using div_mult_mod_eq [of "frame a" 256] by linarith+
    then show ?thesis by (simp add: div_nat_eqI mult.commute)
  next
    case False
    then have "unat n = 1" using n by blast
    then show ?thesis
      using p div_eq_range [of "gran_pages g" p "frame a div gran_pages g"] by (simp add: unit_range_def unit_base_def)
  qed
  moreover have "p div 4096 = p div 256 div 16" "frame a div 4096 = frame a div 256 div 16"
    by (simp_all add: div_mult2_eq [symmetric])
  ultimately show ?thesis by (cases g) auto
qed

lemma anywhere_step:
  assumes t: "testing pt s0 R T k s" and ask: "askable g n" and one: "unat n = 1 \<or> g = GPage" and u: "units \<le> unat n"
    and U: "spread U R T" "finite U" "card U < 16" and k: "g = GPage \<Longrightarrow> 1 \<le> k"
  obtains s' R' T' u where "anywhere_test title n units g pt True s = Ok True s'"
    "testing pt s0 R' T' (if g = GPage then k - 1 else k) s'" "spread (insert u U) R' T'"
proof -
  obtain e where e: "e < 16" "e \<notin> U" using another [OF U(2,3)] by blast
  let ?va = "of_nat e * SUPERSECTION_SIZE"
  have f: "frame ?va = 4096 * e" using frame_add_page [of 0 "4096 * e"] e(1) by (simp add: frame_def mult.commute mult.assoc)
  have base: "unit_base g ?va = 4096 * e" using gran_pages_dvd [of g] by (simp add: unit_base_def f)
  have size: "unat n * gran_pages g \<le> 4096"
    using one ask by (cases g) (auto simp: askable_def)
  have el: "eligible g ?va n"
    using size e(1) ask by (auto simp: eligible_def in_range_def base f askable_def)
  have free: "\<forall>p \<in> unit_range g ?va n. p \<notin> R \<and> (g = GPage \<or> p div 256 \<notin> T)"
  proof
    fix p assume "p \<in> unit_range g ?va n"
    then have p: "p div 4096 = e" using in_block [OF _ size] by (simp add: unit_range_def base)
    then have "p < 0x10000" using e(1) by (simp add: div_less_iff_less_mult flip: p)
    moreover have "p div 256 div 16 = e" using p by (simp add: div_mult2_eq [symmetric])
    moreover have "p div 256 < 0x100" using calculation(1) by (simp add: div_less_iff_less_mult)
    ultimately show "p \<notin> R \<and> (g = GPage \<or> p div 256 \<notin> T)"
      using U(1) e(2) p unfolding spread_def by (metis not_less)
  qed
  obtain a s' where a: "anywhere_test title n units g pt True s = Ok True s'" "eligible g a n"
    "testing pt s0 (R \<union> unit_range g a n) (if g = GPage then insert (frame a div 256) T else T)
      (if g = GPage then k - 1 else k) s'"
    using anywhere_test_passes [OF t ask _ u el free k, of title True] one by blast
  have "p div 4096 = frame a div 4096" if "p \<in> unit_range g a n" for p
    using eligible_block [OF a(2) one that] .
  moreover have "frame a div 256 div 16 = frame a div 4096" by (simp add: div_mult2_eq [symmetric])
  ultimately have "spread (insert (frame a div 4096) U) (R \<union> unit_range g a n) (if g = GPage then insert (frame a div 256) T else T)"
    using U(1) by (auto simp: spread_def simp del: atLeastLessThan_iff)
  then show thesis using that a(1,3) by blast
qed

lemma anywhere_tests:
  assumes t: "testing pt s0 R T 2 s" and R: "R \<subseteq> {0x10000..}" "T \<subseteq> {0x100..}"
  obtains s' R' T' where "in_turn [test_any_page pt, test_any_section pt, test_any_supersection pt, test_any_pages pt] True s
      = Ok True s'" "testing pt s0 R' T' 0 s'"
proof -
  have ask: "askable GPage 1" "askable GSection 1" "askable GSupersection 1" "askable GPage 64" by (simp_all add: askable_def)
  have s0: "spread {} R T" using R by (auto simp: spread_def)
  obtain s1 R1 T1 u1 where s1: "test_any_page pt True s = Ok True s1" "testing pt s0 R1 T1 1 s1" "spread {u1} R1 T1"
    unfolding test_any_page_def by (rule anywhere_step [OF t ask(1) _ _ s0, of 1]) auto
  obtain s2 R2 T2 u2 where s2: "test_any_section pt True s1 = Ok True s2" "testing pt s0 R2 T2 1 s2" "spread {u2, u1} R2 T2"
    unfolding test_any_section_def by (rule anywhere_step [OF s1(2) ask(2) _ _ s1(3), of 1]) auto
  obtain s3 R3 T3 u3 where s3: "test_any_supersection pt True s2 = Ok True s3" "testing pt s0 R3 T3 1 s3"
      "spread {u3, u2, u1} R3 T3"
    unfolding test_any_supersection_def
    by (rule anywhere_step [OF s2(2) ask(3) _ _ s2(3), of 1]) (auto simp: card_insert_if)
  obtain s4 R4 T4 where s4: "test_any_pages pt True s3 = Ok True s4" "testing pt s0 R4 T4 0 s4"
    unfolding test_any_pages_def
    by (rule anywhere_step [OF s3(2) ask(4) _ _ s3(3), of 64]) (auto simp: card_insert_if)
  show thesis by (rule that [OF _ s4(2)]) (simp add: s1 s2 s3 s4)
qed

subsection \<open>All of them\<close>

lemma construct_testing:
  assumes wf: "pa_wf s" and d: "4 dvd npages s" and l: "\<not> held s PageAllocLock" and room: "room 4 16 s"
  obtains pt s' where "construct True True s = Ok pt s'" "testing pt s {} {} 10 s'"
proof -
  have r2: "room 4 2 s" using room by (rule room_mono) simp_all
  obtain pt s' where c: "construct True True s = Ok pt s'" "empty_table pt s'" "nent pt = 4096" "room 4 12 s'"
    by (rule construct_cases [OF wf d l, of True True]) (use room r2 in auto)
  have "accounts pt s s'" by (rule accounts_construct [OF wf l d c(1)])
  moreover have "room 1 (10 + 2) s'" using c(4) by (rule room_mono) simp_all
  ultimately show thesis
    using that [OF c(1)] c(2,3) by (auto simp: testing_def empty_table_def div_less_iff_less_mult)
qed

lemma print_Ok: "unlocked pt s \<Longrightarrow> \<exists>bs. print_table_info pt s = Ok () (emit bs s)"
  by (rule exI [of _ "section_lines pt (locked pt s) 0 no_aggregation"])
    (simp add: print_table_info_def with_lock_def unlocked_def locked_def emit_def fun_upd_idem)

lemma reservation_tests_pass:
  assumes t: "testing pt s0 {} {} 10 s"
  obtains s' R T where "reservation_tests pt True s = Ok True s'" "testing pt s0 R T 0 s'"
proof -
  have t10: "testing pt s0 {} {} (2 + 8) s" using t by simp
  obtain s1 R T where s1: "in_turn [test_single_page pt, test_single_section pt, test_single_supersection pt,
      test_page_in_table pt, test_multi_page pt, test_clash pt, test_multi_page_in_table pt,
      test_overflowing pt, test_overflowing_in_table pt, test_overlap pt] True s = Ok True s1"
    "testing pt s0 R T 2 s1" "R \<subseteq> {0x10000..}" "T \<subseteq> {0x100..}"
    by (rule fixed_tests [OF t10])
  obtain s2 R2 T2 where s2: "in_turn [test_any_page pt, test_any_section pt, test_any_supersection pt, test_any_pages pt] True s1
      = Ok True s2" "testing pt s0 R2 T2 0 s2"
    by (rule anywhere_tests [OF s1(2-4)])
  have "reservation_tests pt True s = Ok True s2"
    using in_turn_append [of "[test_single_page pt, test_single_section pt, test_single_supersection pt,
      test_page_in_table pt, test_multi_page pt, test_clash pt, test_multi_page_in_table pt,
      test_overflowing pt, test_overflowing_in_table pt, test_overlap pt]"
      "[test_any_page pt, test_any_section pt, test_any_supersection pt, test_any_pages pt]" True s] s1(1) s2(1)
    unfolding reservation_tests_def by (simp only: append.simps bind_ok.simps)
  then show thesis using that s2(2) by blast
qed

text \<open>The same counts, the same memory in use.\<close>

lemma leak_check_passes:
  assumes wf: "pa_wf s" "pa_wf t" and l: "\<not> held s PageAllocLock" "\<not> held t PageAllocLock"
    and same: "npages t = npages s" "\<And>f. f < npages s \<Longrightarrow> rc t f = rc s f" and st: "get_mem_stats s = Ok stats s"
  shows "leak_check stats b t = Ok b t"
proof -
  obtain stats' where st': "get_mem_stats t = Ok stats' t" "unat (usedmem stats') = card {p. p < npages t \<and> rc t p \<noteq> 0} * 4096"
    using get_mem_stats_counts [OF wf(2) l(2)] by blast
  have "unat (usedmem stats) = card {p. p < npages s \<and> rc s p \<noteq> 0} * 4096"
    using get_mem_stats_counts [OF wf(1) l(1)] st by auto
  moreover have "{p. p < npages t \<and> rc t p \<noteq> 0} = {p. p < npages s \<and> rc s p \<noteq> 0}" using same by auto
  ultimately have "usedmem stats = usedmem stats'" using st'(2) by (simp add: word_unat_eq_iff)
  then show ?thesis by (simp add: leak_check_def st'(1))
qed

lemma tests_keep_counts:
  assumes wf: "pa_wf s" and d: "4 dvd npages s" and l: "\<not> held s PageAllocLock" and room: "room 4 16 s"
  shows "\<exists>t. test_pagetables s = Ok True t \<and> pa_wf t \<and> npages t = npages s \<and> rtab t = rtab s \<and> (\<forall>f < npages s. rc t f = rc s f)"
proof -
  obtain stats where st: "get_mem_stats s = Ok stats s" using get_mem_stats_counts [OF wf l] by blast
  let ?s = "emit (line_of ''begin constructor'') s"
  obtain pt s1 where s1: "construct True True ?s = Ok pt s1" "testing pt ?s {} {} 10 s1"
    using construct_testing [of ?s] wf d l room by auto
  have "testing pt ?s {} {} 10 (emit (line_of ''end constructor'') s1)" using s1(2) by simp
  then obtain s2 R T where s2: "reservation_tests pt True (emit (line_of ''end constructor'') s1) = Ok True s2"
    "testing pt ?s R T 0 s2" by (rule reservation_tests_pass)
  have t2: "testing pt ?s R T 0 (emit putline_bytes s2)" using s2(2) by simp
  then have "unlocked pt (emit putline_bytes s2)" by (simp add: testing_def)
  then obtain bs where s3: "print_table_info pt (emit putline_bytes s2) = Ok () (emit bs (emit putline_bytes s2))"
    using print_Ok by blast
  let ?s3 = "emit bs (emit putline_bytes s2)"
  have t3: "testing pt ?s R T 0 ?s3" using t2 by simp
  then have "accounts pt ?s ?s3" by (simp add: testing_def)
  then obtain t where t: "destroy pt ?s3 = Ok () t" "pa_wf t" "npages t = npages ?s"
    "\<And>f. f < npages ?s \<Longrightarrow> rc t f = rc ?s f" "held t = held ?s3" "rtab t = rtab ?s"
    by (rule accounts_destroy) (rule that)
  have "\<not> held t PageAllocLock" using t(5) t3 by (simp add: testing_def unlocked_def)
  then have "leak_check stats True t = Ok True t"
    using t(3,4) by (intro leak_check_passes [OF wf t(2) l _ _ _ st]) simp_all
  then have "test_pagetables s = Ok True t"
    by (simp add: test_pagetables_def test_reservations_def st s1(1) s2(1) s3 t(1))
  then show ?thesis using t by auto
qed

text \<open>
  C21: the run-time tests of page tables pass: with room for 16 blocks of four pages in the
  allocator, \<open>test_pagetables\<close> reserves and checks all its ranges, prints the table, destroys it,
  finds no leak and returns true; every reference count is then as before.
\<close>

theorem test_pagetables_passes:
  assumes "pa_wf s" "4 dvd npages s" "\<not> held s PageAllocLock" "room 4 16 s"
  shows "\<exists>t. test_pagetables s = Ok True t \<and> pa_wf t \<and> npages t = npages s \<and> (\<forall>f < npages s. rc t f = rc s f)"
  using tests_keep_counts [OF assms] by blast

theorem test_pagetables_passes_witness:
  "\<exists>t. test_pagetables (PageAlloc 0x100000 0x9000 power_on) = Ok True t \<and> rc t 12 = 0"
proof -
  let ?s = "PageAlloc 0x100000 0x9000 power_on"
  note st = PageAlloc_state [where ram = "0x100000" and loc = "0x9000" and s = power_on]
  have fp: "first_page 0x100000 0x9000 = 10" by (simp add: first_page_def frame_def)
  have wf: "pa_wf ?s" by (rule PageAlloc_pa_wf) (simp_all add: aligned_def power_on_hints)
  have n: "npages ?s = 256" using st(2) by simp
  have "used ?s \<subseteq> {..<10}" using st(5) fp by (auto simp: used_def split: if_splits)
  then have "card (used ?s) \<le> 10" using card_mono [of "{..<10}" "used ?s"] by simp
  then have room: "room 4 16 ?s" by (simp add: room_def n)
  obtain t where t: "test_pagetables ?s = Ok True t" "\<forall>f < npages ?s. rc t f = rc ?s f"
    using test_pagetables_passes [OF wf _ st(3) room] n by auto
  have "rc t 12 = rc ?s 12" using t(2) n by simp
  also have "rc ?s 12 = 0" using st(5) [of 12] n fp by simp
  finally show ?thesis using t(1) by blast
qed

end
