(* ===== verification/Loader_Tests.thy ===== *)
theory Loader_Tests
  imports Tests_Correct Boot_Correct
begin

unbundle bit_operations_syntax

text \<open>
  The build of the loader with \<open>RUN_TESTS\<close>, from its entry to the line that says that all tests
  passed.
\<close>

text \<open>The loop at the end sends back what it receives.\<close>

lemma echo_rounds:
  assumes dev: "responsive dev (bit_of 4)"
  shows "\<exists>tr bs. echo dev n m = Ok () (say bs (m\<lparr>uart := tr\<rparr>)) \<and> length bs = n \<and> received tr = received (uart m) @ bs"
proof (induction n arbitrary: m)
  case 0
  show ?case by (rule exI [of _ "uart m"]) (simp add: say_def emit_def)
next
  case (Suc n)
  obtain b t where b: "uart_getc dev (uart m) = Some (b, t)" by (rule uart_getc_returns [OF dev])
  let ?m = "say [b] (m\<lparr>uart := t\<rparr>)"
  obtain tr bs where e: "echo dev n ?m = Ok () (say bs (?m\<lparr>uart := tr\<rparr>))" "length bs = n"
    "received tr = received (uart ?m) @ bs" using Suc.IH [of ?m] by blast
  have "say bs (?m\<lparr>uart := tr\<rparr>) = say (b # bs) (m\<lparr>uart := tr\<rparr>)" by (simp add: say_def emit_def)
  moreover have "received tr = received (uart m) @ b # bs" using e(3) received_uart_getc [OF b] by (simp add: say_def)
  ultimately show ?case using b e(1,2) by (intro exI [of _ tr] exI [of _ "b # bs"]) simp
qed

lemma find_memory_uart: "find_memory r0 r1 a cpsr m = Ok mr m1 \<Longrightarrow> uart m1 = uart_init (uart m)"
  by (auto simp: find_memory_def bind_ok_eq_Ok on_sys_def say_def Let_def split: outcome.splits if_splits)

text \<open>
  C23: the test build reports success.  If the tags describe RAM from 0 with room for twenty blocks of
  four pages above the table of counts, \<open>loader_main\<close> built with \<open>RUN_TESTS\<close> allocates four distinct
  stack pages, runs all tests of page tables and prints that they passed; the stacks are still
  allocated then.  From there on, if the receiver always gets another byte, it sends back every byte
  received, in order: after any number of rounds exactly those bytes follow on the console.
\<close>

theorem test_build_passes:
  assumes b: "bootable env a memory m"
    and enough: "(first_page memory (page_alloc_table_start env) + 20) * 4 \<le> unat memory div 4096"
    and dev: "responsive dev (bit_of 4)"
  shows "\<exists>m' log bs. loader_main_tests env dev rounds r0 r1 a cpsr m = Ok () m' \<and>
    console (sys m') = log @ line_of ''All tests passed'' @ bs \<and> length bs = rounds \<and>
    received (uart m') = received (uart m) @ bs \<and>
    pa_wf (sys m') \<and> stacks_ok (stacks m') (sys m') \<and> interrupts m' \<and> vector_base m' = ivt_start env"
proof (rule boot_prefix [OF b, of r0 r1 cpsr])
  fix m1 sps s
  let ?m2 = "setup_exceptions env m1"
  assume found: "find_memory r0 r1 a cpsr m = Ok \<lparr>range_start = 0, range_size = memory\<rparr> m1"
    and stk: "allocate_stacks env memory ?m2 = Ok () (?m2\<lparr>sys := s, stacks := sps, interrupts := True\<rparr>)"
    and ok: "stacks_ok sps s" and s: "pa_wf s" "npages s = unat memory div 4096" "\<not> held s PageAllocLock"
    and rm: "\<And>k. (first_page memory (page_alloc_table_start env) + (k + 4)) * 4 \<le> unat memory div 4096 \<Longrightarrow> room 4 k s"
  have "4 dvd npages s" "room 4 16 s" using b s(2) rm [of 16] enough by (simp_all add: bootable_def)
  then obtain t where t: "test_pagetables s = Ok True t" "pa_wf t" "npages t = npages s" "rtab t = rtab s"
    "\<And>f. f < npages s \<Longrightarrow> rc t f = rc s f"
    using tests_keep_counts [OF s(1) _ s(3)] by metis
  have "owned t f = owned s f" for f
    using t(3,5) pinned_cong [OF t(4,3)] by (auto simp: owned_def used_def)
  then have stacks: "stacks_ok sps t" using stacks_ok_mono [OF ok] by simp
  let ?m3 = "say (line_of ''All tests passed'') (?m2\<lparr>stacks := sps, interrupts := True, sys := t\<rparr>)"
  obtain tr bs where e: "echo dev rounds ?m3 = Ok () (say bs (?m3\<lparr>uart := tr\<rparr>))" "length bs = rounds"
    "received tr = received (uart ?m3) @ bs" using echo_rounds [OF dev] by blast
  have "uart ?m3 = uart_init (uart m)"
    using find_memory_uart [OF found] by (simp add: say_def setup_exceptions_def set_stacks_def Let_def split: prod.splits)
  then have "received tr = received (uart m) @ bs" using e(3) by simp
  moreover have "loader_main_tests env dev rounds r0 r1 a cpsr m = Ok () (say bs (?m3\<lparr>uart := tr\<rparr>))"
    using found stk t(1) e(1) by (simp add: loader_main_tests_def on_sys_def)
  moreover have "console (sys (say bs (?m3\<lparr>uart := tr\<rparr>))) = console t @ line_of ''All tests passed'' @ bs"
    by (simp add: say_def emit_def)
  moreover have "vector_base ?m2 = ivt_start env"
    by (simp add: say_def setup_exceptions_def set_stacks_def Let_def split: prod.splits)
  moreover have "stacks_ok sps (emit bs (emit (line_of ''All tests passed'') t))" using stacks by (simp add: stacks_ok_def)
  ultimately show ?thesis
    using t(2) e(2) by (intro exI [of _ "say bs (?m3\<lparr>uart := tr\<rparr>)"] exI [of _ "console t"] exI [of _ bs]) (simp add: say_def)
next
  fix m1 t
  assume "\<not> roomy env memory"
  then show ?thesis using enough by (simp add: roomy_def)
qed

theorem test_build_passes_witness:
  "\<exists>m' log bs. loader_main_tests pi_env (\<lambda>_ _. 0) 2 0 0xc42 0x100 0 (pi (tagged 0 0x100000)) = Ok () m' \<and>
     console (sys m') = log @ line_of ''All tests passed'' @ bs \<and> length bs = 2"
proof -
  have enough: "(first_page 0x100000 (page_alloc_table_start pi_env) + 20) * 4 \<le> unat (0x100000 :: u32) div 4096"
    by (simp add: first_page_def frame_def)
  have dev: "responsive (\<lambda>_ _. 0) (bit_of 4)"
    unfolding responsive_def by (intro allI exI [of _ "Suc 0"]) simp
  have boot: "bootable pi_env 0x100 0x100000 (pi (tagged 0 0x100000))"
    by (rule pi_bootable [OF tagged_words]) simp_all
  show ?thesis using test_build_passes [OF boot enough dev, of 2 0 "0xc42" 0] by blast
qed

end
