(* ===== verification/Kmalloc.thy ===== *)
theory Kmalloc
  imports Prelude
begin

text \<open>
  The sizes of the kernel heap (\<^verbatim>\<open>src/src/kmalloc.cc\<close>): how many pages a block takes and how many
  entries fit.  \<open>kmalloc\<close> itself names identifiers nobody declares and does not compile, so it has
  no model; \<open>kfree\<close> does nothing.  A block header is a pointer, a count and a bit per entry.
\<close>

definition SMALL_HEAP_MAX_SIZE :: u32 where "SMALL_HEAP_MAX_SIZE = 128"
definition SMALL_HEAP_GRANULARITY :: u32 where "SMALL_HEAP_GRANULARITY = 4"
definition SMALL_HEAP_NUM_SIZES :: u32 where
  "SMALL_HEAP_NUM_SIZES = SMALL_HEAP_MAX_SIZE div SMALL_HEAP_GRANULARITY"
definition SMALL_HEAP_MAX_ENTRIES :: u32 where "SMALL_HEAP_MAX_ENTRIES = 1024"

definition MEDIUM_HEAP_MAX_SIZE :: u32 where "MEDIUM_HEAP_MAX_SIZE = 2048"
definition MEDIUM_HEAP_GRANULARITY :: u32 where "MEDIUM_HEAP_GRANULARITY = 64"
definition MEDIUM_HEAP_SCALE :: u32 where "MEDIUM_HEAP_SCALE = 32"
definition MEDIUM_HEAP_NUM_SIZES :: u32 where
  "MEDIUM_HEAP_NUM_SIZES = MEDIUM_HEAP_MAX_SIZE div MEDIUM_HEAP_GRANULARITY"
definition MEDIUM_HEAP_MAX_ENTRIES :: u32 where "MEDIUM_HEAP_MAX_ENTRIES = 64"

lemmas heap_sizes = SMALL_HEAP_MAX_SIZE_def SMALL_HEAP_GRANULARITY_def SMALL_HEAP_NUM_SIZES_def
  SMALL_HEAP_MAX_ENTRIES_def MEDIUM_HEAP_MAX_SIZE_def MEDIUM_HEAP_GRANULARITY_def
  MEDIUM_HEAP_SCALE_def MEDIUM_HEAP_NUM_SIZES_def MEDIUM_HEAP_MAX_ENTRIES_def

text \<open>Two words and \<open>std::bitset\<close>, whose bits fill whole 32-bit words.\<close>

definition sizeof_SmallHeapBlockHeader :: u32 where
  "sizeof_SmallHeapBlockHeader = 4 + 4 + SMALL_HEAP_MAX_ENTRIES div 8"

definition sizeof_MediumHeapBlockHeader :: u32 where
  "sizeof_MediumHeapBlockHeader = 4 + 4 + MEDIUM_HEAP_MAX_ENTRIES div 8"

definition small_heap_get_num_entries :: "u32 \<Rightarrow> u32" where
  "small_heap_get_num_entries sz = (PAGE_SIZE - sizeof_SmallHeapBlockHeader) div sz"

definition medium_heap_get_num_pages :: "u32 \<Rightarrow> u32" where
  "medium_heap_get_num_pages sz = (MEDIUM_HEAP_SCALE * sz + PAGE_SIZE - 4) div PAGE_SIZE"

definition medium_heap_get_num_entries :: "u32 \<Rightarrow> u32" where
  "medium_heap_get_num_entries sz =
     (PAGE_SIZE * medium_heap_get_num_pages sz - sizeof_SmallHeapBlockHeader) div sz"

definition kfree :: "u32 \<Rightarrow> 's \<Rightarrow> 's" where
  "kfree memory s = s"

end
