(* ===== verification/Platform_Correct.thy ===== *)
theory Platform_Correct
  imports Atags Kmalloc
begin

unbundle bit_operations_syntax

text \<open>
  What the parts below the page tables promise: the serial console, the string and memory
  functions, the spinlock, the list of tags and the sizes of the kernel heap.
\<close>

subsection \<open>Serial console\<close>

text \<open>
  C25: on a device whose transmitter always becomes ready, \<open>uart_puts\<close> of a terminated string
  returns, and has put exactly the bytes before the first NUL on the line, in order.
\<close>

theorem uart_puts_sends:
  assumes dev: "responsive dev (bit_of 5)" and z: "m (str + of_nat k) = 0" and k: "k < 2 ^ 32"
  shows "\<exists>n tr'. n \<le> k \<and> m (str + of_nat n) = 0 \<and> (\<forall>j < n. m (str + of_nat j) \<noteq> 0) \<and>
    uart_puts dev m str tr = Some tr' \<and> sent tr' = sent tr @ map (\<lambda>i. m (str + of_nat i)) [0..<n]"
proof -
  obtain n where n: "n \<le> k" "strlen m str = Some (of_nat n)" "m (str + of_nat n) = 0"
    "\<forall>j < n. m (str + of_nat j) \<noteq> 0"
    using strlen_first [where m = m and str = str and k = k, OF z] by blast
  have u: "unat (of_nat n :: u32) = n" using n(1) k by simp
  obtain tr' where tr': "uart_send dev (buffer_bytes m str (of_nat n)) tr = Some tr'"
    using uart.put_bytes_total [OF uart_putc_returns [OF dev]] by blast
  have "sent tr' = sent tr @ buffer_bytes m str (of_nat n)" using uart.put_bytes_out [OF tr'] .
  then show ?thesis
    using n tr' by (intro exI [of _ n] exI [of _ tr']) (simp add: uart_puts_def uart_write_def buffer_bytes_def u load8_def)
qed

theorem uart_puts_sends_witness:
  "\<exists>tr'. uart_puts (\<lambda>_ _. 0) ((\<lambda>_. 0)(0x100 := 72, 0x101 := 105)) 0x100 [] = Some tr' \<and> sent tr' = [72, 105]"
proof -
  let ?m = "(\<lambda>_. 0)(0x100 := 72, 0x101 := 105) :: memory"
  have dev: "responsive (\<lambda>_ _. 0) (bit_of 5)"
    unfolding responsive_def by (intro allI exI [of _ "Suc 0"]) simp
  obtain n tr' where n: "n \<le> 2" "?m (0x100 + of_nat n) = 0" "\<forall>j < n. ?m (0x100 + of_nat j) \<noteq> 0"
    "uart_puts (\<lambda>_ _. 0) ?m 0x100 [] = Some tr'" "sent tr' = sent [] @ map (\<lambda>i. ?m (0x100 + of_nat i)) [0..<n]"
    using uart_puts_sends [OF dev, of ?m "0x100" 2 "[]"] by auto
  have "n \<noteq> 0" "n \<noteq> 1" using n(2) by (auto split: if_splits intro: ccontr)
  then have "n = 2" using n(1) by linarith
  then show ?thesis using n(4,5) by (simp add: upt_rec)
qed

text \<open>
  C27: numbers on the console read back as what was printed: hexadecimal is "0x" and eight digits,
  decimal has no leading zero.
\<close>

theorem printed_numbers_read_back:
  "parse_hex (drop 2 (puthex_bytes x)) = unat x \<and> length (puthex_bytes x) = 10 \<and>
   parse_dec 0 (putdec_bytes x) = unat x \<and> (hd (putdec_bytes x) = of_char CHR ''0'') = (x = 0)"
  using parse_puthex length_puthex putdec_correct [of x] putdec_zero by (cases "x = 0") auto

subsection \<open>Strings and memory\<close>

text \<open>\<open>strlen\<close> returns exactly when there is a NUL anywhere in the address space after wrapping round.\<close>

lemma strlen_returns_iff: "(\<exists>n. strlen m str = Some n) = (\<exists>a. m a = 0)"
  using strlen_None_iff [of m str] by auto

text \<open>
  C40: \<open>memcpy\<close> copies the source as it was before the call when the destination does not start
  inside it, and \<open>memset\<close> fills exactly its range; all other bytes stay. Addresses wrap.
\<close>

theorem memcpy_memset_bytes:
  assumes "a = b \<or> unat count \<le> unat (a - b)"
  shows "memcpy a b count m c = (if unat (c - a) < unat count then m (b + (c - a)) else m c) \<and>
    memset a v count m c = (if unat (c - a) < unat count then v else m c)"
proof -
  have "unat count \<le> 2 ^ 32" by (rule less_imp_le [OF unat_lt32])
  then show ?thesis using memcpy_loop_apply [OF _ assms] by (simp add: memcpy_def memset_apply)
qed

theorem memcpy_memset_bytes_witness:
  "memcpy 0x2000 0x1000 16 (\<lambda>a. ucast a) 0x200f = 0x0f \<and> memset 0x2000 7 16 (\<lambda>a. 0) 0x2010 = 0"
  using memcpy_memset_bytes [of "0x2000" "0x1000" 16 "\<lambda>a. ucast a" "0x200f" 0]
    memcpy_memset_bytes [of "0x2000" "0x1000" 16 "\<lambda>a. 0" "0x2010" 7] by simp

subsection \<open>Spinlock\<close>

text \<open>
  C26: mutual exclusion: in every reachable state, whatever the interleaving, at most one context
  holds the lock, and the flag is set exactly when one does.
\<close>

theorem spinlock_excludes:
  assumes "lock_reachable s"
  shows "(\<forall>i j. lock_pcs s i = Holding \<and> lock_pcs s j = Holding \<longrightarrow> i = j) \<and>
    (flag s \<longleftrightarrow> (\<exists>i. lock_pcs s i = Holding))"
  using lock_reachable_inv [OF assms] by (auto simp: lock_inv_def)

theorem spinlock_excludes_witness:
  "\<exists>s. lock_reachable s \<and> lock_pcs s 0 = Holding \<and> lock_pcs s 1 = Spinning \<and> flag s"
proof -
  let ?a = "lock_init\<lparr>lock_pcs := (lock_pcs lock_init)(0 := Spinning)\<rparr>"
  let ?b = "?a\<lparr>lock_pcs := (lock_pcs ?a)(1 := Spinning)\<rparr>"
  have "lock_reachable ?a" using lock_reachable.init by (rule lock_reachable.step) (rule lock_step.call, simp add: lock_init_def)
  then have "lock_reachable ?b" by (rule lock_reachable.step) (rule lock_step.call, simp add: lock_init_def)
  then have r: "lock_reachable (spin_once ?b 0)" by (rule lock_reachable.step) (rule lock_step.attempt, simp)
  have "lock_pcs (spin_once ?b 0) 0 = Holding" "lock_pcs (spin_once ?b 0) 1 = Spinning"
    by (simp_all add: spin_once_def test_and_set_def lock_init_def)
  then show ?thesis using spinlock_excludes [OF r] r by blast
qed

subsection \<open>Tags\<close>

text \<open>
  On a well-formed list \<open>get_mem_range\<close> returns the range of the first memory tag, and panics
  with \<open>NoMemory\<close> when there is none.
\<close>

theorem get_mem_range_first:
  assumes "tag_list (mem s) a ts e"
  shows "get_mem_range a s = Some (case find (is_mem_tag (mem s)) ts of
      None \<Rightarrow> panic NoMemory s
    | Some t \<Rightarrow> Ok \<lparr>range_start = load32 (mem s) (t + 12), range_size = load32 (mem s) (t + 8)\<rparr> s)"
  using get_mem_range_list [OF assms] by (simp add: read_mem_def cong: option.case_cong)

definition two_tags :: memory where
  "two_tags = store32 0x100 2 (store32 0x104 ATAG_CORE (store32 0x108 4 (store32 0x10c ATAG_MEM
     (store32 0x110 0x10000000 (\<lambda>_. 0)))))"

lemma two_tags_loads:
  "load32 two_tags 0x100 = 2" "load32 two_tags 0x104 = ATAG_CORE" "load32 two_tags 0x108 = 4"
  "load32 two_tags 0x10c = ATAG_MEM" "load32 two_tags 0x110 = 0x10000000" "load32 two_tags 0x114 = 0"
  "load32 two_tags 0x11c = 0"
  by (simp_all add: two_tags_def load32_store32_other aligned_def) (simp_all add: load32_def)

text \<open>The kernel state over a memory before anything has run.\<close>

definition at_start :: "memory \<Rightarrow> kstate" where
  "at_start m = \<lparr>mem = m, console = [],
     palloc = \<lparr>refcount_table = 0, num_pages = 0, allocated_pages = 0, next_alloc_1 = 0,
       next_alloc_4 = 0, next_alloc_256 = 0, next_alloc_4096 = 0\<rparr>, held = (\<lambda>_. False)\<rparr>"

lemma mem_at_start [simp]: "mem (at_start m) = m"
  by (simp add: at_start_def)

theorem get_mem_range_first_witness:
  "get_mem_range 0x100 (at_start two_tags)
    = Some (Ok \<lparr>range_start = 0, range_size = 0x10000000\<rparr> (at_start two_tags))"
proof -
  have l: "tag_list two_tags 0x100 [0x100, 0x108] 0x118"
    by (simp add: read_header_def next_tag_def two_tags_loads atag_values)
  have f: "find (is_mem_tag two_tags) [0x100, 0x108] = Some 0x108"
    by (simp add: is_mem_tag_def read_header_def two_tags_loads atag_values)
  show ?thesis
    using get_mem_range_first [of "at_start two_tags" "0x100" "[0x100, 0x108]" "0x118"]
      l f by (simp add: two_tags_loads del: tag_list.simps find.simps)
qed

text \<open>
  C34: the length of a tag is trusted.  On a tag of length zero, other than the tag that ends the list, the
  walk that prints the tags stays for ever; so does the search for the memory tag, unless the tag is the
  memory tag it looks for.
\<close>

theorem zero_length_tag_diverges:
  assumes "load32 (mem s) a = 0" "load32 (mem s) (a + 4) \<noteq> ATAG_NONE"
  shows "debug_atags a s = None \<and> (load32 (mem s) (a + 4) = ATAG_MEM \<or> get_mem_range a s = None)"
  using assms debug_atags_stuck [of s a] get_mem_range_stuck [of s a]
  by (cases "load32 (mem s) (a + 4) = ATAG_MEM") (simp_all add: read_header_def is_mem_tag_def)

theorem zero_length_tag_diverges_witness:
  "debug_atags 0x100 (at_start (store32 0x104 ATAG_CORE (\<lambda>_. 0))) = None \<and>
   get_mem_range 0x100 (at_start (store32 0x104 ATAG_CORE (\<lambda>_. 0))) = None"
proof -
  have "load32 (store32 0x104 ATAG_CORE (\<lambda>_. 0)) 0x100 = 0"
    by (simp add: load32_store32_other aligned_def) (simp add: load32_def)
  then show ?thesis
    using zero_length_tag_diverges [of "at_start (store32 0x104 ATAG_CORE (\<lambda>_. 0))" "0x100"]
    by (simp add: atag_values)
qed

subsection \<open>Heap sizes\<close>

text \<open>
  For every size the small and the medium heap round to, the header and the entries of a block
  fit in its pages, and a bitmap has a bit for every entry.
\<close>

theorem heap_blocks_fit:
  assumes "1 \<le> k" "k \<le> 32"
  shows "(let sz = of_nat k * SMALL_HEAP_GRANULARITY
      in unat sizeof_SmallHeapBlockHeader + unat (small_heap_get_num_entries sz) * unat sz \<le> 4096 \<and>
         0 < small_heap_get_num_entries sz \<and> small_heap_get_num_entries sz \<le> SMALL_HEAP_MAX_ENTRIES) \<and>
   (let sz = of_nat k * MEDIUM_HEAP_GRANULARITY
      in unat sizeof_MediumHeapBlockHeader + unat (medium_heap_get_num_entries sz) * unat sz
           \<le> 4096 * unat (medium_heap_get_num_pages sz) \<and>
         0 < medium_heap_get_num_entries sz \<and> medium_heap_get_num_entries sz \<le> MEDIUM_HEAP_MAX_ENTRIES)"
proof -
  have "k \<in> {1,2,3,4,5,6,7,8,9,10,11,12,13,14,15,16,17,18,19,20,21,22,23,24,25,26,27,28,29,30,31,32}"
    using assms by (simp only: insert_iff empty_iff) presburger
  then show ?thesis
    by (elim insertE emptyE) (simp_all add: Let_def heap_sizes sizeof_SmallHeapBlockHeader_def
        sizeof_MediumHeapBlockHeader_def small_heap_get_num_entries_def medium_heap_get_num_entries_def
        medium_heap_get_num_pages_def)
qed

theorem heap_blocks_fit_witness:
  "unat sizeof_SmallHeapBlockHeader + unat (small_heap_get_num_entries 128) * 128 \<le> 4096 \<and>
   medium_heap_get_num_entries 2048 \<le> 64"
proof -
  have e: "of_nat 32 * SMALL_HEAP_GRANULARITY = 128" "of_nat 32 * MEDIUM_HEAP_GRANULARITY = 2048"
    by (simp_all add: heap_sizes)
  show ?thesis
    using heap_blocks_fit [of 32, unfolded e] by (simp add: Let_def MEDIUM_HEAP_MAX_ENTRIES_def)
qed

end
