(* ===== verification/Kernel_Correct.thy ===== *)
theory Kernel_Correct
  imports Kernel_Requests Boot_Steps
begin

unbundle bit_operations_syntax

text \<open>
  The properties of the kernel as a system: any number of tables over one allocator, through any
  sequence of requests, allocations, and references taken and given back.
\<close>

subsection \<open>A board with two tables\<close>

definition board :: kstate where
  "board = PageAlloc 0x100000 0x9000 power_on"

lemma board_facts:
  "pa_wf board" "npages board = 256" "\<not> held board PageAllocLock" "room 4 16 board"
proof -
  note st = PageAlloc_state [where ram = "0x100000" and loc = "0x9000" and s = power_on]
  have fp: "first_page 0x100000 0x9000 = 10" by (simp add: first_page_def frame_def)
  show "pa_wf board" unfolding board_def by (rule PageAlloc_pa_wf) (simp_all add: aligned_def power_on_hints)
  show n: "npages board = 256" using st(2) by (simp add: board_def)
  show "\<not> held board PageAllocLock" using st(3) by (simp add: board_def)
  have "used board \<subseteq> {..<10}" using st(5) fp by (auto simp: board_def used_def split: if_splits)
  then have "card (used board) \<le> 10" using card_mono [of "{..<10}" "used board"] by simp
  then show "room 4 16 board" by (simp add: room_def n)
qed

lemma board_tables:
  obtains pt1 pt2 s outside where
    "kernel_run [New True True, New False True] ({}, outside, board) ({pt1, pt2}, outside, s)" "pt1 \<noteq> pt2"
    "books {} outside board" "books {pt1, pt2} outside s" "empty_table pt2 s" "nent pt2 = 2048"
    "npages s = 256" "room 4 2 s"
proof -
  let ?o = "\<lambda>f. unat (rc board f)"
  have d: "4 dvd npages board" by (simp add: board_facts)
  have b0: "books {} ?o board" by (rule books_none [OF board_facts(1,3)])
  have r16: "room 4 (12 + 4) board" using board_facts(4) by simp
  have r2: "room 4 2 board" using board_facts(4) by (rule room_mono) simp_all
  obtain pt1 s1 where c1: "construct True True board = Ok pt1 s1" "npages s1 = npages board" "room 4 12 s1"
    by (rule construct_cases [OF board_facts(1) d board_facts(3), of True True]) (use r16 r2 in auto)
  note b1 = books_construct [OF b0 d c1(1)]
  have d1: "4 dvd npages s1" using c1(2) d by simp
  have r1: "room 4 (8 + 4) s1" "room 4 2 s1" using c1(3) by (auto intro: room_mono)
  obtain pt2 s2 where c2: "construct False True s1 = Ok pt2 s2" "empty_table pt2 s2" "nent pt2 = 2048"
      "npages s2 = npages s1" "room 4 8 s2"
    by (rule construct_cases [OF booksD(2) [OF b1(1)] d1 booksD(3) [OF b1(1)], of False True]) (use r1 in auto)
  note b2 = books_construct [OF b1(1) d1 c2(1)]
  have "kernel_run [New True True, New False True] ({}, ?o, board) (insert pt2 {pt1}, ?o, s2)"
    by (rule next_step [OF new_table [OF d c1(1)] next_step [OF new_table [OF d1 c2(1)] no_step]])
  then show thesis
    using that [of ?o pt1 pt2 s2] b0 b2 c1(2) c2 room_mono [OF c2(5)] board_facts(2) by (auto simp: insert_commute)
qed

lemma lower_section:
  assumes t: "empty_table pt s" "nent pt = 2048"
  obtains s' where "proper pt (Reserve_at 0 1 GSection) s" "perform pt (Reserve_at 0 1 GSection) s = Ok () s'"
    "pview pt s' 7 = VReserved"
proof -
  have wf: "pt_wf pt s" "unlocked pt s" using t(1) by (simp_all add: empty_table_def)
  have r: "in_range GSection 0 1" by (simp add: in_range_def unit_base_simps frame_def)
  have ran: "unit_range GSection 0 1 = {0..<256}" by (simp add: unit_range_def unit_base_simps frame_def)
  have "reservable pt GSection 0 1 s" using t by (simp add: reservable_def ran empty_table_def div_less_iff_less_mult)
  moreover have "unit_address GSection 0 = 0" by (simp add: unit_address_def unit_base_simps frame_def)
  ultimately obtain s' where s': "reserve_at pt 0 1 GSection s = Ok (Success 0) s'"
    "reserves pt False (unit_range GSection 0 1) s s'"
    using reserve_at_cases [OF wf r] by auto
  then show thesis using that r by (simp add: reserves_def ran)
qed

subsection \<open>Requests are safe\<close>

text \<open>
  C13: requests are safe.  When the books are right, a proper request of one of the tables ends: it
  returns, with every lock free, every table well-formed and the books right again (without the table,
  if it was destroyed), or it panics for want of memory.  It never spins, and never has undefined
  behaviour or another panic.
\<close>

theorem proper_requests_safe:
  assumes "books T outside s" "pt \<in> T" "proper pt q s"
  shows "(\<exists>s'. perform pt q s = Ok () s' \<and> books (if q = Destruct then T - {pt} else T) outside s') \<or>
    (\<exists>t. perform pt q s = panic OutOfMemory t)"
  by (rule request_books [OF assms]) blast+

theorem proper_requests_safe_witness:
  "\<exists>T outside s pt s'. perform pt (Reserve_at 0 1 GSection) s = Ok () s' \<and> books T outside s' \<and> card T = 2"
proof -
  obtain pt1 pt2 s outside where t: "pt1 \<noteq> pt2" "books {pt1, pt2} outside s" "empty_table pt2 s" "nent pt2 = 2048"
    by (rule board_tables)
  obtain s' where s': "proper pt2 (Reserve_at 0 1 GSection) s" "perform pt2 (Reserve_at 0 1 GSection) s = Ok () s'"
    by (rule lower_section [OF t(3,4)])
  have "books {pt1, pt2} outside s'"
    using proper_requests_safe [OF t(2) _ s'(1)] s'(2) by (simp add: panic_def del: perform.simps)
  moreover have "card {pt1, pt2} = 2" using t(1) by simp
  ultimately show ?thesis using s' by blast
qed







end
