(* ===== verification/Map_Correct.thy ===== *)
theory Map_Correct
  imports Kernel_Correct Table_Lifetime
begin

unbundle bit_operations_syntax

text \<open>
  \<open>map\<close> on tables that count references: the properties.
\<close>

subsection \<open>A reserved page\<close>

lemma reserved_page:
  obtains pt s outside where "books {pt} outside s" "reference_counted pt" "mappable pt GPage 0 1 s"
    "pview pt s 1 = VFree" "npages s = 256" "outside 3 = 1" "owned s 3" "rc s 3 = 1"
proof -
  let ?o = "\<lambda>f. unat (rc board f)"
  have d: "4 dvd npages board" by (simp add: board_facts)
  have b0: "books {} ?o board" by (rule books_none [OF board_facts(1,3)])
  have r16: "room 4 (12 + 4) board" using board_facts(4) by simp
  have r2: "room 4 2 board" using board_facts(4) by (rule room_mono) simp_all
  obtain pt s where c: "construct True True board = Ok pt s" "empty_table pt s" "nent pt = 4096"
      "reference_counted pt" "npages s = npages board" "room 4 12 s"
    by (rule construct_cases [OF board_facts(1) d board_facts(3), of True True]) (use r16 r2 in auto)
  have b1: "books {pt} ?o s" using books_construct(1) [OF b0 d c(1)] by simp
  have wf: "pt_wf pt s" "unlocked pt s" using c(2) by (simp_all add: empty_table_def)
  have r: "in_range GPage 0 1" by (simp add: in_range_def unit_base_simps frame_def)
  have ran: "unit_range GPage 0 1 = {0}" by (simp add: unit_range_def unit_base_simps frame_def)
  have v: "pview pt s p = VFree" "\<not> by_page pt s p" if "p < 256" for p
    using c(2,3) that by (simp_all add: empty_table_def div_less_iff_less_mult)
  have res: "reservable pt GPage 0 1 s" using v [of 0] by (simp add: reservable_def ran)
  have room: "room 1 (length (section_chunks (0 AND 0xfffff000) 1) + 2) s"
    using c(6) by (rule room_mono) (simp_all add: one_chunk frame_def aligned_def)
  obtain t where t: "reserve_at pt 0 1 GPage s = Ok (Success (unit_address GPage 0)) t" "reserves pt True {0} s t"
    by (rule reserve_at_Ok [OF wf r res]) (use room ran in simp_all)
  have "change pt s t" by (rule change_reserves [OF t(2)]) (use v [of 0] in simp)
  then have b2: "books {pt} ?o t" using books_change(1) [OF b1] by simp
  have m: "mappable pt GPage 0 1 t" "pview pt t 1 = VFree"
    using t(2) v [of 1] by (simp_all add: mappable_def reserves_def)
  note st = PageAlloc_state [where ram = "0x100000" and loc = "0x9000" and s = power_on]
  have "first_page 0x100000 0x9000 = 10" by (simp add: first_page_def frame_def)
  then have o3: "?o 3 = 1" using st(5) [of 3] by (simp add: board_def st)
  have n: "npages t = 256" using t(2) c(5) board_facts(2) by (simp add: reserves_def table_op_def)
  have "rtab t = 0x9000"
    using t(2) construct_rtab [OF board_facts(1) d c(1)] st(1) by (simp add: reserves_def table_op_def board_def)
  then have "\<not> pinned t 3" by (auto simp: pinned_def n frame_def unat_word_ariths)
  moreover have "0 < unat (rc t 3)" using booksD(8) [OF b2, of 3] o3 n by simp
  then have "3 \<in> used t" using n by (auto simp: used_def)
  ultimately have "owned t 3" by (simp add: owned_def)
  moreover have "rc t 3 = 1"
  proof -
    note k = construct_spec [OF board_facts(1) d c(1)]
    have "rc board 3 = 1" using o3 by (simp add: word_unat_eq_iff)
    then have "rc s 3 = 1" using k(11) [of 3] k(12) [of 3] board_facts(2) by (cases "3 \<in> root_frames pt") auto
    then show ?thesis using t(2) c(5) board_facts(2) by (auto simp: reserves_def table_op_def)
  qed
  ultimately show thesis using that [of pt ?o t] b2 c(4) m n o3 by simp
qed

subsection \<open>Success\<close>

text \<open>
  C8: \<open>map\<close> counts what it maps.  Over units that are all reserved at the granularity given, and on a
  table that counts references onto pages in use whose counts are not at their maximum, it succeeds,
  maps each page to the physical page at the same offset, and takes one reference to each of those, or
  none if the table does not count; no other count and no other page of the view changes.
\<close>

theorem map_counts_references:
  assumes "ready pt s" "may_map pt va pa n g s"
  shows "\<exists>s'. map_units pt va pa n g s = Ok True s' \<and> pt_wf pt s' \<and> held s' = held s \<and>
    (\<forall>p. pview pt s' p = (if p \<in> unit_range g va n then VMapped (unit_base g pa + (p - unit_base g va)) else pview pt s p)) \<and>
    (\<forall>f < npages s. rc s' f = rc s f + (if reference_counted pt \<and> f \<in> unit_range g pa n then 1 else 0))"
proof -
  obtain s' where "map_units pt va pa n g s = Ok True s'" "change pt s s'"
    "\<And>p. pview pt s' p = (if p \<in> unit_range g va n then VMapped (unit_base g pa + (p - unit_base g va)) else pview pt s p)"
    "\<And>f. f < npages s \<Longrightarrow> rc s' f = rc s f + (if reference_counted pt \<and> f \<in> unit_range g pa n then 1 else 0)"
    by (rule map_units_change [OF assms]) (rule that; assumption)
  then show ?thesis unfolding change_def by blast
qed

theorem map_counts_references_witness:
  "\<exists>pt s s'. map_units pt 0 0x3000 1 GPage s = Ok True s' \<and> pview pt s' 0 = VMapped 3 \<and> rc s' 3 = rc s 3 + 1"
proof -
  obtain pt s outside where t: "books {pt} outside s" "reference_counted pt" "mappable pt GPage 0 1 s" "npages s = 256"
    "outside 3 = 1" "owned s 3" "rc s 3 = 1" by (rule reserved_page)
  have ran: "in_range GPage 0 1" "in_range GPage 0x3000 1" "unit_base GPage 0 = 0" "unit_base GPage 0x3000 = 3"
    "unit_range GPage 0x3000 1 = {3}" "unit_range GPage 0 1 = {0}"
    by (auto simp: in_range_def unit_range_def unit_base_simps frame_def)
  have "may_map pt 0 0x3000 1 GPage s" using t ran by (simp add: may_map_def)
  then obtain s' where "map_units pt 0 0x3000 1 GPage s = Ok True s'"
    "\<forall>p. pview pt s' p = (if p \<in> {0} then VMapped (3 + (p - 0)) else pview pt s p)"
    "\<forall>f < npages s. rc s' f = rc s f + (if reference_counted pt \<and> f \<in> {3} then 1 else 0)"
    using map_counts_references [of pt s 0 "0x3000" 1 GPage] booksD(4) [OF t(1), of pt] unfolding ran by auto
  then show ?thesis using t(2,4) by (intro exI [of _ pt] exI [of _ s] exI [of _ s']) simp
qed

subsection \<open>Failure part of the way\<close>

text \<open>
  C35: a \<open>map\<close> that fails part of the way takes no references.  When the first \<open>k\<close> units are reserved
  and the next is not, \<open>map\<close> on a table that counts references returns false with the \<open>k\<close> units mapped
  and no count changed; but the destructor releases one reference for each mapped page, so in the end
  each of those pages has one reference fewer than are held outside and by the other tables.
\<close>

theorem failed_map_loses_references:
  assumes "books T outside s" "pt \<in> T" "reference_counted pt"
    and "in_range g va n" "in_range g pa n" "k < unat n"
    and "mappable pt g (unit_base g va) k s" "\<not> committable pt g (frame va + k * gran_pages g) s"
    and "\<forall>f \<in> {unit_base g pa..<unit_base g pa + k * gran_pages g}. owned s f \<and> 0 < outside f"
  shows "\<exists>s' t. map_units pt va pa n g s = Ok False s' \<and> (\<forall>f < npages s. rc s' f = rc s f) \<and>
    (\<forall>i < k * gran_pages g. pview pt s' (unit_base g va + i) = VMapped (unit_base g pa + i)) \<and>
    destroy pt s' = Ok () t \<and>
    (\<forall>f \<in> {unit_base g pa..<unit_base g pa + k * gran_pages g}. unat (rc t f) + 1 = outside f + (\<Sum>p \<in> T - {pt}. refs p s f))"
proof -
  let ?B = "{unit_base g pa..<unit_base g pa + k * gran_pages g}"
  note B = booksD [OF assms(1)] and rest = booksD [OF books_remove [OF assms(1,2)]]
  obtain s' where s': "map_units pt va pa n g s = Ok False s'" "maps pt g (unit_base g va) (unit_base g pa) k s s'"
    by (rule map_stops [OF B(4) [OF assms(2)] assms(4-8)])
  note R = maps_refs [OF B(5) [OF assms(2)] assms(7) s'(2)]
  have op: "table_op pt s s'" using s'(2) by (simp add: maps_def)
  note O = op [unfolded table_op_def]
  have refs: "refs pt s' f = refs pt s f + (if f \<in> ?B then 1 else 0)" for f using R(3) assms(3) by simp
  have sum: "unat (rc s f) = outside f + refs pt s f + (\<Sum>p \<in> T - {pt}. refs p s f)" if "f < npages s" for f
    by (rule rest(8) [OF that])
  have tgt: "owned s f" "0 < outside f" if "f \<in> ?B" for f using assms(9) that by blast+
  have own: "owned s f" if "0 < refs pt s' f" for f
    using refs_owned [OF assms(1,2), of f] that refs tgt [of f] by (cases "f \<in> ?B") auto
  have "f < npages s' \<and> refs pt s' f \<le> unat (rc s' f) \<and> (refs pt s' f = unat (rc s' f) \<longrightarrow> \<not> pinned s' f)"
    if "0 < refs pt s' f" for f
  proof -
    have o: "owned s f" "owned s' f" using own [OF that] O by simp_all
    then have n: "f < npages s" by (simp add: owned_less)
    then have "refs pt s' f \<le> unat (rc s' f)" using sum [OF n] R(2) [OF n] refs [of f] tgt(2) [of f] by (cases "f \<in> ?B") auto
    then show ?thesis using o n O by (simp add: owned_def)
  qed
  then obtain t where t: "destroy pt s' = Ok () t" "\<And>f. f < npages s' \<Longrightarrow> unat (rc t f) = unat (rc s' f) - refs pt s' f"
    using destroy_Ok [of pt s'] O B(3) by metis
  have "unat (rc t f) + 1 = outside f + (\<Sum>p \<in> T - {pt}. refs p s f)" if f: "f \<in> ?B" for f
  proof -
    have n: "f < npages s" using tgt(1) [OF f] by (rule owned_less)
    have o: "0 < outside f" by (rule tgt(2) [OF f])
    have "unat (rc s f) - refs pt s' f + 1 = outside f + (\<Sum>p \<in> T - {pt}. refs p s f)"
      unfolding sum [OF n] refs using o f by (simp del: atLeastLessThan_iff)
    moreover have "unat (rc t f) = unat (rc s f) - refs pt s' f" using t(2) [of f] O R(2) [OF n] n by simp
    ultimately show ?thesis by simp
  qed
  moreover have "pview pt s' (unit_base g va + i) = VMapped (unit_base g pa + i)" if "i < k * gran_pages g" for i
    using s'(2) that by (simp add: maps_def)
  ultimately show ?thesis using s'(1) t(1) R(2) by blast
qed

theorem failed_map_loses_references_witness:
  "\<exists>pt s s' t outside. books {pt} outside s \<and> outside 3 = 1 \<and> map_units pt 0 0x3000 2 GPage s = Ok False s' \<and>
     destroy pt s' = Ok () t \<and> rc t 3 = 0"
proof -
  obtain pt s outside where t: "books {pt} outside s" "reference_counted pt" "mappable pt GPage 0 1 s" "pview pt s 1 = VFree"
    "outside 3 = 1" "owned s 3" by (rule reserved_page)
  have ran: "in_range GPage 0 2" "in_range GPage 0x3000 2" "unit_base GPage 0 = 0" "unit_base GPage 0x3000 = 3"
    by (simp_all add: in_range_def unit_base_simps frame_def)
  have bad: "\<not> committable pt GPage (frame 0 + 1 * gran_pages GPage) s"
    using t(4) by (simp add: committable_def unit_pages_def frame_def)
  have set: "{3..<3 + 1 * gran_pages GPage} = {3}" by auto
  obtain s' u where s': "map_units pt 0 0x3000 2 GPage s = Ok False s'" "destroy pt s' = Ok () u" "unat (rc u 3) + 1 = outside 3"
    using failed_map_loses_references [OF t(1) _ t(2) ran(1,2), of 1] t(3,5,6) bad unfolding ran set by auto
  then have "rc u 3 = 0" using t(5) by (simp add: unat_eq_0)
  then show ?thesis using t(1,5) s'(1,2) by blast
qed

end
