(* ===== verification/Listing_Correct.thy ===== *)
theory Listing_Correct
  imports Table_Correct Table_Room Boot
begin

unbundle bit_operations_syntax

text \<open>
  What the listing of a table says.  The reference: one item for each section or page, a unit that is
  free or reserved or a line of text, and then each maximal run of units of one type as one line.  The
  code makes the lines in one pass, with a pending run in three variables.
\<close>

subsection \<open>Runs\<close>

datatype item = Unit AggregationTypes u32 | Text "u8 list"

datatype block = Run AggregationTypes u32 nat | Block_text "u8 list"

fun same_unit :: "AggregationTypes \<Rightarrow> item \<Rightarrow> bool" where
  "same_unit t (Unit t' _) = (t = t')"
| "same_unit t (Text _) = False"

function runs :: "item list \<Rightarrow> block list" where
  "runs [] = []"
| "runs (Text bs # is) = Block_text bs # runs is"
| "runs (Unit t base # is) =
     Run t base (Suc (length (takeWhile (same_unit t) is))) # runs (dropWhile (same_unit t) is)"
  by pat_completeness auto
termination
  by (relation "measure length") (auto simp: le_imp_less_Suc length_dropWhile_le)

fun block_bytes :: "display \<Rightarrow> block \<Rightarrow> u8 list" where
  "block_bytes d (Run t base n) = d base (of_nat n) t"
| "block_bytes d (Block_text bs) = bs"

definition listing :: "display \<Rightarrow> item list \<Rightarrow> u8 list" where
  "listing d is = concat (map (block_bytes d) (runs is))"

lemma listing_simps [simp]:
  "listing d [] = []" "listing d (Text bs # is) = bs @ listing d is"
  "listing d (Unit t base # is) =
     d base (of_nat (Suc (length (takeWhile (same_unit t) is)))) t @ listing d (dropWhile (same_unit t) is)"
  by (simp_all add: listing_def)

text \<open>One pass, with the pending run.\<close>

fun one_pass :: "display \<Rightarrow> aggregation \<Rightarrow> item list \<Rightarrow> u8 list" where
  "one_pass d a [] = fst (flush d a)"
| "one_pass d a (Unit t base # is) = (let (out, a) = aggregate d t base a in out @ one_pass d a is)"
| "one_pass d a (Text bs # is) = (let (out, a) = flush d a in out @ bs @ one_pass d a is)"

lemma one_pass_listing:
  "unat n + length is < 2 ^ 32 \<Longrightarrow> one_pass d (start, n, t) is =
     (if n = 0 then listing d is
      else d start (of_nat (unat n + length (takeWhile (same_unit t) is))) t @ listing d (dropWhile (same_unit t) is))"
proof (induction "is" arbitrary: start n t)
  case Nil
  then show ?case by (simp add: flush_def word_gt_0)
next
  case (Cons x "is")
  have len: "unat n + Suc (length is) < 2 ^ 32" using Cons.prems by simp
  show ?case
  proof (cases x)
    case (Unit t' base)
    have 1: "one_pass d (base, 1, t') is = listing d (Unit t' base # is)"
      using Cons.IH [of 1 base t'] len by simp
    show ?thesis
    proof (cases "n = 0")
      case True
      then show ?thesis using 1 Unit by (simp add: aggregate_def flush_def)
    next
      case n: False
      show ?thesis
      proof (cases "t = t'")
        case True
        have u: "unat (n + 1) = Suc (unat n)" using len unat_add32 [of n 1] by simp
        then have "n + 1 \<noteq> 0" by (metis nat.distinct(1) unat_0)
        then show ?thesis
          using Cons.IH [of "n + 1" start t] len n True Unit u by (simp add: aggregate_def)
      next
        case False
        then show ?thesis using 1 n Unit by (simp add: aggregate_def flush_def word_gt_0)
      qed
    qed
  next
    case (Text bs)
    have "one_pass d (start, 0, t) is = listing d is" using Cons.IH [of 0 start t] len by simp
    then show ?thesis using Text by (cases "n = 0") (simp_all add: flush_def word_gt_0)
  qed
qed

subsection \<open>Pages\<close>

definition page_item :: "u32 \<Rightarrow> (nat \<Rightarrow> page_view) \<Rightarrow> nat \<Rightarrow> item" where
  "page_item base v j =
     (let page_base = base + of_nat j * PAGE_SIZE
      in case v j of
           VMapped f \<Rightarrow> Text (tab @ puthex_bytes page_base @ tab @ bytes_of ''page mapped to '' @
             puthex_bytes (of_nat f * PAGE_SIZE) @ putline_bytes)
         | VReserved \<Rightarrow> Unit Reserved page_base
         | _ \<Rightarrow> Unit Unmapped page_base)"

lemma frame_address: "of_nat (frame e) * PAGE_SIZE = e AND 0xfffff000"
proof -
  have "unat (of_nat (frame e) * PAGE_SIZE) = frame e * 4096" by (rule unat_page_address [OF frame_less])
  also have "\<dots> = unat (e AND NOT (mask 12))" by (simp add: unat_and_not_mask frame_def)
  finally show ?thesis by (simp only: not_masks word_unat_eq_iff)
qed

lemma and_4_7: "e AND 0x4 = (e AND 0x7) AND 0x4" "e AND 0x1 = (e AND 0x7) AND 0x1" for e :: u32
  by (simp_all add: and.assoc)

text \<open>What a descriptor without a table tells the listing.\<close>

lemma plain_cases:
  assumes "plain e"
  obtains "e AND 0x7 = 0" "e AND 0x3 = 0" "e AND 0x2 = 0" "e AND 0x4 = 0"
  | "e AND 0x7 = 4" "e AND 0x3 = 0" "e AND 0x2 = 0" "e AND 0x4 \<noteq> 0"
  | "e AND 0x7 = 2" "e AND 0x3 = 2" "e AND 0x2 \<noteq> 0" "e AND 0x1 = 0"
  using assms and_4_7 [of e] by (rule_tac plainE [OF assms]) auto

lemma page_line_item:
  assumes "plain (ld s (slot table j))" "v j = descriptor_view (ld s (slot table j))"
  shows "one_pass page_aggregation_display a (page_item base v j # is) =
    (let (out, a) = page_line s table base j a in out @ one_pass page_aggregation_display a is)"
  by (rule plain_cases [OF assms(1)])
    (simp_all add: page_item_def assms(2) descriptor_view_def page_line_def Let_def frame_address split: prod.split)

lemma page_lines_pass:
  "(\<And>j. j \<in> set js \<Longrightarrow> plain (ld s (slot table j)) \<and> v j = descriptor_view (ld s (slot table j))) \<Longrightarrow>
   page_lines s table base js a = one_pass page_aggregation_display a (map (page_item base v) js)"
proof (induction js arbitrary: a)
  case (Cons j js)
  then show ?case using page_line_item [of s table j v a base "map (page_item base v) js"] by (simp split: prod.splits)
qed simp

subsection \<open>Sections\<close>

text \<open>Where the listing stops: at every section, but a supersection takes the place of sixteen.\<close>

definition is_supersection :: "PageTable \<Rightarrow> kstate \<Rightarrow> nat \<Rightarrow> bool" where
  "is_supersection pt s i \<longleftrightarrow> fle pt s i AND 0x3 = 2 \<and> fle pt s i AND 0x00040000 \<noteq> 0"

function stops :: "PageTable \<Rightarrow> kstate \<Rightarrow> nat \<Rightarrow> nat list" where
  "stops pt s i = (if i < nent pt then i # stops pt s (i + (if is_supersection pt s i then 16 else 1)) else [])"
  by pat_completeness auto
termination
  by (relation "measure (\<lambda>(pt, s, i). nent pt - i)") (auto split: if_splits)

declare stops.simps [simp del]

lemma length_stops: "length (stops pt s i) \<le> nent pt - i"
proof (induction pt s i rule: stops.induct)
  case (1 pt s i)
  then show ?case by (subst stops.simps) (auto split: if_splits)
qed

definition section_item :: "PageTable \<Rightarrow> kstate \<Rightarrow> nat \<Rightarrow> item" where
  "section_item pt s i =
     (let section_base = of_nat i * SECTION_SIZE; v = (\<lambda>j. pview pt s (256 * i + j));
          unit = if is_supersection pt s i then 4096 else 256
      in if by_page pt s (256 * i) then
           Text (puthex_bytes section_base @ tab @ bytes_of ''second-level page table ('' @
             puthex_bytes (table_of (fle pt s i)) @ line_of '')'' @
             listing page_aggregation_display (map (page_item section_base v) [0..<256]))
         else case v 0 of
           VMapped f \<Rightarrow> Text (puthex_bytes section_base @ tab @
             bytes_of (if is_supersection pt s i then ''supersection mapped to '' else ''section mapped to '') @
             puthex_bytes (of_nat (f - 256 * i mod unit) * PAGE_SIZE) @
             (if fle pt s i AND 0x10 \<noteq> 0 then bytes_of '' NX'' else []) @ putline_bytes)
         | VReserved \<Rightarrow> Unit Reserved section_base
         | _ \<Rightarrow> Unit Unmapped section_base)"

lemma second_level_listing:
  assumes wf: "pt_wf pt s" and i: "i < nent pt" "is_table (fle pt s i)"
  shows "print_second_level_table_info s (table_of (fle pt s i)) base
    = listing page_aggregation_display (map (page_item base (\<lambda>j. pview pt s (256 * i + j))) [0..<256])"
proof -
  have "plain (ld s (slot (table_of (fle pt s i)) j)) \<and>
      pview pt s (256 * i + j) = descriptor_view (ld s (slot (table_of (fle pt s i)) j))" if "j < 256" for j
    using entry_tableD(5) [OF wf i that] i that by (simp add: pview_table sle_def)
  then have "page_lines s (table_of (fle pt s i)) base [0..<256] no_aggregation
      = one_pass page_aggregation_display no_aggregation (map (page_item base (\<lambda>j. pview pt s (256 * i + j))) [0..<256])"
    by (intro page_lines_pass) simp
  then show ?thesis by (simp add: print_second_level_table_info_def no_aggregation_def one_pass_listing del: upt_Suc)
qed

lemma section_address:
  "SECTION_SIZE * of_nat (frame e div 256) = e AND 0xfff00000"
  "SUPERSECTION_SIZE * of_nat (frame e div 4096) = e AND 0xff000000"
  using frame_address [of "e AND 0xfff00000"] frame_address [of "e AND 0xff000000"]
  by (simp_all add: frame_and_section frame_and_supersection and.assoc mult.commute)

lemma section_line_item:
  assumes wf: "pt_wf pt s" and i: "i < nent pt" and ln: "section_line pt s i a = (out, a', k)"
  shows "k = (if is_supersection pt s i then 16 else 1) \<and>
    one_pass section_aggregation_display a (section_item pt s i # is) = out @ one_pass section_aggregation_display a' is"
proof (cases "is_table (fle pt s i)")
  case True
  then have e: "fle pt s i AND 0x3 = 1" by (simp add: is_table_def)
  have "by_page pt s (256 * i)" using True i by (simp add: by_page_def)
  then show ?thesis
    using ln e second_level_listing [OF wf i True, of "of_nat i * SECTION_SIZE"]
    by (auto simp: section_line_def section_item_def is_supersection_def fle_def [symmetric] table_of_def [symmetric]
        get_first_level_table_address_def get_second_level_table_address_def Let_def split: prod.splits)
next
  case False
  then have np: "\<not> by_page pt s (256 * i)" and v: "pview pt s (256 * i) = entry_view (fle pt s i) (256 * i)"
    using i by (simp_all add: by_page_def pview_section)
  show ?thesis
  proof (cases rule: plain_cases [OF entry_plainD [OF wf i False]])
    case 1
    then show ?thesis
      using ln by (auto simp: np v section_line_def section_item_def is_supersection_def entry_view_def fle_def [symmetric]
          get_first_level_table_address_def Let_def split: prod.splits)
  next
    case 2
    then show ?thesis
      using ln by (auto simp: np v section_line_def section_item_def is_supersection_def entry_view_def fle_def [symmetric]
          get_first_level_table_address_def Let_def split: prod.splits)
  next
    case 3
    then show ?thesis
      using ln by (auto simp: np v section_line_def section_item_def is_supersection_def entry_view_def fle_def [symmetric]
          section_address get_first_level_table_address_def Let_def split: prod.splits)
  qed
qed

lemma section_lines_pass:
  "pt_wf pt s \<Longrightarrow> section_lines pt s i a = one_pass section_aggregation_display a (map (section_item pt s) (stops pt s i))"
proof (induction pt s i a rule: section_lines.induct)
  case (1 pt s i a)
  show ?case
  proof (cases "i < nent pt")
    case True
    obtain out a' k where ln: "section_line pt s i a = (out, a', k)" using prod_cases3 by blast
    note it = section_line_item [OF 1(2) True ln]
    have "section_lines pt s (i + k) a' = one_pass section_aggregation_display a' (map (section_item pt s) (stops pt s (i + k)))"
      using 1(1) [OF _ ln [symmetric] refl] 1(2) True by (simp add: nent_def)
    then show ?thesis
      using True ln it [of "map (section_item pt s) (stops pt s (i + k))"]
      by (subst section_lines.simps, subst stops.simps) (simp add: nent_def)
  next
    case False
    then show ?thesis by (subst section_lines.simps, subst stops.simps) (simp add: nent_def)
  qed
qed

definition table_listing :: "PageTable \<Rightarrow> kstate \<Rightarrow> u8 list" where
  "table_listing pt s = listing section_aggregation_display (map (section_item pt s) (stops pt s 0))"

lemma section_lines_listing:
  assumes "pt_wf pt s"
  shows "section_lines pt s 0 no_aggregation = table_listing pt s"
proof -
  have "length (stops pt s 0) < 2 ^ 32" using length_stops [of pt s 0] pt_wfD(2) [OF assms] by simp
  then show ?thesis by (simp add: section_lines_pass [OF assms] no_aggregation_def one_pass_listing table_listing_def)
qed

lemma fle_locked [simp]: "fle pt (locked pt s) i = fle pt s i"
  by (simp add: fle_def locked_def ld_def)

lemma is_supersection_locked [simp]: "is_supersection pt (locked pt s) i = is_supersection pt s i"
  by (simp add: is_supersection_def)

lemma section_item_locked [simp]: "section_item pt (locked pt s) = section_item pt s"
  by (simp add: fun_eq_iff section_item_def Let_def del: upt_rec_numeral)

lemma stops_locked [simp]: "stops pt (locked pt s) i = stops pt s i"
proof (induction pt s i rule: stops.induct)
  case (1 pt s i)
  then show ?case by (subst (1 2) stops.simps) simp
qed

subsection \<open>The listing\<close>

lemma table_listing_emit [simp]: "table_listing pt (emit bs s) = table_listing pt s"
proof -
  have sup: "is_supersection pt (emit bs s) i = is_supersection pt s i" for i by (simp add: is_supersection_def)
  have "stops pt (emit bs s) i = stops pt s i" for i
  proof (induction pt s i rule: stops.induct)
    case (1 pt s i)
    then show ?case by (subst (1 2) stops.simps) (simp add: is_supersection_def)
  qed
  moreover have "section_item pt (emit bs s) = section_item pt s" by (simp add: fun_eq_iff section_item_def sup Let_def)
  ultimately show ?thesis by (simp add: table_listing_def)
qed

lemma print_listing:
  assumes "pt_wf pt s" "unlocked pt s"
  shows "print_table_info pt s = Ok () (emit (table_listing pt s) s)"
proof -
  have "pt_wf pt (locked pt s)" using assms(1) by simp
  then have "section_lines pt (locked pt s) 0 no_aggregation = table_listing pt s"
    by (simp add: section_lines_listing table_listing_def)
  then show ?thesis
    using assms(2) by (simp add: print_table_info_def with_lock_def unlocked_def locked_def emit_def fun_upd_idem)
qed

text \<open>
  C22: the listing shows the table.  On a well-formed table \<open>print_table_info\<close> prints, section by
  section and page by page, what the abstract view says: each maximal run of free or of reserved units
  as one line with its first address and its length, and one line for each mapped unit with the
  physical address it is mapped to; a second-level table is listed in its place.  Nothing but the
  console changes.
\<close>

theorem print_table_info_shows_view:
  assumes "pt_wf pt s" "unlocked pt s"
  shows "print_table_info pt s =
    Ok () (emit (listing section_aggregation_display (map (section_item pt s) (stops pt s 0))) s)"
  using print_listing [OF assms] by (simp add: table_listing_def)

text \<open>A table with one section reserved.\<close>

lemma stops_sections: "(\<And>i. i < nent pt \<Longrightarrow> \<not> is_supersection pt s i) \<Longrightarrow> stops pt s i = [i..<nent pt]"
proof (induction pt s i rule: stops.induct)
  case (1 pt s i)
  then show ?case by (subst stops.simps) (simp add: upt_conv_Cons)
qed

lemma listing_same: "(\<And>x. x \<in> set is \<Longrightarrow> same_unit t x) \<Longrightarrow>
   listing d (Unit t base # is) = d base (of_nat (Suc (length is))) t"
proof -
  assume same: "\<And>x. x \<in> set is \<Longrightarrow> same_unit t x"
  have "takeWhile (same_unit t) is = is" "dropWhile (same_unit t) is = []" using same by simp_all
  then show ?thesis by (simp only: listing_simps append_Nil2)
qed

lemma unmapped_stop:
  assumes i: "i < nent pt" and v: "pview pt s (256 * i) \<in> {VFree, VReserved}" "\<not> by_page pt s (256 * i)"
  shows "\<not> is_supersection pt s i"
proof -
  have "fle pt s i AND 0x7 = 0 \<or> fle pt s i AND 0x7 = 4"
    using v i by (simp add: by_page_def pview_section view_eq_iff)
  then show ?thesis using and_3_7 [of "fle pt s i"] by (auto simp: is_supersection_def)
qed

theorem print_table_info_shows_view_witness:
  "\<exists>pt s. print_table_info pt s =
     Ok () (emit (section_aggregation_display 0 1 Reserved @ section_aggregation_display 0x100000 2047 Unmapped) s)"
proof -
  obtain pt s where t: "empty_table pt s" "nent pt = 2048" using small_table by metis
  have wf: "pt_wf pt s" "unlocked pt s" using t(1) by (simp_all add: empty_table_def)
  have r: "in_range GSection 0 1" by (simp add: in_range_def unit_base_simps frame_def)
  have ran: "unit_range GSection 0 1 = {0..<256}" by (simp add: unit_range_def unit_base_simps frame_def)
  have "reservable pt GSection 0 1 s" using t by (simp add: reservable_def ran empty_table_def div_less_iff_less_mult)
  then obtain u where u: "reserves pt False {0..<256} s u" using reserve_at_cases [OF wf r] ran by auto
  have op: "table_op pt s u" using u by (rule reserves_op)
  have wu: "pt_wf pt u" "unlocked pt u" using op wf(2) by (simp_all add: table_op_def unlocked_def)
  have bp: "\<not> by_page pt u p" for p using u t(1) by (auto simp: reserves_def empty_table_def)
  have v: "pview pt u (256 * i) = (if i = 0 then VReserved else VFree)" if "i < 2048" for i
    using u t that by (auto simp: reserves_def empty_table_def)
  have it: "section_item pt u i = Unit (if i = 0 then Reserved else Unmapped) (of_nat i * SECTION_SIZE)" if "i < 2048" for i
    using v [OF that] bp by (simp add: section_item_def)
  have "\<not> is_supersection pt u i" if "i < nent pt" for i
  proof (rule unmapped_stop [OF that])
    show "pview pt u (256 * i) \<in> {VFree, VReserved}" using v [of i] that t(2) by simp
  qed (rule bp)
  then have "stops pt u 0 = [0..<nent pt]" by (rule stops_sections)
  also have "\<dots> = 0 # 1 # [2..<nent pt]"
  proof -
    have "0 < nent pt" "1 < nent pt" using t(2) by simp_all
    then show ?thesis by (simp add: upt_conv_Cons numeral_2_eq_2)
  qed
  finally have st: "stops pt u 0 = 0 # 1 # [2..<nent pt]" .
  let ?rest = "map (section_item pt u) [2..<nent pt]"
  have same: "same_unit Unmapped x" if x: "x \<in> set ?rest" for x
  proof -
    obtain i where "2 \<le> i" "i < nent pt" "x = section_item pt u i" using x by auto
    then show ?thesis using it [of i] t(2) by simp
  qed
  have "Suc (length ?rest) = 2047" by (simp only: length_map length_upt t(2))
  then have "listing d (Unit Unmapped 0x100000 # ?rest) = d 0x100000 (of_nat 2047) Unmapped" for d
    using listing_same [OF same, of ?rest d "0x100000"] by (simp only:)
  then have "listing d (map (section_item pt u) (stops pt u 0)) = d 0 1 Reserved @ d 0x100000 2047 Unmapped" for d
    using it [of 0] it [of 1] by (simp add: st)
  then show ?thesis using print_table_info_shows_view [OF wu] by metis
qed

end
