(* ===== verification/Load_Room.thy ===== *)
theory Load_Room
  imports Elf_Steps Allocate_Room Kernel_Requests
begin

unbundle bit_operations_syntax

text \<open>
  How much memory it takes to give the segments of a program their pages: one page of RAM for each
  page, and at most one second-level table for each section a segment touches.  With that much room
  in the allocator the pages are found, and loading goes on to the copy.
\<close>

subsection \<open>Segments with room\<close>

definition segment_cost :: "Elf32_Phdr \<Rightarrow> nat" where
  "segment_cost p =
     (if p_type p = PT_LOAD then pages_cost (p_vaddr p) (get_num_allocation_units (p_memsz p) GPage) else 0)"

definition load_cost :: "memory \<Rightarrow> u32 \<Rightarrow> nat \<Rightarrow> nat" where
  "load_cost m h i = (\<Sum>j \<in> {i..<phnum m h}. segment_cost (phdr_at m h j))"

definition segment_aligned :: "Elf32_Phdr \<Rightarrow> bool" where
  "segment_aligned p \<longleftrightarrow> (p_type p = PT_LOAD \<longrightarrow> p_vaddr p AND (PAGE_SIZE - 1) = 0)"

lemma load_segment_room:
  assumes wf: "pt_wf pt s" and l: "unlocked pt s" and rc: "reference_counted pt"
    and seg: "segment_in_range p" "segment_aligned p" and free: "\<forall>q \<in> segment_pages p. pview pt s q = VFree"
    and room: "room 1 (segment_cost p + 2) s"
  obtains s' where "load_segment pt p s = Ok True s'" "allocates pt (segment_pages p) s s'"
    "change pt s s'" "spends (segment_cost p) s s'" "filled pt (segment_pages p) s'"
proof (cases "p_type p = PT_LOAD")
  case False
  then show thesis
    using that [of s] allocates_refl [OF wf] change_refl [OF wf]
    by (simp add: load_segment_def segment_pages_def segment_cost_def spends_refl)
next
  case True
  let ?n = "get_num_allocation_units (p_memsz p) GPage"
  have r: "in_range GPage (p_vaddr p) ?n" using seg(1) True by (simp add: segment_in_range_def)
  have res: "reservable pt GPage (p_vaddr p) ?n s"
    using free True by (simp add: reservable_def segment_pages_def)
  have cost: "segment_cost p = pages_cost (p_vaddr p) ?n" using True by (simp add: segment_cost_def)
  obtain s' where s': "reserve_allocate_at pt (p_vaddr p) ?n GPage s = Ok (Success (unit_address GPage (p_vaddr p))) s'"
    "spends (pages_cost (p_vaddr p) ?n) s s'" "filled pt (unit_range GPage (p_vaddr p) ?n) s'"
    using reserve_allocate_at_room [OF wf l rc r res] room unfolding cost by blast
  have dv: "gran_pages GPage dvd npages s" by simp
  have "allocates pt (segment_pages p) s s'"
    using reserve_allocate_at_cases [OF wf l rc dv r] res s'(1) True by (auto simp: segment_pages_def)
  moreover have rd: "ready pt s" using wf l by (simp add: ready_def)
  have "change pt s s'"
    using request_ends [OF rd, of "Reserve_allocate_at (p_vaddr p) ?n GPage"] s'(1) r rc by auto
  ultimately show thesis
    using that s' seg(2) True by (simp add: load_segment_def cost segment_aligned_def segment_pages_def)
qed

lemma load_cost_step: "i < phnum m h \<Longrightarrow> load_cost m h i = segment_cost (phdr_at m h i) + load_cost m h (Suc i)"
  using atLeastLessThan_insert_low [of i] by (simp add: load_cost_def)

lemma load_cost_same: "headers_same m' m h \<Longrightarrow> load_cost m' h i = load_cost m h i"
  using headers_sameD(2,4) [of m' m h] by (simp add: load_cost_def)

text \<open>The program headers of a file that can be loaded into a table with these pages free.\<close>

definition segments_ok :: "memory \<Rightarrow> u32 \<Rightarrow> bool" where
  "segments_ok m h \<longleftrightarrow>
     (\<forall>j < phnum m h. segment_in_range (phdr_at m h j) \<and> segment_aligned (phdr_at m h j)) \<and>
     (\<forall>k < phnum m h. \<forall>j < k. segment_pages (phdr_at m h j) \<inter> segment_pages (phdr_at m h k) = {})"

lemma segments_ok_same: "headers_same m' m h \<Longrightarrow> segments_ok m' h \<longleftrightarrow> segments_ok m h"
  using headers_sameD(2,4) [of m' m h] by (simp add: segments_ok_def)

lemma segments_later:
  assumes "segments_ok m h" "i < phnum m h"
  shows "segment_pages (phdr_at m h i) \<inter> load_pages m h (Suc i) = {}"
proof -
  have "segment_pages (phdr_at m h i) \<inter> segment_pages (phdr_at m h j) = {}" if "j \<in> {Suc i..<phnum m h}" for j
    using assms that by (simp add: segments_ok_def)
  then show ?thesis unfolding load_pages_def by blast
qed

lemma load_segments_room:
  assumes "pt_wf pt s" "unlocked pt s" "reference_counted pt" "headers_safe pt h s" "segments_ok (mem s) h"
    and "\<forall>q \<in> load_pages (mem s) h i. pview pt s q = VFree" and "room 1 (load_cost (mem s) h i + 2) s"
  shows "\<exists>s'. load_segments pt h i s = Ok True s' \<and> loads pt h i s s' \<and> headers_same (mem s') (mem s) h \<and>
    change pt s s' \<and> spends (load_cost (mem s) h i) s s' \<and> filled pt (load_pages (mem s) h i) s'"
  using assms
proof (induction "phnum (mem s) h - i" arbitrary: i s)
  case 0
  then have i: "\<not> i < phnum (mem s) h" by simp
  then have "load_segments pt h i s = Ok True s" by (subst load_segments_step) simp
  then show ?case
    using loads_refl [OF 0(2) i] change_refl [OF 0(2)] i by (simp add: load_cost_def load_pages_end spends_refl)
next
  case (Suc k)
  let ?p = "phdr_at (mem s) h i"
  have i: "i < phnum (mem s) h" using Suc(2) by simp
  note lp = load_pages_step [OF i] and lc = load_cost_step [OF i]
  have seg: "segment_in_range ?p" "segment_aligned ?p" using Suc.prems(5) i by (simp_all add: segments_ok_def)
  have free: "\<forall>q \<in> segment_pages ?p. pview pt s q = VFree" using Suc.prems(6) lp by simp
  have "room 1 (segment_cost ?p + 2) s" using room_mono [OF Suc.prems(7)] lc by simp
  then obtain t where t: "load_segment pt ?p s = Ok True t" "allocates pt (segment_pages ?p) s t" "change pt s t"
    "spends (segment_cost ?p) s t" "filled pt (segment_pages ?p) t"
    using load_segment_room [OF Suc.prems(1-3) seg free] by blast
  note ah = allocates_headers [OF t(2) Suc.prems(4)]
  note hs = headers_sameD(2) [OF ah(1)] load_pages_same [OF ah(1)] load_cost_same [OF ah(1)]
  have w: "pt_wf pt t" "unlocked pt t" using t(2) Suc.prems(2) by (simp_all add: allocates_def unlocked_def)
  have ok: "segments_ok (mem t) h" using Suc.prems(5) segments_ok_same [OF ah(1)] by simp
  have "pview pt t q = VFree" if q: "q \<in> load_pages (mem s) h (Suc i)" for q
  proof -
    have "q \<notin> segment_pages ?p" using segments_later [OF Suc.prems(5) i] q by blast
    then have "pview pt t q = pview pt s q" using t(2) by (simp add: allocates_def)
    then show ?thesis using Suc.prems(6) q lp by simp
  qed
  then have later: "\<forall>q \<in> load_pages (mem t) h (Suc i). pview pt t q = VFree" by (simp add: hs)
  have "room 1 (load_cost (mem t) h (Suc i) + 2) t"
    using spends_room [OF t(4), of 1 "load_cost (mem s) h (Suc i) + 2"] Suc.prems(7) by (simp add: hs lc ac_simps)
  moreover have "k = phnum (mem t) h - Suc i" using Suc(2) by (simp add: hs)
  ultimately obtain u where u: "load_segments pt h (Suc i) t = Ok True u" "loads pt h (Suc i) t u"
    "headers_same (mem u) (mem t) h" "change pt t u" "spends (load_cost (mem t) h (Suc i)) t u"
    "filled pt (load_pages (mem t) h (Suc i)) u"
    using Suc.hyps(1) [of t "Suc i"] w Suc.prems(3) ah(2) ok later by blast
  have "load_segments pt h i s = Ok True u" using i t(1) u(1) by (subst load_segments_step) simp
  moreover have "spends (load_cost (mem s) h i) s u" using spends_trans [OF t(4) u(5)] by (simp add: hs lc)
  moreover have "filled pt (load_pages (mem s) h i) u"
    using filled_stays [OF t(2,5), of "load_pages (mem s) h (Suc i)" u] u(2,6) segments_later [OF Suc.prems(5) i]
    by (simp add: lp filled_Un loads_def hs)
  ultimately show ?case
    using loads_step [OF i t(2) free ah(1) u(2)] headers_same_trans [OF u(3) ah(1)] change_trans [OF t(3) u(4)]
    by blast
qed

subsection \<open>Files that are turned down\<close>

text \<open>
  With room, a segment is turned down just when it is not aligned or one of its pages is taken; the
  segments before it keep the pages they got.
\<close>

lemma load_segment_refused:
  assumes wf: "pt_wf pt s" and l: "unlocked pt s" and rc: "reference_counted pt" and r: "segment_in_range p"
    and bad: "\<not> (segment_aligned p \<and> (\<forall>q \<in> segment_pages p. pview pt s q = VFree))"
  shows "\<exists>t. load_segment pt p s = Ok False t \<and> mem t = mem s"
proof (cases "segment_aligned p")
  case False
  then show ?thesis by (simp add: load_segment_def segment_aligned_def)
next
  case True
  let ?n = "get_num_allocation_units (p_memsz p) GPage"
  have load: "p_type p = PT_LOAD" using bad True by (auto simp: segment_pages_def split: if_splits)
  have dv: "gran_pages GPage dvd npages s" and r': "in_range GPage (p_vaddr p) ?n"
    using r load by (simp_all add: segment_in_range_def)
  have "\<not> reservable pt GPage (p_vaddr p) ?n s" using bad True load by (auto simp: reservable_def segment_pages_def)
  then have "reserve_allocate_at pt (p_vaddr p) ?n GPage s = Ok Failure s"
    using reserve_allocate_at_cases [OF wf l rc dv r'] by simp
  then show ?thesis using True load by (simp add: load_segment_def segment_aligned_def)
qed

definition segments_fit :: "PageTable \<Rightarrow> u32 \<Rightarrow> nat \<Rightarrow> kstate \<Rightarrow> bool" where
  "segments_fit pt h i s \<longleftrightarrow> (\<forall>j \<in> {i..<phnum (mem s) h}. segment_aligned (phdr_at (mem s) h j)) \<and>
     (\<forall>k \<in> {i..<phnum (mem s) h}. \<forall>j \<in> {i..<k}.
        segment_pages (phdr_at (mem s) h j) \<inter> segment_pages (phdr_at (mem s) h k) = {}) \<and>
     (\<forall>q \<in> load_pages (mem s) h i. pview pt s q = VFree)"

lemma segments_fit_all:
  assumes "\<forall>j < phnum (mem s) h. segment_in_range (phdr_at (mem s) h j)"
  shows "segments_fit pt h 0 s \<longleftrightarrow> segments_ok (mem s) h \<and> (\<forall>q \<in> load_pages (mem s) h 0. pview pt s q = VFree)"
  using assms unfolding segments_fit_def segments_ok_def atLeast0LessThan Ball_def lessThan_iff by blast

lemma segments_fit_step:
  assumes i: "i < phnum (mem s) h" and al: "segment_aligned (phdr_at (mem s) h i)"
    and free: "\<forall>q \<in> segment_pages (phdr_at (mem s) h i). pview pt s q = VFree"
    and a: "allocates pt (segment_pages (phdr_at (mem s) h i)) s t" and same: "headers_same (mem t) (mem s) h"
    and rest: "segments_fit pt h (Suc i) t"
  shows "segments_fit pt h i s"
proof -
  let ?n = "phnum (mem s) h" and ?seg = "\<lambda>j. segment_pages (phdr_at (mem s) h j)"
  let ?L = "load_pages (mem s) h (Suc i)"
  note hs = headers_sameD(2,4) [OF same] load_pages_same [OF same] atLeastLessThan_insert_low [OF i]
  have B: "\<forall>q \<in> ?L. pview pt t q = VFree" "\<forall>j \<in> {Suc i..<?n}. segment_aligned (phdr_at (mem s) h j)"
    "\<And>j k. Suc i \<le> j \<Longrightarrow> j < k \<Longrightarrow> k < ?n \<Longrightarrow> ?seg j \<inter> ?seg k = {}"
    using rest unfolding segments_fit_def by (simp_all add: hs(1-3))
  have disj: "?seg i \<inter> ?L = {}"
    using a B(1) unfolding allocates_def by (metis disjoint_iff page_view.distinct(9))
  have "pview pt s q = VFree" if q: "q \<in> ?L" for q
  proof -
    have "pview pt t q = pview pt s q" using q disj a by (auto simp: allocates_def)
    then show ?thesis using B(1) q by simp
  qed
  moreover have "?seg j \<inter> ?seg k = {}" if jk: "i \<le> j" "j < k" "k < ?n" for j k
  proof (cases "j = i")
    case True
    then have "k \<in> {Suc i..<?n}" using jk by simp
    then have "?seg k \<subseteq> ?L" unfolding load_pages_def by blast
    then show ?thesis using disj True by blast
  next
    case False
    then show ?thesis using B(3) jk by simp
  qed
  ultimately show ?thesis
    using al free B(2) unfolding segments_fit_def load_pages_step [OF i] hs(4) by auto
qed

lemma load_segments_refuse:
  assumes "pt_wf pt s" "unlocked pt s" "reference_counted pt" "headers_safe pt h s"
    and "\<forall>j < phnum (mem s) h. segment_in_range (phdr_at (mem s) h j)"
    and "\<not> segments_fit pt h i s" and "room 1 (load_cost (mem s) h i + 2) s"
  shows "\<exists>t. load_segments pt h i s = Ok False t \<and> (\<forall>b. safe_byte pt s b \<longrightarrow> mem t b = mem s b)"
  using assms
proof (induction "phnum (mem s) h - i" arbitrary: i s)
  case 0
  then show ?case by (simp add: segments_fit_def load_pages_end)
next
  case (Suc k)
  let ?p = "phdr_at (mem s) h i"
  have i: "i < phnum (mem s) h" using Suc(2) by simp
  have run: "load_segments pt h i s
      = bind_ok (load_segment pt ?p s) (\<lambda>success s. if success then load_segments pt h (i + 1) s else Ok False s)"
    using i by (subst load_segments_step) simp
  have r: "segment_in_range ?p" using Suc.prems(5) i by simp
  show ?case
  proof (cases "segment_aligned ?p \<and> (\<forall>q \<in> segment_pages ?p. pview pt s q = VFree)")
    case False
    then show ?thesis using load_segment_refused [OF Suc.prems(1-3) r] run by auto
  next
    case True
    note lc = load_cost_step [OF i]
    have "room 1 (segment_cost ?p + 2) s" using room_mono [OF Suc.prems(7)] lc by simp
    then obtain t where t: "load_segment pt ?p s = Ok True t" "allocates pt (segment_pages ?p) s t"
      "spends (segment_cost ?p) s t"
      using load_segment_room [OF Suc.prems(1-3) r] True by blast
    note ah = allocates_headers [OF t(2) Suc.prems(4)]
    note hs = headers_sameD(2,4) [OF ah(1)] load_cost_same [OF ah(1)]
    have w: "pt_wf pt t" "unlocked pt t" using t(2) Suc.prems(2) by (simp_all add: allocates_def unlocked_def)
    have k: "k = phnum (mem t) h - Suc i" using Suc(2) hs(1) by simp
    have r: "\<forall>j < phnum (mem t) h. segment_in_range (phdr_at (mem t) h j)" using Suc.prems(5) hs by simp
    have bad: "\<not> segments_fit pt h (Suc i) t"
      using segments_fit_step [OF i _ _ t(2) ah(1)] True Suc.prems(6) by blast
    have "room 1 (load_cost (mem t) h (Suc i) + 2) t"
      using spends_room [OF t(3), of 1 "load_cost (mem s) h (Suc i) + 2"] Suc.prems(7) by (simp add: hs lc ac_simps)
    then obtain u where u: "load_segments pt h (Suc i) t = Ok False u" "\<forall>b. safe_byte pt t b \<longrightarrow> mem u b = mem t b"
      using Suc.hyps(1) [OF k w Suc.prems(3) ah(2) r bad] by blast
    then show ?thesis using run t(1) allocates_byte [OF t(2)] by simp
  qed
qed

end
