(* ===== verification/Image.thy ===== *)
theory Image
  imports Load_Room Elf_Correct
begin

unbundle bit_operations_syntax

text \<open>
  A program image in memory: its headers, its sections, and the two phases of loading it.  Giving the
  segments their pages leaves the image as it is; each section then arrives, byte by byte, in pages
  that are new, and nothing else in memory changes.
\<close>

subsection \<open>Images\<close>

definition loadable :: "Elf32_Shdr \<Rightarrow> bool" where
  "loadable sec \<longleftrightarrow> sh_type sec = SHT_PROGBITS \<and> sh_flags sec AND SHF_ALLOC \<noteq> 0"

definition shnum :: "memory \<Rightarrow> u32 \<Rightarrow> nat" where
  "shnum m h = unat (e_shnum (read_ehdr m h))"

definition shdr_address :: "memory \<Rightarrow> u32 \<Rightarrow> nat \<Rightarrow> u32" where
  "shdr_address m h i = h + e_shoff (read_ehdr m h) + of_nat i * of_nat sizeof_Elf32_Shdr"

text \<open>The bytes that are copied: number \<open>k\<close> of section \<open>j\<close>, where it lies in the image and where it goes.\<close>

definition loaded_bytes :: "memory \<Rightarrow> u32 \<Rightarrow> (nat \<times> nat) set" where
  "loaded_bytes m h =
     {(j, k). j < shnum m h \<and> loadable (shdr_at m h j) \<and> k < unat (sh_size (shdr_at m h j))}"

fun byte_source :: "memory \<Rightarrow> u32 \<Rightarrow> nat \<times> nat \<Rightarrow> u32" where
  "byte_source m h (j, k) = h + sh_offset (shdr_at m h j) + of_nat k"

fun byte_target :: "memory \<Rightarrow> u32 \<Rightarrow> nat \<times> nat \<Rightarrow> u32" where
  "byte_target m h (j, k) = sh_addr (shdr_at m h j) + of_nat k"

definition header_bytes :: "memory \<Rightarrow> u32 \<Rightarrow> u32 set" where
  "header_bytes m h = {h + of_nat k | k. k < sizeof_Elf32_Ehdr} \<union>
     {phdr_address m h j + of_nat k | j k. j < phnum m h \<and> k < sizeof_Elf32_Phdr} \<union>
     {shdr_address m h j + of_nat k | j k. j < shnum m h \<and> k < sizeof_Elf32_Shdr}"

definition image_bytes :: "memory \<Rightarrow> u32 \<Rightarrow> u32 set" where
  "image_bytes m h = header_bytes m h \<union> byte_source m h ` loaded_bytes m h"

text \<open>An image reads the same as long as its header bytes are the same.\<close>

lemma read_shdr_same: "same_bytes m' m a sizeof_Elf32_Shdr \<Longrightarrow> read_shdr m' a = read_shdr m a"
proof -
  assume "same_bytes m' m a sizeof_Elf32_Shdr"
  then have s: "\<forall>k < 40. m' (a + of_nat k) = m (a + of_nat k)"
    by (simp add: same_bytes_def sizeof_Elf32_Shdr_def)
  note l = load_at(1) [OF s]
  show ?thesis
    using l [of 0] l [of 4] l [of 8] l [of 12] l [of 16] l [of 20] l [of 24] l [of 28] l [of 32] l [of 36]
    by (simp add: read_shdr_def)
qed

lemma image_same:
  assumes same: "\<forall>b \<in> header_bytes m h. m' b = m b"
  shows "headers_same m' m h" "shnum m' h = shnum m h" "j < shnum m h \<Longrightarrow> shdr_at m' h j = shdr_at m h j"
proof -
  show hs: "headers_same m' m h"
    using same by (auto simp: headers_same_def same_bytes_def header_bytes_def)
  note e = headers_sameD(1) [OF hs]
  show "shnum m' h = shnum m h" by (simp add: shnum_def e)
  show "shdr_at m' h j = shdr_at m h j" if "j < shnum m h"
  proof -
    have "same_bytes m' m (shdr_address m h j) sizeof_Elf32_Shdr"
      using same that by (auto simp: same_bytes_def header_bytes_def)
    then show ?thesis using read_shdr_same by (simp add: shdr_at_def shdr_address_def e)
  qed
qed

lemma image_same_bytes:
  assumes same: "\<forall>b \<in> header_bytes m h. m' b = m b"
  shows "loaded_bytes m' h = loaded_bytes m h"
    "x \<in> loaded_bytes m h \<Longrightarrow> byte_source m' h x = byte_source m h x \<and> byte_target m' h x = byte_target m h x"
    "header_bytes m' h = header_bytes m h" "image_bytes m' h = image_bytes m h"
proof -
  note i = image_same [OF same]
  show lb: "loaded_bytes m' h = loaded_bytes m h" using i(2,3) by (auto simp: loaded_bytes_def)
  show st: "byte_source m' h x = byte_source m h x \<and> byte_target m' h x = byte_target m h x"
    if "x \<in> loaded_bytes m h" for x
    using that i(3) by (auto simp: loaded_bytes_def)
  have "shdr_address m' h = shdr_address m h"
    using headers_sameD(1) [OF i(1)] by (simp add: fun_eq_iff shdr_address_def)
  then show hb: "header_bytes m' h = header_bytes m h"
    using i(2) headers_sameD(2,3) [OF i(1)] by (simp add: header_bytes_def)
  show "image_bytes m' h = image_bytes m h"
    unfolding image_bytes_def hb lb using st by (simp cong: image_cong_simp)
qed

subsection \<open>Copying the sections\<close>

lemma load_sections_step:
  "load_sections tr h i s =
     (if i < shnum (mem s) h then bind_ok (load_section tr h (shdr_at (mem s) h i) s) (\<lambda>_. load_sections tr h (i + 1))
      else Ok () s)"
  by (subst load_sections.simps) (simp add: shnum_def)

lemma vmemcpy_only_mem:
  "vmemcpy tr n a b s = Ok () s' \<Longrightarrow> palloc s' = palloc s \<and> held s' = held s \<and> console s' = console s"
  by (induction tr n a b s rule: vmemcpy.induct) (auto split: option.splits)

text \<open>
  The state \<open>t\<close> in which the copy starts, the pages \<open>F\<close> it may write, and the place \<open>D\<close> of each byte.
\<close>

definition copy_ready :: "PageTable \<Rightarrow> PageTable \<Rightarrow> u32 \<Rightarrow> nat set \<Rightarrow> (nat \<times> nat \<Rightarrow> u32) \<Rightarrow> kstate \<Rightarrow> bool" where
  "copy_ready lower upper h F D t \<longleftrightarrow> pt_wf lower t \<and> pt_wf upper t \<and> nent lower = 2048 \<and> nent upper = 4096 \<and>
     (\<forall>f \<in> F. data_page lower upper t f) \<and> (\<forall>b \<in> image_bytes (mem t) h. frame b \<notin> F) \<and>
     (\<forall>x \<in> loaded_bytes (mem t) h. place lower upper t (byte_source (mem t) h x) = Some (byte_source (mem t) h x) \<and>
        place lower upper t (byte_target (mem t) h x) = Some (D x) \<and> frame (D x) \<in> F) \<and>
     inj_on D (loaded_bytes (mem t) h)"

definition copied :: "nat \<Rightarrow> u32 \<Rightarrow> nat set \<Rightarrow> (nat \<times> nat \<Rightarrow> u32) \<Rightarrow> kstate \<Rightarrow> kstate \<Rightarrow> bool" where
  "copied i h F D t u \<longleftrightarrow> writes F t u \<and>
     (\<forall>a. (\<forall>x \<in> loaded_bytes (mem t) h. a \<noteq> D x) \<longrightarrow> mem u a = mem t a) \<and>
     (\<forall>x \<in> loaded_bytes (mem t) h. fst x < i \<longrightarrow> mem u (D x) = mem t (byte_source (mem t) h x))"

lemma writes_tables_as:
  assumes "copy_ready lower upper h F D t" "writes F t u"
  shows "tables_as lower upper t u" "place lower upper u = place lower upper t"
    "data_page lower upper u = data_page lower upper t" "pt_wf lower u" "pt_wf upper u"
proof -
  have F: "owned t f" "f \<notin> table_frames lower t" "f \<notin> table_frames upper t" if "f \<in> F" for f
    using assms(1) that by (simp_all add: copy_ready_def data_page_def)
  have wf: "pt_wf lower t" "pt_wf upper t" using assms(1) by (simp_all add: copy_ready_def)
  note l = writes_outside [OF wf(1) assms(2) F(1,2)] and u = writes_outside [OF wf(2) assms(2) F(1,3)]
  show "tables_as lower upper t u" using l u by (simp add: tables_as_def)
  show "place lower upper u = place lower upper t" using l u by (simp add: fun_eq_iff place_def table_for_def)
  show "data_page lower upper u = data_page lower upper t" using l u by (simp add: fun_eq_iff data_page_def)
  show "pt_wf lower u" "pt_wf upper u" using l u by simp_all
qed

lemma writes_image:
  assumes r: "copy_ready lower upper h F D t" and w: "writes F t u"
  shows "\<forall>b \<in> image_bytes (mem t) h. mem u b = mem t b" "\<forall>b \<in> header_bytes (mem t) h. mem u b = mem t b"
proof -
  show "\<forall>b \<in> image_bytes (mem t) h. mem u b = mem t b" using r w by (simp add: copy_ready_def writes_def)
  then show "\<forall>b \<in> header_bytes (mem t) h. mem u b = mem t b" by (simp add: image_bytes_def)
qed

text \<open>One section.\<close>

lemma copy_section:
  assumes tr: "obeys_tables tr" and r: "copy_ready lower upper h F D t" and c: "copied i h F D t u"
    and i: "i < shnum (mem t) h"
  shows "\<exists>s'. load_section (tr (coproc (enable_paging lower upper m))) h (shdr_at (mem t) h i) u = Ok () s' \<and>
    copied (Suc i) h F D t s'"
proof -
  let ?sec = "shdr_at (mem t) h i" and ?B = "loaded_bytes (mem t) h"
  let ?tr = "tr (coproc (enable_paging lower upper m))"
  have w: "writes F t u" and before: "\<And>x. x \<in> ?B \<Longrightarrow> fst x < i \<Longrightarrow> mem u (D x) = mem t (byte_source (mem t) h x)"
    using c by (simp_all add: copied_def)
  have n: "nent lower = 2048" "nent upper = 4096" using r by (simp_all add: copy_ready_def)
  note T = writes_tables_as [OF r w] and im = writes_image(1) [OF r w]
  have R: "place lower upper t (byte_source (mem t) h x) = Some (byte_source (mem t) h x)"
    "place lower upper t (byte_target (mem t) h x) = Some (D x)" "frame (D x) \<in> F" "data_page lower upper t (frame (D x))"
    "frame (byte_source (mem t) h x) \<notin> F" "mem u (byte_source (mem t) h x) = mem t (byte_source (mem t) h x)"
    if "x \<in> ?B" for x
    using r im that by (auto simp: copy_ready_def image_bytes_def)
  have inj: "x = y" if "x \<in> ?B" "y \<in> ?B" "D x = D y" for x y
    using r that by (auto simp: copy_ready_def dest: inj_onD)
  show ?thesis
  proof (cases "loadable ?sec")
    case False
    then have "load_section ?tr h ?sec u = Ok () u" by (auto simp: load_section_def loadable_def)
    moreover have "(i, k) \<notin> ?B" for k using False by (simp add: loaded_bytes_def)
    then have "copied (Suc i) h F D t u" using c by (auto simp: copied_def less_Suc_eq)
    ultimately show ?thesis by blast
  next
    case True
    have mem: "(i, k) \<in> ?B \<longleftrightarrow> k < unat (sh_size ?sec)" for k using i True by (simp add: loaded_bytes_def)
    have "\<exists>s'. load_section ?tr h ?sec u = Ok () s' \<and> tables_as lower upper u s' \<and>
        (\<forall>k < unat (sh_size ?sec). mem s' (D (i, k)) = mem u (h + sh_offset ?sec + of_nat k)) \<and>
        (\<forall>x. (\<forall>k < unat (sh_size ?sec). x \<noteq> D (i, k)) \<longrightarrow> mem s' x = mem u x)"
    proof (rule load_section_copies [OF tr T(4,5) n])
      show "sh_type ?sec = SHT_PROGBITS" "sh_flags ?sec AND SHF_ALLOC \<noteq> 0" using True by (simp_all add: loadable_def)
    next
      fix k assume "k < unat (sh_size ?sec)"
      then have k: "(i, k) \<in> ?B" using mem by simp
      show "place lower upper u (h + sh_offset ?sec + of_nat k) = Some (h + sh_offset ?sec + of_nat k)"
        using R(1) [OF k] by (simp add: T(2))
      show "place lower upper u (sh_addr ?sec + of_nat k) = Some (D (i, k)) \<and> data_page lower upper u (frame (D (i, k)))"
        using R(2,4) [OF k] by (simp add: T(2,3))
      fix l assume "l < unat (sh_size ?sec)"
      then have l: "(i, l) \<in> ?B" using mem by simp
      show "D (i, k) \<noteq> h + sh_offset ?sec + of_nat l" using R(3) [OF k] R(5) [OF l] by auto
      show "k = l" if "D (i, k) = D (i, l)" using inj [OF k l that] by simp
    qed
    then obtain s' where s': "load_section ?tr h ?sec u = Ok () s'"
      "\<And>k. (i, k) \<in> ?B \<Longrightarrow> mem s' (D (i, k)) = mem u (byte_source (mem t) h (i, k))"
      "\<And>x. (\<And>k. (i, k) \<in> ?B \<Longrightarrow> x \<noteq> D (i, k)) \<Longrightarrow> mem s' x = mem u x"
      using mem by auto
    have "vmemcpy ?tr (unat (sh_size ?sec)) (sh_addr ?sec) (h + sh_offset ?sec) u = Ok () s'"
      using s'(1) True by (simp add: load_section_def loadable_def)
    note only = vmemcpy_only_mem [OF this]
    have "mem s' b = mem t b" if "frame b \<notin> F" for b
    proof -
      have "b \<noteq> D (i, k)" if "(i, k) \<in> ?B" for k using R(3) [OF that] \<open>frame b \<notin> F\<close> by auto
      then have "mem s' b = mem u b" using s'(3) by blast
      then show ?thesis using w that by (simp add: writes_def)
    qed
    then have ws: "writes F t s'" using only w by (simp add: writes_def)
    have "mem s' (D x) = mem t (byte_source (mem t) h x)" if x: "x \<in> ?B" "fst x < Suc i" for x
    proof (cases "fst x = i")
      case True
      then have e: "x = (i, snd x)" by (metis prod.collapse)
      have "(i, snd x) \<in> ?B" using x(1) e by metis
      from s'(2) [OF this] have "mem s' (D x) = mem u (byte_source (mem t) h x)" using e by metis
      then show ?thesis using R(6) [OF x(1)] by simp
    next
      case False
      have "D x \<noteq> D (i, k)" if "(i, k) \<in> ?B" for k using inj [OF x(1) that] False by (metis fst_conv)
      then have "mem s' (D x) = mem u (D x)" using s'(3) by blast
      then show ?thesis using before [OF x(1)] x(2) False by simp
    qed
    moreover have "mem s' a = mem t a" if "\<forall>x \<in> ?B. a \<noteq> D x" for a
    proof -
      have "mem s' a = mem u a" using s'(3) that by blast
      then show ?thesis using c that by (simp add: copied_def)
    qed
    ultimately have "copied (Suc i) h F D t s'" using ws by (simp add: copied_def)
    then show ?thesis using s'(1) by blast
  qed
qed

lemma copy_sections:
  assumes tr: "obeys_tables tr" and r: "copy_ready lower upper h F D t"
    and c: "copied i h F D t u" and i: "i \<le> shnum (mem t) h"
  shows "\<exists>u'. load_sections (tr (coproc (enable_paging lower upper m))) h i u = Ok () u' \<and>
    copied (shnum (mem t) h) h F D t u'"
  using c i
proof (induction "shnum (mem t) h - i" arbitrary: i u)
  case 0
  have "writes F t u" using 0(2) by (simp add: copied_def)
  note im = image_same(2) [OF writes_image(2) [OF r this]]
  have "i = shnum (mem t) h" using 0(1,3) by simp
  then show ?case using 0(2) im by (subst load_sections_step) simp
next
  case (Suc k)
  have "writes F t u" using Suc(3) by (simp add: copied_def)
  note im = image_same(2,3) [OF writes_image(2) [OF r this]]
  have i: "i < shnum (mem t) h" using Suc(2) by simp
  obtain s' where s': "load_section (tr (coproc (enable_paging lower upper m))) h (shdr_at (mem t) h i) u = Ok () s'"
    "copied (Suc i) h F D t s'"
    using copy_section [OF tr r Suc(3) i] by blast
  have "k = shnum (mem t) h - Suc i" "Suc i \<le> shnum (mem t) h" using Suc(2) i by simp_all
  then show ?case
    using Suc.hyps(1) [OF _ s'(2)] s'(1) im i by (subst load_sections_step) simp
qed

subsection \<open>Loading a whole image\<close>

text \<open>
  A file that can be loaded: header sizes of the format, segments that are aligned and apart, in the
  upper half of the address space, and sections that lie in them, no two bytes at one address.
\<close>

definition well_linked :: "memory \<Rightarrow> u32 \<Rightarrow> bool" where
  "well_linked m h \<longleftrightarrow> e_phentsize (read_ehdr m h) = 32 \<and> e_shentsize (read_ehdr m h) = 40 \<and>
     e_shnum (read_ehdr m h) \<noteq> 0xffff \<and> segments_ok m h \<and> (\<forall>p \<in> load_pages m h 0. 0x80000 \<le> p) \<and>
     (\<forall>x \<in> loaded_bytes m h. frame (byte_target m h x) \<in> load_pages m h 0) \<and>
     inj_on (byte_target m h) (loaded_bytes m h)"

text \<open>The image lies in pages of its own and is mapped to itself.\<close>

definition image_in_place :: "PageTable \<Rightarrow> PageTable \<Rightarrow> u32 \<Rightarrow> kstate \<Rightarrow> bool" where
  "image_in_place lower upper h s \<longleftrightarrow>
     (\<forall>b \<in> image_bytes (mem s) h. data_page lower upper s (frame b) \<and> place lower upper s b = Some b)"

lemma books_writes:
  assumes b: "books T outside s" and w: "writes F s t"
    and F: "\<And>f. f \<in> F \<Longrightarrow> owned s f" "\<And>f pt. f \<in> F \<Longrightarrow> pt \<in> T \<Longrightarrow> f \<notin> table_frames pt s"
  shows "books T outside t" "pt \<in> T \<Longrightarrow> undisturbed pt s t"
proof -
  note B = booksD [OF b] and c = writes_counts [OF w F(1)]
  have T: "pt_wf p t" "pview p t = pview p s" "table_frames p t = table_frames p s" if "p \<in> T" for p
    using writes_outside [OF B(5) [OF that] w F(1) F(2) [OF _ that]] by simp_all
  have h: "held t = held s" using w by (simp add: writes_def)
  have "ready p t" if "p \<in> T" for p using B(4) [OF that] T(1) [OF that] h by (simp add: ready_def unlocked_def)
  moreover have "(\<Sum>p \<in> T. refs p t f) = (\<Sum>p \<in> T. refs p s f)" for f
    by (rule undisturbed_sum) (simp add: undisturbed_def T)
  ultimately show "books T outside t"
    using B(1-3,6-8) T h c unfolding books_def by simp
  show "pt \<in> T \<Longrightarrow> undisturbed pt s t" using T by (simp add: undisturbed_def)
qed

lemma phys_address_inj:
  assumes "phys_address f va = phys_address f vb" "frame va = frame vb" "f < 2 ^ 20"
  shows "va = vb"
proof -
  have e: "unat (phys_address f v) = f * 4096 + unat v mod 4096" for v
  proof -
    have "unat v mod 4096 < 4096" by simp
    then have "f * 4096 + unat v mod 4096 < 2 ^ 32" using assms(3) by simp
    then show ?thesis unfolding phys_address_def by (rule unat_of_nat32)
  qed
  have "unat va mod 4096 = unat vb mod 4096" using e [of va] e [of vb] assms(1) by simp
  moreover have "unat va div 4096 = unat vb div 4096" using assms(2) by (simp only: frame_def)
  ultimately have "unat va = unat vb" by (metis div_mult_mod_eq)
  then show ?thesis by (simp add: word_eq_iff_unat32)
qed

text \<open>After the segments have their pages, the copy can start.\<close>

definition segment_frames :: "PageTable \<Rightarrow> u32 \<Rightarrow> kstate \<Rightarrow> nat set" where
  "segment_frames pt h t = {f. \<exists>p \<in> load_pages (mem t) h 0. pview pt t p = VMapped f}"

definition landing :: "PageTable \<Rightarrow> PageTable \<Rightarrow> u32 \<Rightarrow> kstate \<Rightarrow> nat \<times> nat \<Rightarrow> u32" where
  "landing lower upper h t x = the (place lower upper t (byte_target (mem t) h x))"

lemma place_upper: "0x80000 \<le> frame va \<Longrightarrow> place lower upper t va =
    (case pview upper t (frame va) of VMapped f \<Rightarrow> Some (phys_address f va) | _ \<Rightarrow> None)"
proof -
  assume "0x80000 \<le> frame va"
  then have "\<not> unat va < 2 ^ 31" by (simp add: frame_def)
  then show ?thesis by (simp add: place_def table_for_def)
qed

lemma segment_place:
  assumes a: "allocates upper P s t" and p: "frame va \<in> P" "0x80000 \<le> frame va"
  obtains f where "pview upper t (frame va) = VMapped f" "place lower upper t va = Some (phys_address f va)"
    "frame (phys_address f va) = f" "f < 2 ^ 20"
proof -
  obtain f where f: "pview upper t (frame va) = VMapped f" "owned t f"
    using a p(1) unfolding allocates_def by blast
  have wf: "pt_wf upper t" using a by (rule allocates_wf)
  have lt: "f < 2 ^ 20" using owned_less [OF f(2)] pa_wfD(2) [OF pt_wfD(1) [OF wf]] by (rule less_trans)
  then show thesis using that [OF f(1)] f(1) p(2) frame_phys_address [OF lt] by (simp add: place_upper)
qed

text \<open>No two addresses of the segments are at one place.\<close>

lemma segment_place_inj:
  assumes a: "allocates upper P s t" and p: "\<forall>p \<in> P. 0x80000 \<le> p" "frame va \<in> P" "frame vb \<in> P"
    and e: "place lower upper t va = place lower upper t vb"
  shows "va = vb"
proof -
  have hi: "0x80000 \<le> frame va" "0x80000 \<le> frame vb" using p by blast+
  obtain f where f: "pview upper t (frame va) = VMapped f" "place lower upper t va = Some (phys_address f va)"
    "frame (phys_address f va) = f" "f < 2 ^ 20"
    by (rule segment_place [OF a p(2) hi(1), of lower])
  obtain g where g: "pview upper t (frame vb) = VMapped g" "place lower upper t vb = Some (phys_address g vb)"
    "frame (phys_address g vb) = g"
    by (rule segment_place [OF a p(3) hi(2), of lower])
  have ad: "phys_address f va = phys_address g vb" using e f(2) g(2) by simp
  then have fg: "f = g" using f(3) g(3) by simp
  have "\<forall>p \<in> P. \<forall>q \<in> P. pview upper t p = pview upper t q \<longrightarrow> p = q"
    using a unfolding allocates_def by (elim conjE)
  then have "frame va = frame vb" using p(2,3) f(1) g(1) fg by simp
  then show ?thesis using phys_address_inj ad f(4) fg by blast
qed

lemma landing_place:
  assumes a: "allocates upper (load_pages (mem t) h 0) s t" and w: "well_linked (mem t) h"
    and x: "x \<in> loaded_bytes (mem t) h"
  shows "place lower upper t (byte_target (mem t) h x) = Some (landing lower upper h t x)"
    "frame (landing lower upper h t x) \<in> segment_frames upper h t"
proof -
  have p: "frame (byte_target (mem t) h x) \<in> load_pages (mem t) h 0" "0x80000 \<le> frame (byte_target (mem t) h x)"
    using w x by (auto simp: well_linked_def)
  obtain f where f: "pview upper t (frame (byte_target (mem t) h x)) = VMapped f"
    "place lower upper t (byte_target (mem t) h x) = Some (phys_address f (byte_target (mem t) h x))"
    "frame (phys_address f (byte_target (mem t) h x)) = f"
    by (rule segment_place [OF a p, of lower])
  then show "place lower upper t (byte_target (mem t) h x) = Some (landing lower upper h t x)" by (simp add: landing_def)
  then show "frame (landing lower upper h t x) \<in> segment_frames upper h t"
    using f p(1) by (auto simp: segment_frames_def)
qed

lemma segments_copy_ready:
  assumes b: "books {lower, upper} outside t" and ne: "lower \<noteq> upper" and n: "nent lower = 2048" "nent upper = 4096"
    and a: "allocates upper (load_pages (mem s) h 0) s t" and und: "undisturbed lower s t" and wfl: "pt_wf lower s"
    and free: "\<forall>p \<in> load_pages (mem s) h 0. pview upper s p = VFree"
    and same: "\<forall>b \<in> header_bytes (mem s) h. mem t b = mem s b"
    and w: "well_linked (mem t) h" and img: "image_in_place lower upper h s"
  shows "copy_ready lower upper h (segment_frames upper h t) (landing lower upper h t) t"
proof -
  note A = a [unfolded allocates_def] and B = booksD [OF b]
  note ims = image_same_bytes [OF same]
  have lp: "load_pages (mem t) h 0 = load_pages (mem s) h 0" by (rule load_pages_same [OF image_same(1) [OF same]])
  have a': "allocates upper (load_pages (mem t) h 0) s t" using a by (simp add: lp)
  have wfs: "pt_wf lower t" "pt_wf upper t" using B(5) by simp_all
  have new: "\<not> owned s f" "owned t f" "f \<notin> table_frames upper t" if f: "f \<in> segment_frames upper h t" for f
  proof -
    obtain p where p: "p \<in> load_pages (mem s) h 0" "pview upper t p = VMapped f"
      using f by (auto simp: segment_frames_def lp)
    have "\<forall>p \<in> load_pages (mem s) h 0. \<exists>f. pview upper t p = VMapped f \<and> \<not> owned s f \<and> owned t f \<and> f \<notin> table_frames upper t"
      using A by (elim conjE)
    from bspec [OF this p(1)] show "\<not> owned s f" "owned t f" "f \<notin> table_frames upper t" using p(2) by auto
  qed
  have "data_page lower upper t f" if f: "f \<in> segment_frames upper h t" for f
  proof -
    have "f \<notin> table_frames lower s" using new(1) [OF f] table_frames_owned [OF wfl] by blast
    then show ?thesis using new [OF f] und by (simp add: data_page_def undisturbed_def)
  qed
  moreover have img': "frame c \<notin> segment_frames upper h t" "place lower upper t c = Some c" if c: "c \<in> image_bytes (mem t) h" for c
  proof -
    have c': "data_page lower upper s (frame c)" "place lower upper s c = Some c"
      using img c ims(4) by (simp_all add: image_in_place_def)
    then show "frame c \<notin> segment_frames upper h t" using new(1) by (auto simp: data_page_def)
    have "pview upper t (frame c) = pview upper s (frame c)" if "\<not> unat c < 2 ^ 31"
    proof -
      have "pview upper s (frame c) \<noteq> VFree" using c'(2) that by (auto simp: place_def table_for_def)
      then have "frame c \<notin> load_pages (mem s) h 0" using free by auto
      then show ?thesis using A by blast
    qed
    then show "place lower upper t c = Some c" using c'(2) und
      by (simp add: place_def table_for_def undisturbed_def split: if_splits)
  qed
  moreover have "place lower upper t (byte_source (mem t) h x) = Some (byte_source (mem t) h x)" if "x \<in> loaded_bytes (mem t) h" for x
    using img'(2) that by (simp add: image_bytes_def)
  moreover have "place lower upper t (byte_target (mem t) h x) = Some (landing lower upper h t x) \<and>
      frame (landing lower upper h t x) \<in> segment_frames upper h t" if "x \<in> loaded_bytes (mem t) h" for x
    using landing_place [OF a' w that] by blast
  moreover have "inj_on (landing lower upper h t) (loaded_bytes (mem t) h)"
  proof (rule inj_onI)
    fix x y assume x: "x \<in> loaded_bytes (mem t) h" and y: "y \<in> loaded_bytes (mem t) h"
      and e: "landing lower upper h t x = landing lower upper h t y"
    have "byte_target (mem t) h x = byte_target (mem t) h y"
      by (rule segment_place_inj [OF a', of _ _ lower])
        (use w x y e landing_place(1) [OF a' w] in \<open>simp_all add: well_linked_def\<close>)
    then show "x = y" using w x y by (auto simp: well_linked_def dest: inj_onD)
  qed
  ultimately show ?thesis using wfs n unfolding copy_ready_def by blast
qed

lemma load_elf_run:
  assumes "e_phentsize (read_ehdr (mem s) h) = 32" "e_shentsize (read_ehdr (mem s) h) = 40"
    "e_shnum (read_ehdr (mem s) h) \<noteq> 0xffff"
  shows "load_elf tr h pt s = bind_ok (load_segments pt h 0 s) (\<lambda>success s.
      if \<not> success then Ok Failure s
      else bind_ok (load_sections tr h 0 s) (\<lambda>_ t. Ok (Success (e_entry (read_ehdr (mem t) h))) t))"
  using assms by (simp add: load_elf_def Let_def sizeof_Elf32_Phdr_def sizeof_Elf32_Shdr_def)

lemma well_linked_same:
  assumes same: "\<forall>b \<in> header_bytes m h. m' b = m b"
  shows "well_linked m' h = well_linked m h"
proof -
  note i = image_same [OF same] and b = image_same_bytes [OF same]
  have "inj_on (byte_target m' h) (loaded_bytes m h) = inj_on (byte_target m h) (loaded_bytes m h)"
    by (rule inj_on_cong) (use b(2) in simp)
  then show ?thesis
    using i(1) b(1,2) headers_sameD(1) [OF i(1)] segments_ok_same [OF i(1)] load_pages_same [OF i(1)]
    by (simp add: well_linked_def)
qed

lemma image_headers_safe:
  "image_in_place lower upper h s \<Longrightarrow> headers_safe upper h s"
  unfolding image_in_place_def image_bytes_def header_bytes_def headers_safe_def safe_byte_def data_page_def by blast

text \<open>
  With room for the segments the image is loaded: the entry point is returned, each byte of each
  section is where its virtual address is translated to, the rest of the segments is as the
  allocator left it, owned memory elsewhere and the console are as they were, and the books are right.
\<close>

lemma load_elf_loads:
  assumes tr: "obeys_tables tr" and b: "books {lower, upper} outside s" and ne: "lower \<noteq> upper"
    and n: "nent lower = 2048" "nent upper = 4096" and rc: "reference_counted upper"
    and w: "well_linked (mem s) h" and img: "image_in_place lower upper h s"
    and free: "\<forall>p \<in> load_pages (mem s) h 0. pview upper s p = VFree" and room: "room 1 (load_cost (mem s) h 0 + 2) s"
  obtains u where
    "load_elf (tr (coproc (enable_paging lower upper m))) h upper s = Ok (Success (e_entry (read_ehdr (mem s) h))) u"
    "books {lower, upper} outside u" "undisturbed lower s u"
    "\<forall>x \<in> loaded_bytes (mem s) h.
       \<exists>a. place lower upper u (byte_target (mem s) h x) = Some a \<and> mem u a = mem s (byte_source (mem s) h x)"
    "\<forall>va. frame va \<in> load_pages (mem s) h 0 \<and> va \<notin> byte_target (mem s) h ` loaded_bytes (mem s) h \<longrightarrow>
       (\<exists>a. place lower upper u va = Some a \<and> mem u a = 0xcc)"
    "allocates upper (load_pages (mem s) h 0) s u"
proof -
  note B = booksD [OF b]
  have rd: "pt_wf upper s" "unlocked upper s" "pt_wf lower s" using B(4,5) by (simp_all add: ready_def)
  have ok: "segments_ok (mem s) h" and hdr: "e_phentsize (read_ehdr (mem s) h) = 32"
    "e_shentsize (read_ehdr (mem s) h) = 40" "e_shnum (read_ehdr (mem s) h) \<noteq> 0xffff"
    using w by (simp_all add: well_linked_def)
  obtain t where t: "load_segments upper h 0 s = Ok True t" "loads upper h 0 s t" "change upper s t"
    "filled upper (load_pages (mem s) h 0) t"
    using load_segments_room [OF rd(1,2) rc image_headers_safe [OF img] ok free room] by blast
  have a: "allocates upper (load_pages (mem s) h 0) s t" using t(2) by (simp add: loads_def)
  have data: "mem t c = mem s c" if "data_page lower upper s (frame c)" for c
    using allocates_byte [OF a, of c] that by (simp add: data_page_def safe_byte_def)
  have im: "\<forall>c \<in> image_bytes (mem s) h. mem t c = mem s c" using img data by (simp add: image_in_place_def)
  then have same: "\<forall>c \<in> header_bytes (mem s) h. mem t c = mem s c" by (simp add: image_bytes_def)
  note ims = image_same_bytes [OF same]
  have up: "upper \<in> {lower, upper}" "lower \<in> {lower, upper}" by simp_all
  note bt = books_change(1) [OF b up(1) t(3)] and und = books_change(2) [OF b up(1) t(3) up(2) ne]
  have wt: "well_linked (mem t) h" using w well_linked_same [OF same] by simp
  let ?F = "segment_frames upper h t" and ?D = "landing lower upper h t"
  have r: "copy_ready lower upper h ?F ?D t"
    by (rule segments_copy_ready [OF bt ne n a und rd(3) free same wt img])
  have "copied 0 h ?F ?D t t" by (simp add: copied_def)
  then obtain u where u: "load_sections (tr (coproc (enable_paging lower upper m))) h 0 t = Ok () u"
    "copied (shnum (mem t) h) h ?F ?D t u"
    using copy_sections [OF tr r] by blast
  have wr: "writes ?F t u" using u(2) by (simp add: copied_def)
  have F: "owned t f" "f \<notin> table_frames p t" if "f \<in> ?F" "p \<in> {lower, upper}" for f p
    using r that by (auto simp: copy_ready_def data_page_def)
  have bu: "books {lower, upper} outside u" "undisturbed lower t u"
    using books_writes [OF bt wr] F by blast+
  have e: "read_ehdr (mem u) h = read_ehdr (mem s) h"
    using headers_sameD(1) [OF image_same(1) [OF writes_image(2) [OF r wr]]] headers_sameD(1) [OF image_same(1) [OF same]]
    by simp
  have run: "load_elf (tr (coproc (enable_paging lower upper m))) h upper s = Ok (Success (e_entry (read_ehdr (mem s) h))) u"
    unfolding load_elf_run [OF hdr] by (simp add: t(1) u(1) e)
  have bytes: "\<exists>a. place lower upper u (byte_target (mem s) h x) = Some a \<and> mem u a = mem s (byte_source (mem s) h x)"
    if x: "x \<in> loaded_bytes (mem s) h" for x
  proof -
    have xt: "x \<in> loaded_bytes (mem t) h" "fst x < shnum (mem t) h" using x ims(1) by (auto simp: loaded_bytes_def)
    have "place lower upper u (byte_target (mem s) h x) = Some (?D x)"
      using r xt(1) ims(2) [OF x] writes_tables_as(2) [OF r wr] by (auto simp: copy_ready_def)
    moreover have "mem u (?D x) = mem t (byte_source (mem s) h x)" using u(2) xt ims(2) [OF x] by (simp add: copied_def)
    ultimately show ?thesis using im x by (simp add: image_bytes_def)
  qed
  have keep: "mem u c = mem s c" if c: "owned s (frame c)" "frame c \<notin> table_frames upper s" for c
  proof -
    have "frame c \<notin> ?F"
    proof
      assume "frame c \<in> ?F"
      then obtain p where "p \<in> load_pages (mem s) h 0" "pview upper t p = VMapped (frame c)"
        using load_pages_same [OF image_same(1) [OF same]] by (auto simp: segment_frames_def)
      then have "\<not> owned s (frame c)" using a unfolding allocates_def by (metis page_view.inject)
      then show False using c(1) by simp
    qed
    moreover have "mem t c = mem s c" using allocates_byte [OF a, of c] c by (simp add: safe_byte_def)
    ultimately show ?thesis using wr by (simp add: writes_def)
  qed
  have au: "allocates upper (load_pages (mem s) h 0) s u"
  proof -
    have "pt_wf upper t" using a by (rule allocates_wf)
    note o = writes_outside [OF this wr F(1) [OF _ up(1)] F(2) [OF _ up(1)]]
    have n: "npages u = npages t" "held u = held t" "console u = console t"
      using wr by (simp_all add: writes_def npages_def)
    show ?thesis using a keep unfolding allocates_def by (simp add: o n up)
  qed
  have fill: "\<exists>a. place lower upper u va = Some a \<and> mem u a = 0xcc"
    if va: "frame va \<in> load_pages (mem s) h 0" "va \<notin> byte_target (mem s) h ` loaded_bytes (mem s) h" for va
  proof -
    have lp: "load_pages (mem t) h 0 = load_pages (mem s) h 0" by (rule load_pages_same [OF image_same(1) [OF same]])
    have hi: "\<forall>p \<in> load_pages (mem s) h 0. 0x80000 \<le> p" using w by (simp add: well_linked_def)
    obtain f where f: "pview upper t (frame va) = VMapped f" "place lower upper t va = Some (phys_address f va)"
      "frame (phys_address f va) = f"
      by (rule segment_place [OF a va(1) bspec [OF hi va(1)], of lower])
    have "phys_address f va \<noteq> ?D x" if x: "x \<in> loaded_bytes (mem t) h" for x
    proof
      assume "phys_address f va = ?D x"
      then have e: "place lower upper t va = place lower upper t (byte_target (mem t) h x)"
        using f(2) landing_place(1) [OF a [folded lp] wt x] by simp
      have "frame (byte_target (mem t) h x) \<in> load_pages (mem s) h 0" using wt x by (simp add: well_linked_def lp)
      then have "va = byte_target (mem t) h x" using segment_place_inj [OF a hi va(1) _ e] by blast
      then show False using va(2) x ims(1) ims(2) [of x] by auto
    qed
    then have "mem u (phys_address f va) = mem t (phys_address f va)" using u(2) by (auto simp: copied_def)
    also have "\<dots> = 0xcc" using t(4) va(1) f(1,3) by (auto simp: filled_def)
    finally show ?thesis using f(2) writes_tables_as(2) [OF r wr] by simp
  qed
  show thesis using that [OF run bu(1) undisturbed_trans [OF und bu(2)]] bytes fill au by blast
qed

end
