(* ===== verification/Image_Correct.thy ===== *)
theory Image_Correct
  imports Image Listing_Correct
begin

unbundle bit_operations_syntax

text \<open>
  From power-on to the kernel: a machine whose firmware describes its RAM and whose memory holds the
  loader and a well-linked kernel image ends up in the kernel's entry point, with paging on and every
  byte of the image at its virtual address.
\<close>

subsection \<open>The state in which the image is loaded\<close>

lemma load_pages_less:
  assumes "segments_ok m h" "p \<in> load_pages m h i"
  shows "p < 2 ^ 20"
proof -
  obtain j where j: "j < phnum m h" "p \<in> segment_pages (phdr_at m h j)" using assms(2) by (auto simp: load_pages_def)
  then have "segment_in_range (phdr_at m h j)" using assms(1) by (simp add: segments_ok_def)
  then show ?thesis
    using j(2) by (auto simp: segment_pages_def segment_in_range_def in_range_def unit_range_def split: if_splits)
qed

text \<open>RAM is mapped to itself.\<close>

lemma ram_identity:
  assumes "f < unat memory div 4096"
  shows "f \<in> identity_pages memory"
proof -
  let ?q = "unat memory div 1048576" and ?n = "get_num_allocation_units memory GSection"
  have "unat memory div 4096 \<le> unat ?n * 256"
  proof (cases "memory AND (SECTION_SIZE - 1) = 0")
    case True
    moreover have "mask 20 = (SECTION_SIZE - 1 :: u32)" by (simp add: mask_eq_exp_minus_1)
    ultimately have "unat memory mod 2 ^ 20 = 0" using unat_and_mask [of memory 20] by simp
    then have "unat memory = ?q * 1048576" using div_mult_mod_eq [of "unat memory" 1048576] by simp
    then have "unat memory div 4096 = ?q * 256" by simp
    then show ?thesis using True by (simp add: get_num_allocation_units_def unat_div32)
  next
    case False
    have "unat memory div 1048576 < 4096" by (simp add: div_less_iff_less_mult)
    then have "unat ?n = ?q + 1" using False by (simp add: get_num_allocation_units_def unat_div32 unat_add32)
    moreover have "unat memory div 4096 < (?q + 1) * 256" by (simp add: div_less_iff_less_mult)
    ultimately show ?thesis by simp
  qed
  then show ?thesis using assms by (simp add: identity_pages_def)
qed

lemma boot_image_ready:
  assumes bt: "boot_tables memory lower upper s" and lv: "boot_leaves env memory mm lower upper s"
    and le: "unat (get_num_allocation_units memory GSection) \<le> 512"
    and w: "well_linked mm h" and early: "\<forall>b \<in> image_bytes mm h. early env memory (frame b)"
    and enough: "first_page memory (page_alloc_table_start env) + 14 + load_cost mm h 0 \<le> unat memory div 4096"
  shows "\<forall>b \<in> header_bytes mm h. mem s b = mm b" "well_linked (mem s) h" "image_in_place lower upper h s"
    "\<forall>p \<in> load_pages (mem s) h 0. pview upper s p = VFree" "room 1 (load_cost (mem s) h 0 + 2) s"
proof -
  have lb: "owned s (frame b) \<and> frame b \<notin> table_frames lower s \<and> frame b \<notin> table_frames upper s \<and> mem s b = mm b"
    if "b \<in> image_bytes mm h" for b
    using lv early that by (simp add: boot_leaves_def)
  then show same: "\<forall>b \<in> header_bytes mm h. mem s b = mm b" by (simp add: image_bytes_def)
  note i = image_same [OF same] and ib = image_same_bytes [OF same]
  show ws: "well_linked (mem s) h" using w well_linked_same [OF same] by simp
  have "place lower upper s b = Some b" if b: "b \<in> image_bytes mm h" for b
  proof -
    have f: "frame b \<in> identity_pages memory" using early b by (intro ram_identity) (simp add: early_def)
    then have "frame b < 0x80000" using le by (auto simp: identity_pages_def)
    then have "unat b < 2 ^ 31" by (simp add: frame_def div_less_iff_less_mult)
    then show ?thesis using f by (simp add: boot_place [OF bt])
  qed
  then show "image_in_place lower upper h s" using lb ib(4) by (simp add: image_in_place_def data_page_def)
  have "p div 256 < 4096" if "p \<in> load_pages (mem s) h 0" for p
  proof -
    have "p < 2 ^ 20" using ws that by (intro load_pages_less) (simp_all add: well_linked_def)
    then show ?thesis by (simp add: div_less_iff_less_mult)
  qed
  then show "\<forall>p \<in> load_pages (mem s) h 0. pview upper s p = VFree" using bt by (simp add: boot_tables_def)
  have "load_cost (mem s) h 0 = load_cost mm h 0" by (rule load_cost_same [OF i(1)])
  then show "room 1 (load_cost (mem s) h 0 + 2) s" using lv enough by (simp add: boot_leaves_def room_def)
qed

subsection \<open>Reaching the entry point\<close>

text \<open>The firmware, the memory and the image are as they should be.\<close>

definition fit_to_boot :: "boot_env \<Rightarrow> u32 \<Rightarrow> u32 \<Rightarrow> machine \<Rightarrow> bool" where
  "fit_to_boot env a memory m \<longleftrightarrow> bootable env a memory m \<and> roomy env memory \<and>
     unat (get_num_allocation_units memory GSection) \<le> 512 \<and> well_linked (mem (sys m)) (kernel_image env) \<and>
     (\<forall>b \<in> image_bytes (mem (sys m)) (kernel_image env). early env memory (frame b)) \<and>
     first_page memory (page_alloc_table_start env) + 14 + load_cost (mem (sys m)) (kernel_image env) 0
       \<le> unat memory div 4096"

text \<open>The upper table when the kernel is entered: the pages of the segments are mapped, no others.\<close>

definition kernel_table :: "PageTable \<Rightarrow> nat set \<Rightarrow> kstate \<Rightarrow> bool" where
  "kernel_table pt P s \<longleftrightarrow> ready pt s \<and> (\<forall>p < 2 ^ 20. p \<notin> P \<longrightarrow> pview pt s p = VFree) \<and>
     (\<forall>p \<in> P. \<exists>f. pview pt s p = VMapped f \<and> owned s f) \<and>
     (\<forall>p \<in> P. \<forall>q \<in> P. pview pt s p = pview pt s q \<longrightarrow> p = q)"

lemma loader_reaches_kernel:
  assumes fit: "fit_to_boot env a memory m" and tr: "obeys_tables (mmu env)"
  obtains lower upper m' bs where
    "loader_main env r0 r1 a cpsr m =
      bind_ok (entry_proc env (e_entry (read_ehdr (mem (sys m)) (kernel_image env))) lower upper m')
        (\<lambda>_. on_sys (panic AssertionFailure))"
    "lower \<noteq> upper" "books {lower, upper} (boot_references env memory (stacks m')) (sys m')"
    "paging_on (coproc m')" "interrupts m'" "vector_base m' = ivt_start env"
    "\<forall>x \<in> loaded_bytes (mem (sys m)) (kernel_image env).
      \<exists>p. mmu env (coproc m') (sys m') (byte_target (mem (sys m)) (kernel_image env) x) = Some p \<and>
        mem (sys m') p = mem (sys m) (byte_source (mem (sys m)) (kernel_image env) x)"
    "\<forall>va. frame va \<in> load_pages (mem (sys m)) (kernel_image env) 0 \<and>
        va \<notin> byte_target (mem (sys m)) (kernel_image env) ` loaded_bytes (mem (sys m)) (kernel_image env) \<longrightarrow>
      (\<exists>p. mmu env (coproc m') (sys m') va = Some p \<and> mem (sys m') p = 0xcc)"
    "kernel_table upper (load_pages (mem (sys m)) (kernel_image env) 0) (sys m')"
    "stack_log env memory r0 r1 a cpsr (mem (sys m)) bs"
    "console (sys m') = console (sys m) @ bs @ putline_bytes @ line_of ''Paging enabled'' @
       puthex_bytes (e_entry (read_ehdr (mem (sys m)) (kernel_image env))) @ putline_bytes"
proof -
  have b: "bootable env a memory m" and room: "roomy env memory"
    and le: "unat (get_num_allocation_units memory GSection) \<le> 512"
    and w: "well_linked (mem (sys m)) (kernel_image env)"
    and early: "\<forall>b \<in> image_bytes (mem (sys m)) (kernel_image env). early env memory (frame b)"
    and enough: "first_page memory (page_alloc_table_start env) + 14 + load_cost (mem (sys m)) (kernel_image env) 0
      \<le> unat memory div 4096"
    using fit by (simp_all add: fit_to_boot_def)
  let ?h = "kernel_image env" and ?mm = "mem (sys m)"
  obtain lower upper m1 where run: "loader_main env r0 r1 a cpsr m = start_kernel env lower upper (enable_paging lower upper m1)"
    and bt: "boot_tables memory lower upper (sys m1)" and ints: "interrupts m1" "vector_base m1 = ivt_start env"
    and bk: "books {lower, upper} (boot_references env memory (stacks m1)) (sys m1)" and ne: "lower \<noteq> upper"
    and lv: "boot_leaves env memory ?mm lower upper (sys m1)"
    and log: "\<exists>bs. stack_log env memory r0 r1 a cpsr ?mm bs \<and> console (sys m1) = console (sys m) @ bs @ putline_bytes"
    by (rule loader_enters [OF b room le, of r0 r1 cpsr])
  obtain bs where bs: "stack_log env memory r0 r1 a cpsr ?mm bs" "console (sys m1) = console (sys m) @ bs @ putline_bytes"
    using log by blast
  let ?m2 = "enable_paging lower upper m1"
  have s2: "sys ?m2 = emit (line_of ''Paging enabled'') (sys m1)" by (simp add: enable_paging_def say_def Let_def)
  have bt2: "boot_tables memory lower upper (sys ?m2)" using bt by (simp add: s2 boot_tables_def)
  have lv2: "boot_leaves env memory ?mm lower upper (sys ?m2)" using lv by (simp add: s2 boot_leaves_def)
  have bk2: "books {lower, upper} (boot_references env memory (stacks m1)) (sys ?m2)" using bk by (simp add: s2)
  note R = boot_image_ready [OF bt2 lv2 le w early enough]
  have n: "nent lower = 2048" "nent upper = 4096" "reference_counted upper" using bt by (simp_all add: boot_tables_def)
  obtain u where u: "load_elf (mmu env (coproc ?m2)) ?h upper (sys ?m2) = Ok (Success (e_entry (read_ehdr (mem (sys ?m2)) ?h))) u"
    "books {lower, upper} (boot_references env memory (stacks m1)) u"
    "\<forall>x \<in> loaded_bytes (mem (sys ?m2)) ?h. \<exists>p. place lower upper u (byte_target (mem (sys ?m2)) ?h x) = Some p \<and>
       mem u p = mem (sys ?m2) (byte_source (mem (sys ?m2)) ?h x)"
    "\<forall>va. frame va \<in> load_pages (mem (sys ?m2)) ?h 0 \<and>
        va \<notin> byte_target (mem (sys ?m2)) ?h ` loaded_bytes (mem (sys ?m2)) ?h \<longrightarrow>
       (\<exists>p. place lower upper u va = Some p \<and> mem u p = 0xcc)"
    "allocates upper (load_pages (mem (sys ?m2)) ?h 0) (sys ?m2) u"
    by (rule load_elf_loads [OF tr bk2 ne n R(2-5), of m1])
  let ?e = "e_entry (read_ehdr ?mm ?h)"
  let ?m3 = "say (puthex_bytes ?e @ putline_bytes) (?m2\<lparr>sys := u\<rparr>)"
  have e: "read_ehdr (mem (sys ?m2)) ?h = read_ehdr ?mm ?h" by (rule headers_sameD(1) [OF image_same(1) [OF R(1)]])
  have hw: "mmu env (coproc ?m3) (sys ?m3) va = place lower upper u va" for va
  proof -
    have "pt_wf lower u" "pt_wf upper u" using booksD(5) [OF u(2)] by simp_all
    then have t: "tables_as lower upper u (sys ?m3)" by (simp add: tables_as_def say_def fun_eq_iff)
    show ?thesis using mmu_place [OF tr t n(1,2), of m1 va] by (simp add: say_def)
  qed
  note ib = image_same_bytes [OF R(1)] and lp = load_pages_same [OF image_same(1) [OF R(1)]]
  have sys: "mem (sys ?m3) = mem u" by (simp add: say_def)
  have bytes: "\<exists>p. mmu env (coproc ?m3) (sys ?m3) (byte_target ?mm ?h x) = Some p \<and> mem (sys ?m3) p = ?mm (byte_source ?mm ?h x)"
    if x: "x \<in> loaded_bytes ?mm ?h" for x
  proof -
    have "byte_source ?mm ?h x \<in> image_bytes ?mm ?h" using x by (simp add: image_bytes_def)
    then have "mem (sys ?m2) (byte_source ?mm ?h x) = ?mm (byte_source ?mm ?h x)"
      using lv2 early by (simp add: boot_leaves_def)
    then show ?thesis using bspec [OF u(3), of x] x ib(1) ib(2) [OF x] hw sys by auto
  qed
  have fill: "\<exists>p. mmu env (coproc ?m3) (sys ?m3) va = Some p \<and> mem (sys ?m3) p = 0xcc"
    if va: "frame va \<in> load_pages ?mm ?h 0" "va \<notin> byte_target ?mm ?h ` loaded_bytes ?mm ?h" for va
  proof -
    have "va \<notin> byte_target (mem (sys ?m2)) ?h ` loaded_bytes (mem (sys ?m2)) ?h" using va(2) ib(1,2) by auto
    then show ?thesis using u(4) va(1) lp hw sys by simp
  qed
  have start: "loader_main env r0 r1 a cpsr m = bind_ok (entry_proc env ?e lower upper ?m3) (\<lambda>_. on_sys (panic AssertionFailure))"
    using u(1) e unfolding run by (simp add: start_kernel_def on_sys_def)
  have books: "books {lower, upper} (boot_references env memory (stacks ?m3)) (sys ?m3)" using u(2) by (simp add: say_def)
  have "pview upper (sys ?m2) p = VFree" if "p < 2 ^ 20" for p
    using bt2 that by (simp add: boot_tables_def div_less_iff_less_mult)
  moreover have "ready upper u" using booksD(4) [OF u(2)] by simp
  ultimately have "kernel_table upper (load_pages ?mm ?h 0) u"
    using u(5) unfolding kernel_table_def allocates_def lp by auto
  then have table: "kernel_table upper (load_pages ?mm ?h 0) (sys ?m3)" by (simp add: kernel_table_def say_def)
  have "console u = console (sys ?m2)" using u(5) by (simp add: allocates_def)
  then have "console (sys ?m3) = console (sys m) @ bs @ putline_bytes @ line_of ''Paging enabled'' @ puthex_bytes ?e @ putline_bytes"
    using bs(2) by (simp add: say_def s2)
  moreover have "paging_on (coproc ?m3)" "interrupts ?m3" "vector_base ?m3 = ivt_start env" using ints by (simp_all add: say_def)
  ultimately show thesis using that [OF start ne books] bytes fill table bs(1) by blast
qed

subsection \<open>Properties\<close>

text \<open>
  The kernel runs.  If the firmware's tags describe RAM from 0 with at most 512 sections and room
  for the loader's stacks and tables, and the kernel image linked into the loader is well-formed (header
  sizes of the format, aligned and disjoint segments in the upper half, sections inside of them, no two
  bytes at one address) and fits, then \<open>loader_main\<close> ends up in the image's entry point with both
  tables: paging is on, every byte of every loadable section of the image as it was at power-on is read
  at its virtual address, and the books are right, the references held outside of the tables being the
  loader's own pages and the stacks.  All other bytes of the segments read \<open>0xcc\<close>, the allocator's
  filling: data without contents in the file, which the format says is zero, is not cleared.  Should
  the kernel return, the loader panics.
\<close>

theorem loader_main_runs_kernel:
  assumes fit: "fit_to_boot env a memory m" and tr: "obeys_tables (mmu env)"
  shows "\<exists>lower upper m'. loader_main env r0 r1 a cpsr m =
      bind_ok (entry_proc env (e_entry (read_ehdr (mem (sys m)) (kernel_image env))) lower upper m')
        (\<lambda>_. on_sys (panic AssertionFailure)) \<and>
    lower \<noteq> upper \<and> books {lower, upper} (boot_references env memory (stacks m')) (sys m') \<and>
    paging_on (coproc m') \<and> interrupts m' \<and> vector_base m' = ivt_start env \<and>
    (\<forall>x \<in> loaded_bytes (mem (sys m)) (kernel_image env).
      \<exists>p. mmu env (coproc m') (sys m') (byte_target (mem (sys m)) (kernel_image env) x) = Some p \<and>
        mem (sys m') p = mem (sys m) (byte_source (mem (sys m)) (kernel_image env) x)) \<and>
    (\<forall>va. frame va \<in> load_pages (mem (sys m)) (kernel_image env) 0 \<and>
        va \<notin> byte_target (mem (sys m)) (kernel_image env) ` loaded_bytes (mem (sys m)) (kernel_image env) \<longrightarrow>
      (\<exists>p. mmu env (coproc m') (sys m') va = Some p \<and> mem (sys m') p = 0xcc))"
  by (rule loader_reaches_kernel [OF fit tr, of r0 r1 cpsr]) blast

text \<open>
  C2: all that a boot prints.  When the entry point of the image is the kernel's \<open>kernel_entry\<close>, the run
  ends in the kernel's panic, and the console shows, in this order: the banner and the tags of the
  firmware, the supervisor call, the allocator over RAM, that paging is on, the entry point, and the
  listing of the upper table, in which just the pages of the image's segments are mapped, each to a
  page of its own.
\<close>

theorem boot_output:
  assumes fit: "fit_to_boot env a memory m" and tr: "obeys_tables (mmu env)"
    and entry: "entry_proc env = (\<lambda>e lower upper. on_sys (kernel_entry lower upper))"
  shows "\<exists>ts e upper t. tag_list (mem (sys m)) a ts e \<and> loader_main env r0 r1 a cpsr m = Panic AssertionFailure t \<and>
    kernel_table upper (load_pages (mem (sys m)) (kernel_image env) 0) (sys t) \<and>
    console (sys t) = console (sys m) @ banner r0 r1 a cpsr (mem (sys m)) ts @ exception_bytes env @
      alloc_log memory (page_alloc_table_start env) @ putline_bytes @ line_of ''Paging enabled'' @
      puthex_bytes (e_entry (read_ehdr (mem (sys m)) (kernel_image env))) @ putline_bytes @
      line_of ''Running from higher-half'' @ table_listing upper (sys t) @ panic_bytes AssertionFailure"
proof (rule loader_reaches_kernel [OF fit tr, of r0 r1 cpsr])
  fix lower upper m' bs
  assume run: "loader_main env r0 r1 a cpsr m =
      bind_ok (entry_proc env (e_entry (read_ehdr (mem (sys m)) (kernel_image env))) lower upper m')
        (\<lambda>_. on_sys (panic AssertionFailure))"
    and kt: "kernel_table upper (load_pages (mem (sys m)) (kernel_image env) 0) (sys m')"
    and bs: "stack_log env memory r0 r1 a cpsr (mem (sys m)) bs"
    and out: "console (sys m') = console (sys m) @ bs @ putline_bytes @ line_of ''Paging enabled'' @
       puthex_bytes (e_entry (read_ehdr (mem (sys m)) (kernel_image env))) @ putline_bytes"
  let ?s = "emit (line_of ''Running from higher-half'') (sys m')"
  let ?t = "emit (panic_bytes AssertionFailure) (emit (table_listing upper ?s) ?s)"
  have "pt_wf upper ?s" "unlocked upper ?s" using kt by (simp_all add: kernel_table_def ready_def)
  then have p: "print_table_info upper ?s = Ok () (emit (table_listing upper ?s) ?s)" by (rule print_listing)
  have "kernel_entry lower upper (sys m') = Panic AssertionFailure ?t"
    by (simp add: kernel_entry_def p panic_def)
  then have "loader_main env r0 r1 a cpsr m = Panic AssertionFailure (m'\<lparr>sys := ?t\<rparr>)"
    by (simp add: run entry on_sys_def)
  moreover have "kernel_table upper (load_pages (mem (sys m)) (kernel_image env) 0) ?t" using kt by (simp add: kernel_table_def)
  moreover have "table_listing upper ?t = table_listing upper ?s" by simp
  moreover obtain ts e where "tag_list (mem (sys m)) a ts e" "bs = banner r0 r1 a cpsr (mem (sys m)) ts @
      exception_bytes env @ alloc_log memory (page_alloc_table_start env)"
    using bs by (auto simp: stack_log_def)
  ultimately show ?thesis using out
    by (intro exI [of _ ts] exI [of _ e] exI [of _ upper] exI [of _ "m'\<lparr>sys := ?t\<rparr>"]) simp
qed

text \<open>An image with one segment of one page at \<open>0x80000000\<close> and one section of a word in it, at \<open>0x13000\<close>.\<close>

definition kernel_words :: "(u32 \<times> u32) list" where
  "kernel_words = [(0x13018, 0x80000000), (0x1301c, 0x34), (0x13020, 0x54), (0x13028, 0x00200000), (0x1302c, 0x00280001),
     (0x13030, 1), (0x13034, 1), (0x1303c, 0x80000000), (0x13048, 0x1000), (0x13058, 1), (0x1305c, 2),
     (0x13060, 0x80000000), (0x13064, 0x100), (0x13068, 4), (0x13100, 0x00370000)]"

definition linked :: memory where
  "linked = fold (\<lambda>(a, v). store32 a v) kernel_words (tagged 0 0x80000)"

lemma load32_fold:
  assumes "list_all (\<lambda>(b, v). aligned 2 b) ws" "aligned 2 a"
  shows "load32 (fold (\<lambda>(b, v). store32 b v) ws m) a = (case map_of (rev ws) a of Some v \<Rightarrow> v | None \<Rightarrow> load32 m a)"
  using assms(1)
proof (induction ws rule: rev_induct)
  case (snoc w ws)
  then show ?case using load32_store32_other [of "fst w" a] assms(2) by (cases "fst w = a") (auto split: prod.splits)
qed simp

lemma load16_halves:
  "load16 m a = ucast (load32 m a)" "load16 m (a + 2) = ucast (drop_bit 16 (load32 m a))"
  by (rule bit_word_eqI; auto simp: load16_def load32_def bit_simps add.assoc dest: bit_imp_le_length)+

lemma linked_load:
  "aligned 2 a \<Longrightarrow> load32 linked a = (case map_of (rev kernel_words) a of Some v \<Rightarrow> v | None \<Rightarrow> load32 (tagged 0 0x80000) a)"
  unfolding linked_def by (rule load32_fold) (simp_all add: kernel_words_def aligned_def)

lemma linked_tags: "tag_words linked 0 0x80000"
  using tagged_words [of 0 "0x80000"] by (simp add: tag_words_def linked_load aligned_def kernel_words_def)

lemma linked_headers:
  "e_phentsize (read_ehdr linked 0x13000) = 32" "e_shentsize (read_ehdr linked 0x13000) = 40"
  "e_shnum (read_ehdr linked 0x13000) = 1" "phnum linked 0x13000 = 1" "shnum linked 0x13000 = 1"
  "e_phoff (read_ehdr linked 0x13000) = 0x34" "e_shoff (read_ehdr linked 0x13000) = 0x54"
  "e_entry (read_ehdr linked 0x13000) = 0x80000000"
  using load16_halves [of linked "0x13028"] load16_halves [of linked "0x1302c"] load16_halves [of linked "0x13030"]
  by (simp_all add: phnum_def shnum_def read_ehdr_def linked_load aligned_def kernel_words_def)

lemma linked_segment:
  "p_type (phdr_at linked 0x13000 0) = PT_LOAD" "p_vaddr (phdr_at linked 0x13000 0) = 0x80000000"
  "p_memsz (phdr_at linked 0x13000 0) = 0x1000" "phdr_address linked 0x13000 0 = 0x13034"
  by (simp_all add: phdr_at_def phdr_address_def linked_headers)
    (simp_all add: read_phdr_def PT_LOAD_def linked_load aligned_def kernel_words_def)

lemma linked_section:
  "loadable (shdr_at linked 0x13000 0)" "sh_addr (shdr_at linked 0x13000 0) = 0x80000000"
  "sh_offset (shdr_at linked 0x13000 0) = 0x100" "sh_size (shdr_at linked 0x13000 0) = 4" "shdr_address linked 0x13000 0 = 0x13054"
  by (simp_all add: loadable_def shdr_at_def shdr_address_def linked_headers)
    (simp_all add: read_shdr_def SHT_PROGBITS_def SHF_ALLOC_def linked_load aligned_def kernel_words_def)

lemma linked_one: "get_num_allocation_units 0x1000 GPage = 1"
  by (simp add: get_num_allocation_units_def)

lemma linked_pages: "load_pages linked 0x13000 0 = {0x80000}"
  by (auto simp: load_pages_def linked_headers segment_pages_def linked_segment linked_one unit_range_def unit_base_simps
      frame_def)

lemma linked_bytes: "loaded_bytes linked 0x13000 = {0} \<times> {..<4}"
  using linked_section by (auto simp: loaded_bytes_def linked_headers)

lemma linked_target: "k < 4 \<Longrightarrow> unat (byte_target linked 0x13000 (0, k)) = 0x80000000 + k"
  by (simp add: linked_section unat_add32)

lemma linked_well: "well_linked linked 0x13000"
proof -
  have "segments_ok linked 0x13000"
    by (simp add: segments_ok_def segment_in_range_def segment_aligned_def linked_headers linked_segment linked_one
        in_range_def unit_base_simps frame_def)
  moreover have "inj_on (byte_target linked 0x13000) (loaded_bytes linked 0x13000)"
    using linked_target unfolding linked_bytes by (intro inj_onI) (metis (no_types, lifting) SigmaE add_left_cancel lessThan_iff singletonD)
  ultimately show ?thesis
    using linked_target linked_headers by (auto simp: well_linked_def linked_pages linked_bytes frame_def simp del: byte_target.simps)
qed

text \<open>All of it lies in page \<open>0x13\<close>.\<close>

lemma linked_bounds:
  assumes "b \<in> image_bytes linked 0x13000"
  shows "0x13000 \<le> unat b \<and> unat b < 0x14000"
proof -
  have at: "0x13000 \<le> unat b \<and> unat b < 0x14000" if "b = 0x13000 + of_nat d" "d < 4096" for d
    using that by (simp add: unat_add32)
  consider k where "b = 0x13000 + of_nat k" "k < 52" | k where "b = 0x13034 + of_nat k" "k < 32"
    | k where "b = 0x13054 + of_nat k" "k < 40" | k where "b = 0x13100 + of_nat k" "k < 4"
    using assms linked_segment(4) linked_section(3,5)
    by (auto simp: image_bytes_def header_bytes_def linked_headers linked_bytes
        sizeof_Elf32_Ehdr_def sizeof_Elf32_Phdr_def sizeof_Elf32_Shdr_def)
  then show ?thesis
  proof cases
    case (1 k)
    then show ?thesis by (intro at [of k]) simp_all
  next
    case (2 k)
    then show ?thesis by (intro at [of "52 + k"]) simp_all
  next
    case (3 k)
    then show ?thesis by (intro at [of "84 + k"]) simp_all
  next
    case (4 k)
    then show ?thesis by (intro at [of "256 + k"]) simp_all
  qed
qed

lemma linked_early:
  assumes "b \<in> image_bytes linked 0x13000"
  shows "early pi_env 0x80000 (frame b)"
proof -
  have "frame b = 0x13" using linked_bounds [OF assms] unfolding frame_def by (intro div_nat_eqI) simp_all
  then show ?thesis by (simp add: early_def pi_env_def frame_def)
qed

lemma linked_cost: "load_cost linked 0x13000 0 = 2"
proof -
  have "section_chunks 0x80000000 1 = [(0x80000000, 1)]"
    by (rule one_chunk) (simp_all add: frame_def aligned_def)
  then show ?thesis
    by (simp add: load_cost_def segment_cost_def pages_cost_def linked_headers linked_segment linked_one)
qed

lemma linked_fit: "fit_to_boot pi_env 0x100 0x80000 (pi linked)"
proof -
  have h: "kernel_image pi_env = 0x13000" by (simp add: pi_env_def)
  have "bootable pi_env 0x100 0x80000 (pi linked)" by (rule pi_bootable [OF linked_tags]) simp_all
  then show ?thesis
    using pi_ram(2) linked_well linked_early by (simp add: fit_to_boot_def h pi_sections linked_cost first_page_def frame_def)
qed

theorem loader_main_runs_kernel_witness:
  "\<exists>lower upper m' p q. loader_main pi_env 0 0xc42 0x100 0 (pi linked)
       = bind_ok (entry_proc pi_env 0x80000000 lower upper m') (\<lambda>_. on_sys (panic AssertionFailure)) \<and>
     mmu pi_env (coproc m') (sys m') 0x80000002 = Some p \<and> mem (sys m') p = 0x37 \<and>
     mmu pi_env (coproc m') (sys m') 0x80000010 = Some q \<and> mem (sys m') q = 0xcc"
proof -
  have h: "kernel_image pi_env = 0x13000" by (simp add: pi_env_def)
  obtain lower upper m' where r: "loader_main pi_env 0 0xc42 0x100 0 (pi linked)
      = bind_ok (entry_proc pi_env (e_entry (read_ehdr (mem (sys (pi linked))) (kernel_image pi_env))) lower upper m')
        (\<lambda>_. on_sys (panic AssertionFailure))"
    "\<forall>x \<in> loaded_bytes (mem (sys (pi linked))) (kernel_image pi_env).
      \<exists>p. mmu pi_env (coproc m') (sys m') (byte_target (mem (sys (pi linked))) (kernel_image pi_env) x) = Some p \<and>
        mem (sys m') p = mem (sys (pi linked)) (byte_source (mem (sys (pi linked))) (kernel_image pi_env) x)"
    "\<forall>va. frame va \<in> load_pages (mem (sys (pi linked))) (kernel_image pi_env) 0 \<and>
        va \<notin> byte_target (mem (sys (pi linked))) (kernel_image pi_env) ` loaded_bytes (mem (sys (pi linked))) (kernel_image pi_env) \<longrightarrow>
      (\<exists>p. mmu pi_env (coproc m') (sys m') va = Some p \<and> mem (sys m') p = 0xcc)"
    using loader_main_runs_kernel [OF linked_fit pi_simps(4), of 0 "0xc42" 0] by blast
  have x: "(0, 2) \<in> loaded_bytes linked 0x13000" by (simp add: linked_bytes)
  have t: "byte_target linked 0x13000 (0, 2) = 0x80000002" "byte_source linked 0x13000 (0, 2) = 0x13102"
    using linked_section by simp_all
  have "linked 0x13102 = 0x37" by (simp add: linked_def kernel_words_def store32_def)
  then obtain p where p: "mmu pi_env (coproc m') (sys m') 0x80000002 = Some p" "mem (sys m') p = 0x37"
    using bspec [OF r(2), of "(0, 2)"] x t by (auto simp: h simp del: byte_target.simps byte_source.simps)
  have "unat v < 0x80000004" if "v \<in> byte_target linked 0x13000 ` loaded_bytes linked 0x13000" for v
    using that linked_target by (auto simp: linked_bytes simp del: byte_target.simps)
  then have "(0x80000010 :: u32) \<notin> byte_target linked 0x13000 ` loaded_bytes linked 0x13000" by fastforce
  then obtain q where "mmu pi_env (coproc m') (sys m') 0x80000010 = Some q" "mem (sys m') q = 0xcc"
    using spec [OF r(3), of "0x80000010"] by (auto simp: h linked_pages frame_def)
  then show ?thesis
    using r(1) p linked_headers(8)
    by (intro exI [of _ lower] exI [of _ upper] exI [of _ m'] exI [of _ p] exI [of _ q]) (simp add: h)
qed

text \<open>The same machine, with the kernel's own entry point.\<close>

definition kernel_env :: boot_env where
  "kernel_env = pi_env\<lparr>entry_proc := \<lambda>e lower upper. on_sys (kernel_entry lower upper)\<rparr>"

lemma kernel_fit: "fit_to_boot kernel_env 0x100 0x80000 (pi linked)" "obeys_tables (mmu kernel_env)"
  using linked_fit pi_simps(4)
  by (simp_all add: kernel_env_def fit_to_boot_def bootable_def roomy_def early_def)

theorem boot_output_witness:
  "\<exists>t ts log. loader_main kernel_env 0 0xc42 0x100 0 (pi linked) = Panic AssertionFailure t \<and>
     console (sys t) = banner 0 0xc42 0x100 0 linked ts @ log @ panic_bytes AssertionFailure"
proof -
  have e: "entry_proc kernel_env = (\<lambda>e lower upper. on_sys (kernel_entry lower upper))" by (simp add: kernel_env_def)
  have c: "console (sys (pi linked)) = []" by (simp add: pi_def power_on_def)
  obtain ts upper t where o: "loader_main kernel_env 0 0xc42 0x100 0 (pi linked) = Panic AssertionFailure t"
    "console (sys t) = [] @ banner 0 0xc42 0x100 0 linked ts @ exception_bytes kernel_env @
      alloc_log 0x80000 (page_alloc_table_start kernel_env) @ putline_bytes @ line_of ''Paging enabled'' @
      puthex_bytes (e_entry (read_ehdr linked (kernel_image kernel_env))) @ putline_bytes @
      line_of ''Running from higher-half'' @ table_listing upper (sys t) @ panic_bytes AssertionFailure"
    using boot_output [OF kernel_fit e, of 0 "0xc42" 0] unfolding c pi_simps(1) by (elim exE conjE)
  show ?thesis
    by (intro exI [of _ t] exI [of _ ts] exI [of _ "exception_bytes kernel_env @
      alloc_log 0x80000 (page_alloc_table_start kernel_env) @ putline_bytes @ line_of ''Paging enabled'' @
      puthex_bytes (e_entry (read_ehdr linked (kernel_image kernel_env))) @ putline_bytes @
      line_of ''Running from higher-half'' @ table_listing upper (sys t)"] conjI o(1)) (simp only: o(2) append_Nil append_assoc)
qed

end
