(* ===== verification/Load_Correct.thy ===== *)
theory Load_Correct
  imports Image_Correct
begin

unbundle bit_operations_syntax

text \<open>
  What \<open>load_elf\<close> does with a program, from its headers to the last byte copied, when the memory
  for its segments is there.
\<close>

subsection \<open>Loading a program\<close>

text \<open>
  C12: what \<open>load_elf\<close> does with paging on, the books right and an upper table that counts references,
  given a program whose header sizes are those of the format, whose image lies in data pages (owned, part
  of no table) mapped to themselves, whose segments lie in the upper half of the address space and whose
  sections lie in its segments, no two bytes at one address, and two pages of RAM more than the segments
  take.  It is loaded just when its segments are aligned, do not overlap and touch only pages that are
  free in the upper table.  Then \<open>load_elf\<close> returns the entry point, and in the state it returns in, after
  the copy, each page of a segment is mapped to a page that nobody owned before, no two of them to the same
  one; each byte of a section is at its virtual address, all other bytes of the segments are \<open>0xcc\<close>; and
  the other pages of the table, the lower table, what was in owned pages outside the upper table, the
  console and the accounting of references are as they were.  Otherwise \<open>load_elf\<close> fails, with the
  contents of the owned pages outside the upper table as they were.
\<close>

theorem load_elf_loads_program:
  assumes tr: "obeys_tables tr" and b: "books {lower, upper} outside s" and ne: "lower \<noteq> upper"
    and n: "nent lower = 2048" "nent upper = 4096" and rc: "reference_counted upper"
    and hdr: "e_phentsize (read_ehdr (mem s) h) = 32" "e_shentsize (read_ehdr (mem s) h) = 40"
      "e_shnum (read_ehdr (mem s) h) \<noteq> 0xffff"
    and img: "image_in_place lower upper h s"
    and seg: "\<forall>j < phnum (mem s) h. segment_in_range (phdr_at (mem s) h j)"
      "\<forall>p \<in> load_pages (mem s) h 0. 0x80000 \<le> p"
    and sec: "\<forall>x \<in> loaded_bytes (mem s) h. frame (byte_target (mem s) h x) \<in> load_pages (mem s) h 0"
      "inj_on (byte_target (mem s) h) (loaded_bytes (mem s) h)"
    and room: "room 1 (load_cost (mem s) h 0 + 2) s"
  shows "if segments_ok (mem s) h \<and> (\<forall>p \<in> load_pages (mem s) h 0. pview upper s p = VFree)
    then \<exists>u. load_elf (tr (coproc (enable_paging lower upper m))) h upper s
          = Ok (Success (e_entry (read_ehdr (mem s) h))) u \<and>
        books {lower, upper} outside u \<and> undisturbed lower s u \<and> console u = console s \<and>
        (\<forall>p. p \<notin> load_pages (mem s) h 0 \<longrightarrow> pview upper u p = pview upper s p) \<and>
        (\<forall>p \<in> load_pages (mem s) h 0. \<exists>f. pview upper u p = VMapped f \<and> \<not> owned s f \<and> owned u f) \<and>
        (\<forall>p \<in> load_pages (mem s) h 0. \<forall>q \<in> load_pages (mem s) h 0.
           pview upper u p = pview upper u q \<longrightarrow> p = q) \<and>
        (\<forall>x \<in> loaded_bytes (mem s) h. \<exists>a. place lower upper u (byte_target (mem s) h x) = Some a \<and>
           mem u a = mem s (byte_source (mem s) h x)) \<and>
        (\<forall>va. frame va \<in> load_pages (mem s) h 0 \<and> va \<notin> byte_target (mem s) h ` loaded_bytes (mem s) h \<longrightarrow>
           (\<exists>a. place lower upper u va = Some a \<and> mem u a = 0xcc)) \<and>
        (\<forall>c. safe_byte upper s c \<longrightarrow> mem u c = mem s c)
    else \<exists>t. load_elf (tr (coproc (enable_paging lower upper m))) h upper s = Ok Failure t \<and>
        (\<forall>c. safe_byte upper s c \<longrightarrow> mem t c = mem s c)"
proof (cases "segments_ok (mem s) h \<and> (\<forall>p \<in> load_pages (mem s) h 0. pview upper s p = VFree)")
  case True
  then have "well_linked (mem s) h" using hdr seg(2) sec by (simp add: well_linked_def)
  then obtain u where u: "load_elf (tr (coproc (enable_paging lower upper m))) h upper s
        = Ok (Success (e_entry (read_ehdr (mem s) h))) u"
      "books {lower, upper} outside u" "undisturbed lower s u"
      "\<forall>x \<in> loaded_bytes (mem s) h. \<exists>a. place lower upper u (byte_target (mem s) h x) = Some a \<and>
         mem u a = mem s (byte_source (mem s) h x)"
      "\<forall>va. frame va \<in> load_pages (mem s) h 0 \<and> va \<notin> byte_target (mem s) h ` loaded_bytes (mem s) h \<longrightarrow>
         (\<exists>a. place lower upper u va = Some a \<and> mem u a = 0xcc)"
      "allocates upper (load_pages (mem s) h 0) s u"
    using load_elf_loads [OF tr b ne n rc _ img _ room, of m] True by blast
  note a = u(6) [unfolded allocates_def]
  have "\<forall>p \<in> load_pages (mem s) h 0. \<exists>f. pview upper u p = VMapped f \<and> \<not> owned s f \<and> owned u f"
    using a by blast
  moreover have "\<forall>c. safe_byte upper s c \<longrightarrow> mem u c = mem s c" using allocates_byte [OF u(6)] by blast
  ultimately show ?thesis using True a u(1-5) by auto
next
  case False
  have rd: "pt_wf upper s" "unlocked upper s" using booksD(4) [OF b] by (simp_all add: ready_def)
  have bad: "\<not> segments_fit upper h 0 s" using False segments_fit_all [OF seg(1)] by simp
  obtain t where t: "load_segments upper h 0 s = Ok False t" "\<forall>c. safe_byte upper s c \<longrightarrow> mem t c = mem s c"
    using load_segments_refuse [OF rd rc image_headers_safe [OF img] seg(1) bad room] by blast
  then have "load_elf (tr (coproc (enable_paging lower upper m))) h upper s = Ok Failure t"
    using load_elf_run [OF hdr] by simp
  then show ?thesis unfolding if_not_P [OF False] using t(2) by blast
qed

text \<open>The machine of the boot, with the image it has linked into it, as paging comes on.\<close>

lemma linked_ready:
  obtains lower upper and m :: machine where "books {lower, upper} (boot_references pi_env 0x80000 (stacks m)) (sys m)" "lower \<noteq> upper"
    "boot_tables 0x80000 lower upper (sys m)" "\<forall>b \<in> image_bytes linked 0x13000. mem (sys m) b = linked b"
    "image_in_place lower upper 0x13000 (sys m)" "well_linked (mem (sys m)) 0x13000"
    "\<forall>p \<in> load_pages (mem (sys m)) 0x13000 0. pview upper (sys m) p = VFree"
    "room 1 (load_cost (mem (sys m)) 0x13000 0 + 2) (sys m)"
proof -
  have h: "kernel_image pi_env = 0x13000" by (simp add: pi_env_def)
  have le: "unat (get_num_allocation_units 0x80000 GSection) \<le> 512"
    and enough: "first_page 0x80000 (page_alloc_table_start pi_env) + 14 + load_cost linked 0x13000 0 \<le> unat (0x80000 :: u32) div 4096"
    and b: "bootable pi_env 0x100 0x80000 (pi linked)" and room: "roomy pi_env 0x80000"
    using linked_fit unfolding fit_to_boot_def by (simp_all add: h)
  obtain lower upper and m :: machine where bt: "boot_tables 0x80000 lower upper (sys m)"
    and bk: "books {lower, upper} (boot_references pi_env 0x80000 (stacks m)) (sys m)" and ne: "lower \<noteq> upper"
    and lv: "boot_leaves pi_env 0x80000 linked lower upper (sys m)"
    by (rule loader_enters [OF b room le, of 0 "0xc42" 0]) simp
  have early: "\<forall>b \<in> image_bytes linked 0x13000. early pi_env 0x80000 (frame b)" using linked_early by blast
  have same: "\<forall>b \<in> image_bytes linked 0x13000. mem (sys m) b = linked b"
    using lv early by (simp add: boot_leaves_def)
  note R = boot_image_ready [OF bt lv le linked_well early enough]
  show thesis using that [OF bk ne bt same R(3,2,4,5)] .
qed

theorem load_elf_loads_program_witness:
  "\<exists>lower upper m u p. load_elf (mmu pi_env (coproc (enable_paging lower upper m))) 0x13000 upper (sys m)
       = Ok (Success 0x80000000) u \<and> pview upper u 0x80000 = VMapped p \<and> \<not> owned (sys m) p \<and>
     place lower upper u 0x80000002 = Some (phys_address p 0x80000002) \<and> mem u (phys_address p 0x80000002) = 0x37"
proof -
  obtain lower upper and m :: machine where r: "books {lower, upper} (boot_references pi_env 0x80000 (stacks m)) (sys m)" "lower \<noteq> upper"
    "boot_tables 0x80000 lower upper (sys m)" "\<forall>b \<in> image_bytes linked 0x13000. mem (sys m) b = linked b"
    "image_in_place lower upper 0x13000 (sys m)" "well_linked (mem (sys m)) 0x13000"
    "\<forall>p \<in> load_pages (mem (sys m)) 0x13000 0. pview upper (sys m) p = VFree"
    "room 1 (load_cost (mem (sys m)) 0x13000 0 + 2) (sys m)" by (rule linked_ready)
  have same: "\<forall>b \<in> header_bytes linked 0x13000. mem (sys m) b = linked b" using r(4) by (simp add: image_bytes_def)
  note hs = image_same(1) [OF same] and ib = image_same_bytes [OF same]
  have lp: "load_pages (mem (sys m)) 0x13000 0 = {0x80000}" using load_pages_same [OF hs] linked_pages by simp
  have e: "e_entry (read_ehdr (mem (sys m)) 0x13000) = 0x80000000" using headers_sameD(1) [OF hs] linked_headers(8) by simp
  have n: "nent lower = 2048" "nent upper = 4096" "reference_counted upper" using r(3) by (simp_all add: boot_tables_def)
  have ok: "segments_ok (mem (sys m)) 0x13000 \<and> (\<forall>p \<in> load_pages (mem (sys m)) 0x13000 0. pview upper (sys m) p = VFree)"
    using r(6,7) by (simp add: well_linked_def)
  have seg: "\<forall>j < phnum (mem (sys m)) 0x13000. segment_in_range (phdr_at (mem (sys m)) 0x13000 j)"
    using ok by (simp add: segments_ok_def)
  have w: "e_phentsize (read_ehdr (mem (sys m)) 0x13000) = 32" "e_shentsize (read_ehdr (mem (sys m)) 0x13000) = 40"
    "e_shnum (read_ehdr (mem (sys m)) 0x13000) \<noteq> 0xffff" "\<forall>p \<in> load_pages (mem (sys m)) 0x13000 0. 0x80000 \<le> p"
    "\<forall>x \<in> loaded_bytes (mem (sys m)) 0x13000.
       frame (byte_target (mem (sys m)) 0x13000 x) \<in> load_pages (mem (sys m)) 0x13000 0"
    "inj_on (byte_target (mem (sys m)) 0x13000) (loaded_bytes (mem (sys m)) 0x13000)"
    using r(6) unfolding well_linked_def by blast+
  obtain u where u: "load_elf (mmu pi_env (coproc (enable_paging lower upper m))) 0x13000 upper (sys m)
      = Ok (Success (e_entry (read_ehdr (mem (sys m)) 0x13000))) u"
    "\<forall>p \<in> load_pages (mem (sys m)) 0x13000 0. \<exists>f. pview upper u p = VMapped f \<and> \<not> owned (sys m) f \<and> owned u f"
    "\<forall>x \<in> loaded_bytes (mem (sys m)) 0x13000. \<exists>a. place lower upper u (byte_target (mem (sys m)) 0x13000 x) = Some a \<and>
       mem u a = mem (sys m) (byte_source (mem (sys m)) 0x13000 x)"
    using load_elf_loads_program [OF pi_simps(4) r(1,2) n w(1-3) r(5) seg w(4-6) r(8), of m]
    unfolding if_P [OF ok] by (elim exE conjE)
  obtain p where p: "pview upper u 0x80000 = VMapped p" "\<not> owned (sys m) p" using u(2) lp by blast
  have x: "(0, 2) \<in> loaded_bytes linked 0x13000" by (simp add: linked_bytes)
  have t: "byte_target linked 0x13000 (0, 2) = 0x80000002" "byte_source linked 0x13000 (0, 2) = 0x13102"
    using linked_section by simp_all
  have "0x13102 \<in> image_bytes linked 0x13000"
    using x unfolding image_bytes_def t(2) [symmetric] by blast
  then have "mem (sys m) 0x13102 = linked 0x13102" using r(4) by blast
  also have "\<dots> = 0x37" by (simp add: linked_def kernel_words_def store32_def)
  finally obtain a where a: "place lower upper u 0x80000002 = Some a" "mem u a = 0x37"
    using bspec [OF u(3), of "(0, 2)"] x ib(1) ib(2) [OF x] t by auto
  have "frame (0x80000002 :: u32) = 0x80000" by (simp add: frame_def)
  then have "place lower upper u 0x80000002 = Some (phys_address p 0x80000002)"
    using place_upper [of "0x80000002" lower upper u] p(1) by simp
  then show ?thesis
    using u(1) e p a
    by (intro exI [of _ lower] exI [of _ upper] exI [of _ m] exI [of _ u] exI [of _ p]) simp
qed

end
