(* ===== verification/Start_Up.thy ===== *)
theory Start_Up
  imports Boot
begin

unbundle bit_operations_syntax

text \<open>
  From power-on to \<open>loader_main\<close>: the layout of the loader in memory (\<^verbatim>\<open>src/src/loader_link.ld\<close>) and the
  entry point in \<^verbatim>\<open>src/src/boot.S\<close>.  The sizes of the sections are what the compiler makes of the
  sources, a parameter.
\<close>

subsection \<open>The layout of the loader\<close>

record section_sizes =
  text_size :: nat
  ivt_size :: nat
  rodata_size :: nat
  data_size :: nat
  bss_size :: nat

text \<open>\<open>ALIGN(4096)\<close> of the location counter.\<close>

definition align_4096 :: "nat \<Rightarrow> nat" where
  "align_4096 a = (a + 4095) div 4096 * 4096"

definition loader_start :: nat where
  "loader_start = 0x10000"

definition ivt_address :: "section_sizes \<Rightarrow> nat" where
  "ivt_address sz = align_4096 (loader_start + text_size sz)"

definition text_end :: "section_sizes \<Rightarrow> nat" where
  "text_end sz = align_4096 (ivt_address sz + ivt_size sz)"

definition rodata_end :: "section_sizes \<Rightarrow> nat" where
  "rodata_end sz = align_4096 (text_end sz + rodata_size sz)"

definition data_end :: "section_sizes \<Rightarrow> nat" where
  "data_end sz = align_4096 (rodata_end sz + data_size sz)"

definition bss_start :: "section_sizes \<Rightarrow> nat" where
  "bss_start sz = data_end sz"

definition bss_end :: "section_sizes \<Rightarrow> nat" where
  "bss_end sz = align_4096 (bss_start sz + bss_size sz)"

text \<open>The table of counts comes right after; these symbols are what the loader is linked with.\<close>

definition link_loader :: "section_sizes \<Rightarrow> boot_env \<Rightarrow> boot_env" where
  "link_loader sz env = env\<lparr>page_alloc_table_start := of_nat (bss_end sz), ivt_start := of_nat (ivt_address sz)\<rparr>"

subsection \<open>The entry point\<close>

text \<open>The loop at \<open>2:\<close>, which stores four words of zeroes as long as \<open>r4\<close> is below \<open>r9\<close>.\<close>

partial_function (option) clear_bss :: "u32 \<Rightarrow> u32 \<Rightarrow> memory \<Rightarrow> memory option" where
  "clear_bss r4 r9 m =
     (if r4 < r9
      then clear_bss (r4 + 16) r9 (store32 (r4 + 12) 0 (store32 (r4 + 8) 0 (store32 (r4 + 4) 0 (store32 r4 0 m))))
      else Some m)"

text \<open>
  The static variables of \<open>alloc\<close> lie in \<^verbatim>\<open>.bss\<close>; they are members of the allocator in the model, so
  clearing the section clears them.  The supervisor stack, which the compiler manages, has no place in
  the machine.
\<close>

definition cleared :: "memory \<Rightarrow> machine \<Rightarrow> machine" where
  "cleared mm m = m\<lparr>sys := (sys m)\<lparr>mem := mm,
     palloc := (palloc (sys m))\<lparr>next_alloc_1 := 0, next_alloc_4 := 0, next_alloc_256 := 0, next_alloc_4096 := 0\<rparr>\<rparr>\<rparr>"

text \<open>\<open>_start\<close>: the arguments stay in \<open>r0\<close> to \<open>r2\<close>, the status goes to \<open>r3\<close>; after the call it halts.\<close>

definition start :: "section_sizes \<Rightarrow> boot_env \<Rightarrow> u32 \<Rightarrow> u32 \<Rightarrow> u32 \<Rightarrow> u32 \<Rightarrow> machine \<Rightarrow> (machine, unit) outcome" where
  "start sz env r0 r1 r2 cpsr m =
     (case clear_bss (of_nat (bss_start sz)) (of_nat (bss_end sz)) (mem (sys m)) of
        None \<Rightarrow> Spin
      | Some mm \<Rightarrow> bind_ok (loader_main (link_loader sz env) r0 r1 r2 cpsr (cleared mm m)) (\<lambda>_ _. Spin))"

end
