(* ===== verification/Start_Correct.thy ===== *)
theory Start_Correct
  imports Start_Up Image_Correct
begin

unbundle bit_operations_syntax

text \<open>
  Clearing the zero-initialised data ends and clears just that, and with it the path from power-on to
  the kernel is complete.
\<close>

subsection \<open>The layout\<close>

lemma align_4096_up: "a \<le> align_4096 a" "4096 dvd align_4096 a"
  by (simp_all add: align_4096_def)

lemma layout:
  "loader_start \<le> ivt_address sz" "ivt_address sz + ivt_size sz \<le> text_end sz" "text_end sz + rodata_size sz \<le> rodata_end sz"
  "rodata_end sz + data_size sz \<le> bss_start sz" "bss_start sz + bss_size sz \<le> bss_end sz"
  "4096 dvd bss_start sz" "4096 dvd bss_end sz" "4096 dvd ivt_address sz"
  using order_trans [OF le_add1 align_4096_up(1) [of "loader_start + text_size sz"]]
  by (auto simp: ivt_address_def text_end_def rodata_end_def data_end_def bss_start_def bss_end_def align_4096_up)

subsection \<open>The loop\<close>

definition zeroed :: "u32 \<Rightarrow> nat \<Rightarrow> memory \<Rightarrow> memory" where
  "zeroed a n m = (\<lambda>x. if unat a \<le> unat x \<and> unat x < unat a + n then 0 else m x)"

lemma store32_zero:
  assumes "unat a + 4 \<le> 2 ^ 32"
  shows "store32 a 0 m = zeroed a 4 m"
proof
  fix x
  have u: "unat (a + of_nat k) = unat a + k" if "k < 4" for k using assms that by (subst unat_add32) auto
  have "x = a + of_nat k \<longleftrightarrow> unat x = unat a + k" if "k < 4" for k
    using u [OF that] by (metis word_eq_iff_unat32)
  from this [of 0] this [of 1] this [of 2] this [of 3]
  have e: "x = a \<longleftrightarrow> unat x = unat a" "x = a + 1 \<longleftrightarrow> unat x = unat a + 1" "x = a + 2 \<longleftrightarrow> unat x = unat a + 2"
    "x = a + 3 \<longleftrightarrow> unat x = unat a + 3" by simp_all
  show "store32 a 0 m x = zeroed a 4 m x"
    by (auto simp: store32_def zeroed_def e)
qed

lemma zeroed_zeroed:
  assumes "unat a + n + k \<le> 2 ^ 32" "0 < k"
  shows "zeroed (a + of_nat n) k (zeroed a n m) = zeroed a (n + k) m"
proof -
  have "unat (a + of_nat n) = unat a + n" using assms by (subst unat_add32) auto
  then show ?thesis by (auto simp: zeroed_def fun_eq_iff)
qed

lemma zeroed_0 [simp]: "zeroed a 0 m = m"
  by (auto simp: zeroed_def fun_eq_iff)

text \<open>A round of the loop clears 16 bytes.\<close>

lemma stored_four:
  assumes "unat a + 16 \<le> 2 ^ 32"
  shows "store32 (a + 12) 0 (store32 (a + 8) 0 (store32 (a + 4) 0 (store32 a 0 m))) = zeroed a 16 m"
proof -
  have u: "unat (a + 4) = unat a + 4" "unat (a + 8) = unat a + 8" "unat (a + 12) = unat a + 12"
    using assms by (simp_all add: unat_add32)
  have "store32 (a + 12) 0 (store32 (a + 8) 0 (store32 (a + 4) 0 (store32 a 0 m))) =
      zeroed (a + 12) 4 (zeroed (a + 8) 4 (zeroed (a + 4) 4 (zeroed a 4 m)))"
    using assms u by (simp add: store32_zero)
  also have "\<dots> = zeroed a 16 m"
    using assms zeroed_zeroed [of a 4 4 m] zeroed_zeroed [of a 8 4 m] zeroed_zeroed [of a 12 4 m] by simp
  finally show ?thesis .
qed

definition rounds :: "u32 \<Rightarrow> u32 \<Rightarrow> nat" where
  "rounds a b = (unat b - unat a + 15) div 16"

lemma clear_bss_zeroes: "unat b + 16 \<le> 2 ^ 32 \<Longrightarrow> clear_bss a b m = Some (zeroed a (16 * rounds a b) m)"
proof (induction "rounds a b" arbitrary: a m)
  case 0
  then have "\<not> a < b" by (simp add: rounds_def word_less_nat_alt)
  then show ?case using 0(1) by (subst clear_bss.simps) simp
next
  case (Suc n)
  have r: "rounds a b = Suc n" using Suc(2) by simp
  have lt: "a < b" "unat a < unat b" using Suc(2) by (auto simp: rounds_def word_less_nat_alt)
  then have u: "unat (a + 16) = unat a + 16" using Suc(3) by (subst unat_add32) auto
  have n: "n = rounds (a + 16) b"
    using Suc(2) lt(2) unfolding rounds_def u by (cases "unat a + 16 \<le> unat b") auto
  have "clear_bss a b m = clear_bss (a + 16) b (zeroed a 16 m)"
    using lt stored_four [of a m] Suc(3) by (subst clear_bss.simps) simp
  also have "\<dots> = Some (zeroed (a + 16) (16 * n) (zeroed a 16 m))" using Suc(1) [OF n Suc(3)] by (simp only: flip: n)
  also have "zeroed (a + 16) (16 * n) (zeroed a 16 m) = zeroed a (16 * rounds a b) m"
  proof (cases "n = 0")
    case False
    have "16 * rounds a b \<le> unat b - unat a + 15" by (simp add: rounds_def)
    then have "unat a + 16 * rounds a b \<le> 2 ^ 32" using Suc(3) lt by linarith
    moreover have "16 * rounds a b = 16 + 16 * n" using r by simp
    ultimately show ?thesis using zeroed_zeroed [of a 16 "16 * n" m] False by simp
  qed (simp add: r)
  finally show ?case .
qed

subsection \<open>What the cleared memory still holds\<close>

lemma linked_bss_cleared:
  assumes "bss_end sz < 2 ^ 32"
  shows "clear_bss (of_nat (bss_start sz)) (of_nat (bss_end sz)) m =
    Some (zeroed (of_nat (bss_start sz)) (bss_end sz - bss_start sz) m)"
proof -
  have le: "bss_start sz \<le> bss_end sz" using layout(5) [of sz] by simp
  have u: "unat (of_nat (bss_start sz) :: u32) = bss_start sz" "unat (of_nat (bss_end sz) :: u32) = bss_end sz"
    using assms le by simp_all
  obtain p q where pq: "bss_start sz = 4096 * p" "bss_end sz = 4096 * q" using layout(6,7) [of sz] by (elim dvdE)
  have "4096 * q < 4096 * 2 ^ 20" using assms pq(2) by simp
  then have "q + 1 \<le> 2 ^ 20" by simp
  then have "bss_end sz + 16 \<le> 2 ^ 32" using pq(2) by simp
  moreover have "16 * rounds (of_nat (bss_start sz)) (of_nat (bss_end sz)) = bss_end sz - bss_start sz"
  proof -
    have "4096 * q - 4096 * p + 15 = 16 * (256 * (q - p)) + 15" by (simp add: diff_mult_distrib2)
    moreover have "(16 * y + 15) div 16 = y" for y :: nat by simp
    ultimately have "(4096 * q - 4096 * p + 15) div 16 = 256 * (q - p)" by simp
    then show ?thesis unfolding rounds_def u unfolding pq by (simp add: diff_mult_distrib2)
  qed
  ultimately show ?thesis using clear_bss_zeroes [of "of_nat (bss_end sz)" "of_nat (bss_start sz)" m] u by simp
qed

lemma zeroed_before: "unat x < unat a \<Longrightarrow> zeroed a n m x = m x"
  by (simp add: zeroed_def)

definition tags_same :: "memory \<Rightarrow> memory \<Rightarrow> u32 list \<Rightarrow> u32 \<Rightarrow> bool" where
  "tags_same m' m ts e \<longleftrightarrow> (\<forall>t \<in> set (e # ts). \<forall>k < 16. m' (t + of_nat k) = m (t + of_nat k))"

lemma tag_same:
  assumes "\<forall>k < 16. m' (t + of_nat k) = m (t + of_nat k)"
  shows "read_header m' t = read_header m t" "read_mem m' t = read_mem m t" "is_mem_tag m' t = is_mem_tag m t"
    "next_tag m' t = next_tag m t"
proof -
  have l: "load32 m' (t + of_nat j) = load32 m (t + of_nat j)" if "j + 4 \<le> 16" for j
  proof (rule load32_cong)
    fix k :: nat assume "k < 4"
    then show "m' (t + of_nat j + of_nat k) = m (t + of_nat j + of_nat k)"
      using assms [rule_format, of "j + k"] that by (simp add: add.assoc)
  qed
  show h: "read_header m' t = read_header m t" "read_mem m' t = read_mem m t"
    using l [of 0] l [of 4] l [of 8] l [of 12] by (simp_all add: read_header_def read_mem_def)
  show "is_mem_tag m' t = is_mem_tag m t" "next_tag m' t = next_tag m t"
    by (simp_all add: is_mem_tag_def next_tag_def h)
qed

lemma tag_list_same: "tags_same m' m ts e \<Longrightarrow> tag_list m' a ts e = tag_list m a ts e"
proof (induction ts arbitrary: a)
  case Nil
  then show ?case using tag_same(1) [of m' e m] by (auto simp: tags_same_def)
next
  case (Cons t ts)
  have "tags_same m' m ts e" using Cons.prems by (simp add: tags_same_def)
  note IH = Cons.IH [OF this]
  have "\<forall>k < 16. m' (t + of_nat k) = m (t + of_nat k)" using Cons.prems by (simp add: tags_same_def)
  from tag_same(1,4) [OF this] show ?case by (auto simp: IH)
qed

lemma find_same: "tags_same m' m ts e \<Longrightarrow> find (is_mem_tag m') ts = find (is_mem_tag m) ts"
  by (rule find_cong) (auto simp: tags_same_def tag_same(3))

subsection \<open>From power-on to the kernel\<close>

text \<open>
  The tags and the image are outside of the data that is cleared: the firmware's tags below the loader's
  code and data, the image linked into them; the rest is as for \<open>loader_main\<close>, without what clearing
  and the linker script see to.
\<close>

definition fit_to_start :: "section_sizes \<Rightarrow> boot_env \<Rightarrow> u32 \<Rightarrow> u32 \<Rightarrow> memory \<Rightarrow> bool" where
  "fit_to_start sz env a memory mm \<longleftrightarrow> bss_end sz < 2 ^ 32 \<and>
     (\<exists>ts e t. tag_list mm a ts e \<and> (\<forall>x \<in> set (e # ts). unat x + 16 \<le> bss_start sz) \<and>
        find (is_mem_tag mm) ts = Some t \<and> read_mem mm t = \<lparr>mem_size = memory, mem_start = 0\<rparr>) \<and>
     4 dvd unat memory div 4096 \<and> roomy (link_loader sz env) memory \<and>
     unat (get_num_allocation_units memory GSection) \<le> 512 \<and> well_linked mm (kernel_image env) \<and>
     (\<forall>b \<in> image_bytes mm (kernel_image env). loader_start \<le> unat b \<and> unat b < bss_start sz) \<and>
     first_page memory (of_nat (bss_end sz)) + 14 + load_cost mm (kernel_image env) 0 \<le> unat memory div 4096"

lemma link_loader_simps [simp]:
  "kernel_image (link_loader sz env) = kernel_image env" "mmu (link_loader sz env) = mmu env"
  "page_alloc_table_start (link_loader sz env) = of_nat (bss_end sz)" "ivt_start (link_loader sz env) = of_nat (ivt_address sz)"
  "entry_proc (link_loader sz env) = entry_proc env"
  by (simp_all add: link_loader_def)

lemma cleared_simps [simp]: "mem (sys (cleared mm m)) = mm" "console (sys (cleared mm m)) = console (sys m)"
  by (simp_all add: cleared_def)

lemma table_fits:
  assumes "first_page ram loc + 14 \<le> unat ram div 4096" "aligned 12 loc"
  shows "unat loc + unat ram div 4096 \<le> 2 ^ 32"
proof -
  let ?n = "unat ram div 4096"
  have "unat loc = 4096 * frame loc" using assms(2) by (auto simp: aligned_def frame_def)
  moreover have "?n \<le> 4096 * ((?n + 4095) div 4096)" by simp
  moreover have "frame loc + (?n + 4095) div 4096 \<le> ?n" using assms(1) by (simp add: first_page_def)
  moreover have "4096 * ?n < 2 ^ 32" using frame_less [of ram] by (simp add: frame_def)
  ultimately show ?thesis by linarith
qed

lemma fit_start:
  fixes m :: machine
  assumes fit: "fit_to_start sz env a memory (mem (sys m))"
  defines "mm \<equiv> zeroed (of_nat (bss_start sz)) (bss_end sz - bss_start sz) (mem (sys m))"
  shows "fit_to_boot (link_loader sz env) a memory (cleared mm m)" "\<forall>b \<in> image_bytes (mem (sys m)) (kernel_image env). mm b = mem (sys m) b"
proof -
  let ?h = "kernel_image env" and ?m = "mem (sys m)"
  have b: "bss_end sz < 2 ^ 32" "bss_start sz \<le> bss_end sz" using fit layout(5) [of sz] by (simp_all add: fit_to_start_def)
  have u: "unat (of_nat (bss_start sz) :: u32) = bss_start sz" "unat (of_nat (bss_end sz) :: u32) = bss_end sz"
    using b by simp_all
  have low: "mm x = ?m x" if "unat x < bss_start sz" for x
    using that u unfolding mm_def by (simp add: zeroed_before)
  show image: "\<forall>b \<in> image_bytes ?m ?h. mm b = ?m b"
    using fit low by (simp add: fit_to_start_def)
  then have hb: "\<forall>b \<in> header_bytes ?m ?h. mm b = ?m b" by (simp add: image_bytes_def)
  have cost: "load_cost mm ?h 0 = load_cost ?m ?h 0" by (rule load_cost_same [OF image_same(1) [OF hb]])
  obtain ts e t where tags: "tag_list ?m a ts e" "\<forall>x \<in> set (e # ts). unat x + 16 \<le> bss_start sz"
    "find (is_mem_tag ?m) ts = Some t" "read_mem ?m t = \<lparr>mem_size = memory, mem_start = 0\<rparr>"
    using fit by (auto simp: fit_to_start_def)
  have same: "tags_same mm ?m ts e"
    unfolding tags_same_def
  proof (intro ballI allI impI)
    fix x :: u32 and k :: nat assume "x \<in> set (e # ts)" "k < 16"
    moreover from this have "unat x + 16 \<le> bss_start sz" using tags(2) by blast
    moreover from this have "unat (x + of_nat k) = unat x + k" using \<open>k < 16\<close> b by (subst unat_add32) auto
    ultimately show "mm (x + of_nat k) = ?m (x + of_nat k)" using low by simp
  qed
  have t: "t \<in> set ts" using tags(3) by (auto simp: find_Some_iff)
  have "read_mem mm t = read_mem ?m t" using same t by (intro tag_same(2)) (simp add: tags_same_def)
  then have mt: "tag_list mm a ts e \<and> find (is_mem_tag mm) ts = Some t \<and> read_mem mm t = \<lparr>mem_size = memory, mem_start = 0\<rparr>"
    using tags tag_list_same [OF same] find_same [OF same] by simp
  have al: "aligned 12 (of_nat (bss_end sz) :: u32)" using layout(7) [of sz] u by (simp add: aligned_def)
  have room: "first_page memory (of_nat (bss_end sz)) + 14 + load_cost ?m ?h 0 \<le> unat memory div 4096"
    using fit by (simp add: fit_to_start_def)
  have hints: "\<forall>sz \<in> sizes. next_alloc sz (palloc (sys (cleared mm m))) = 0"
    by (simp add: sizes_def next_alloc_def cleared_def)
  have "bootable (link_loader sz env) a memory (cleared mm m)"
    using fit mt al table_fits [of memory "of_nat (bss_end sz)"] room hints
    by (auto simp: bootable_def fit_to_start_def)
  moreover have "early (link_loader sz env) memory (frame x)" if "x \<in> image_bytes ?m ?h" for x
  proof -
    have x: "loader_start \<le> unat x" "unat x < bss_start sz" using fit that by (auto simp: fit_to_start_def)
    obtain p q where pq: "bss_start sz = 4096 * p" "bss_end sz = 4096 * q" using layout(6,7) [of sz] by (elim dvdE)
    have "frame x < p" using x(2) pq by (simp add: frame_def)
    moreover have "p \<le> q" using b(2) pq by simp
    moreover have "frame (of_nat (bss_end sz)) = q" using u pq by (simp add: frame_def)
    moreover have "q \<le> first_page memory (of_nat (bss_end sz))" using u pq by (simp add: first_page_def frame_def)
    moreover have "0 < frame x" using x(1) by (simp add: frame_def loader_start_def)
    ultimately show ?thesis using room by (simp add: early_def)
  qed
  ultimately show "fit_to_boot (link_loader sz env) a memory (cleared mm m)"
    using fit room well_linked_same [OF hb] image_same_bytes(4) [OF hb] cost
    by (simp add: fit_to_boot_def fit_to_start_def)
qed

lemma ends_in_panic: "bind_ok (bind_ok x (\<lambda>_. on_sys (panic c))) f = bind_ok x (\<lambda>_. on_sys (panic c))"
  by (cases x) (simp_all add: on_sys_def panic_def)

subsection \<open>Properties\<close>

text \<open>
  C33: the loop that clears the zero-initialised data ends, and sets to zero the bytes from its start to
  the first multiple of 16 bytes past its start that is not below its end, and no others.
\<close>

theorem clear_bss_clears:
  assumes "unat b + 16 \<le> 2 ^ 32"
  shows "\<exists>m'. clear_bss a b m = Some m' \<and>
    (\<forall>x. m' x = (if unat a \<le> unat x \<and> unat x < unat a + 16 * ((unat b - unat a + 15) div 16) then 0 else m x))"
  using clear_bss_zeroes [OF assms, of a m] by (auto simp: zeroed_def rounds_def)

theorem clear_bss_clears_witness:
  "\<exists>m'. clear_bss 0x15000 0x15014 (\<lambda>_. 7) = Some m' \<and> m' 0x1501f = 0 \<and> m' 0x15020 = 7"
  using clear_bss_clears [of "0x15014" "0x15000" "\<lambda>_. 7"] by auto

text \<open>
  C1: the machine boots.  From power-on, whatever memory and the registers hold besides, with the
  firmware's tags and a well-formed kernel image in place, the loader at the addresses its linker script
  gives it and room enough, \<open>_start\<close> ends up in the entry point of the image: paging is on, interrupts
  are on with the vectors at the table of the loader, every byte of every loadable section of the image
  is read at its virtual address as it was at power-on, every other byte of the segments reads \<open>0xcc\<close>
  (the data that the format says is zero is not cleared), and every reference count is accounted for.
  Should the kernel return, the loader panics.
\<close>

theorem start_runs_kernel:
  assumes fit: "fit_to_start sz env a memory (mem (sys m))" and tr: "obeys_tables (mmu env)"
  shows "\<exists>lower upper m'. start sz env r0 r1 a cpsr m =
      bind_ok (entry_proc env (e_entry (read_ehdr (mem (sys m)) (kernel_image env))) lower upper m')
        (\<lambda>_. on_sys (panic AssertionFailure)) \<and>
    lower \<noteq> upper \<and> books {lower, upper} (boot_references (link_loader sz env) memory (stacks m')) (sys m') \<and>
    paging_on (coproc m') \<and> interrupts m' \<and> vector_base m' = of_nat (ivt_address sz) \<and>
    (\<forall>x \<in> loaded_bytes (mem (sys m)) (kernel_image env).
      \<exists>p. mmu env (coproc m') (sys m') (byte_target (mem (sys m)) (kernel_image env) x) = Some p \<and>
        mem (sys m') p = mem (sys m) (byte_source (mem (sys m)) (kernel_image env) x)) \<and>
    (\<forall>va. frame va \<in> load_pages (mem (sys m)) (kernel_image env) 0 \<and>
        va \<notin> byte_target (mem (sys m)) (kernel_image env) ` loaded_bytes (mem (sys m)) (kernel_image env) \<longrightarrow>
      (\<exists>p. mmu env (coproc m') (sys m') va = Some p \<and> mem (sys m') p = 0xcc))"
proof -
  let ?h = "kernel_image env" and ?m = "mem (sys m)"
  let ?mm = "zeroed (of_nat (bss_start sz)) (bss_end sz - bss_start sz) ?m"
  note F = fit_start [OF fit]
  have hb: "\<forall>b \<in> header_bytes ?m ?h. ?mm b = ?m b" using F(2) by (simp add: image_bytes_def)
  note I = image_same [OF hb] and B = image_same_bytes [OF hb]
  have src: "?mm (byte_source ?m ?h x) = ?m (byte_source ?m ?h x)" if "x \<in> loaded_bytes ?m ?h" for x
    using F(2) that by (simp add: image_bytes_def)
  have targets: "byte_target ?mm ?h ` loaded_bytes ?m ?h = byte_target ?m ?h ` loaded_bytes ?m ?h"
    using B(2) by (intro image_cong) simp_all
  have run: "start sz env r0 r1 a cpsr m = bind_ok (loader_main (link_loader sz env) r0 r1 a cpsr (cleared ?mm m)) (\<lambda>_ _. Spin)"
    using fit linked_bss_cleared [of sz ?m] by (simp add: start_def fit_to_start_def)
  have tr': "obeys_tables (mmu (link_loader sz env))" using tr by simp
  note same = headers_sameD(1) [OF I(1)] load_pages_same [OF I(1)] B(1)
  obtain lower upper m' bs where L: "loader_main (link_loader sz env) r0 r1 a cpsr (cleared ?mm m) =
      bind_ok (entry_proc env (e_entry (read_ehdr ?m ?h)) lower upper m') (\<lambda>_. on_sys (panic AssertionFailure))"
    "lower \<noteq> upper" "books {lower, upper} (boot_references (link_loader sz env) memory (stacks m')) (sys m')"
    "paging_on (coproc m')" "interrupts m'" "vector_base m' = of_nat (ivt_address sz)"
    and bytes: "\<forall>x \<in> loaded_bytes ?m ?h. \<exists>p. mmu env (coproc m') (sys m') (byte_target ?mm ?h x) = Some p \<and>
        mem (sys m') p = ?mm (byte_source ?mm ?h x)"
    and rest: "\<forall>va. frame va \<in> load_pages ?m ?h 0 \<and> va \<notin> byte_target ?mm ?h ` loaded_bytes ?m ?h \<longrightarrow>
      (\<exists>p. mmu env (coproc m') (sys m') va = Some p \<and> mem (sys m') p = 0xcc)"
    by (rule loader_reaches_kernel [OF F(1) tr', of r0 r1 cpsr, unfolded cleared_simps link_loader_simps same]) blast
  have bytes': "\<forall>x \<in> loaded_bytes ?m ?h. \<exists>p. mmu env (coproc m') (sys m') (byte_target ?m ?h x) = Some p \<and>
      mem (sys m') p = ?m (byte_source ?m ?h x)"
  proof
    fix x assume x: "x \<in> loaded_bytes ?m ?h"
    show "\<exists>p. mmu env (coproc m') (sys m') (byte_target ?m ?h x) = Some p \<and> mem (sys m') p = ?m (byte_source ?m ?h x)"
      using bspec [OF bytes x] B(2) [OF x] src [OF x] by simp
  qed
  show ?thesis
    using L bytes' rest [unfolded targets] unfolding run L(1) ends_in_panic by blast
qed

text \<open>The image at \<open>0x13000\<close>, in the data of a loader of five pages.\<close>

definition small_loader :: section_sizes where
  "small_loader = \<lparr>text_size = 0x500, ivt_size = 0x8c, rodata_size = 0x100, data_size = 0x1000, bss_size = 0x40\<rparr>"

lemma small_symbols: "ivt_address small_loader = 0x11000" "bss_start small_loader = 0x14000" "bss_end small_loader = 0x15000"
  by (simp_all add: small_loader_def ivt_address_def text_end_def rodata_end_def data_end_def bss_start_def bss_end_def
      align_4096_def loader_start_def)

lemma small_linked: "link_loader small_loader pi_env = pi_env"
  by (simp add: link_loader_def small_symbols pi_env_def)

lemma small_fit: "fit_to_start small_loader pi_env 0x100 0x80000 linked"
proof -
  have h: "kernel_image pi_env = 0x13000" by (simp add: pi_env_def)
  have "loader_start \<le> unat b \<and> unat b < 0x14000" if "b \<in> image_bytes linked 0x13000" for b
    using linked_bounds [OF that] by (simp add: loader_start_def)
  moreover have "\<exists>ts e t. tag_list linked 0x100 ts e \<and> (\<forall>x \<in> set (e # ts). unat x + 16 \<le> 0x14000) \<and>
      find (is_mem_tag linked) ts = Some t \<and> read_mem linked t = \<lparr>mem_size = 0x80000, mem_start = 0\<rparr>"
    using tag_words_found [OF linked_tags]
    by (intro exI [of _ "[0x100]"] exI [of _ "0x110"] exI [of _ "0x100"]) (simp del: tag_list.simps find.simps)
  ultimately show ?thesis
    using pi_ram(2) linked_well
    by (simp add: fit_to_start_def small_linked small_symbols h pi_sections linked_cost first_page_def frame_def)
qed

theorem start_runs_kernel_witness:
  "\<exists>lower upper m' p. start small_loader pi_env 0 0xc42 0x100 0x1d3 (pi linked)
       = bind_ok (entry_proc pi_env 0x80000000 lower upper m') (\<lambda>_. on_sys (panic AssertionFailure)) \<and>
     vector_base m' = 0x11000 \<and> mmu pi_env (coproc m') (sys m') 0x80000002 = Some p \<and> mem (sys m') p = 0x37"
proof -
  have h: "kernel_image pi_env = 0x13000" by (simp add: pi_env_def)
  have fit: "fit_to_start small_loader pi_env 0x100 0x80000 (mem (sys (pi linked)))" using small_fit by simp
  obtain lower upper m' where R: "start small_loader pi_env 0 0xc42 0x100 0x1d3 (pi linked) =
      bind_ok (entry_proc pi_env (e_entry (read_ehdr linked 0x13000)) lower upper m') (\<lambda>_. on_sys (panic AssertionFailure))"
    "vector_base m' = of_nat (ivt_address small_loader)"
    "\<forall>x \<in> loaded_bytes linked 0x13000. \<exists>p. mmu pi_env (coproc m') (sys m') (byte_target linked 0x13000 x) = Some p \<and>
        mem (sys m') p = linked (byte_source linked 0x13000 x)"
    using start_runs_kernel [OF fit pi_simps(4), of 0 "0xc42" "0x1d3"] unfolding pi_simps(1) h by blast
  have "byte_target linked 0x13000 (0, 2) = 0x80000002" "byte_source linked 0x13000 (0, 2) = 0x13102"
    using linked_section by simp_all
  moreover have "linked 0x13102 = 0x37" by (simp add: linked_def kernel_words_def store32_def)
  moreover have "(0, 2) \<in> loaded_bytes linked 0x13000" by (simp add: linked_bytes)
  ultimately obtain p where "mmu pi_env (coproc m') (sys m') 0x80000002 = Some p" "mem (sys m') p = 0x37"
    using R(3) by metis
  then show ?thesis
    using R(1,2) linked_headers(8) small_symbols(1)
    by (intro exI [of _ lower] exI [of _ upper] exI [of _ m'] exI [of _ p]) simp
qed

end
