(* ===== verification/Arm.thy ===== *)
theory Arm
  imports Boot
begin

unbundle bit_operations_syntax

text \<open>
  As much of the processor as \<^verbatim>\<open>src/src/interrupts.S\<close> touches: the general registers, the registers
  each mode has of its own, how an exception is taken, and the instructions of the vectors.  What a
  compiled C++ function does is a parameter; \<open>aapcs\<close> is what the procedure call standard says of it.
\<close>

subsection \<open>Registers\<close>

datatype cpu_mode = UserMode | FiqMode | IrqMode | SupervisorMode | AbortMode | UndefinedMode

record psr =
  psr_mode :: cpu_mode
  irq_masked :: bool
  fiq_masked :: bool
  abort_masked :: bool
  psr_flags :: u32

text \<open>
  \<open>general\<close> are \<open>r0\<close> to \<open>r12\<close> as every mode but FIQ sees them; FIQ has \<open>r8\<close> to \<open>r12\<close> of its own.
\<close>

record core =
  general :: "nat \<Rightarrow> u32"
  fiq_general :: "nat \<Rightarrow> u32"
  sp :: "cpu_mode \<Rightarrow> u32"
  lr :: "cpu_mode \<Rightarrow> u32"
  spsr :: "cpu_mode \<Rightarrow> psr"
  cpsr :: psr
  pc :: u32
  shared :: kstate

definition current :: "core \<Rightarrow> cpu_mode" where
  "current c = psr_mode (cpsr c)"

definition r :: "core \<Rightarrow> nat \<Rightarrow> u32" where
  "r c n = (if current c = FiqMode \<and> 8 \<le> n then fiq_general c n else general c n)"

subsection \<open>Exceptions\<close>

datatype cpu_exception = UndefinedInstruction | SupervisorCall | PrefetchAbort | DataAbort | Interrupt | FastInterrupt

fun exception_mode :: "cpu_exception \<Rightarrow> cpu_mode" where
  "exception_mode UndefinedInstruction = UndefinedMode"
| "exception_mode SupervisorCall = SupervisorMode"
| "exception_mode PrefetchAbort = AbortMode"
| "exception_mode DataAbort = AbortMode"
| "exception_mode Interrupt = IrqMode"
| "exception_mode FastInterrupt = FiqMode"

fun vector_offset :: "cpu_exception \<Rightarrow> u32" where
  "vector_offset UndefinedInstruction = 0x04"
| "vector_offset SupervisorCall = 0x08"
| "vector_offset PrefetchAbort = 0x0c"
| "vector_offset DataAbort = 0x10"
| "vector_offset Interrupt = 0x18"
| "vector_offset FastInterrupt = 0x1c"

text \<open>The link register is the address of the instruction concerned and 4, for a data abort 8.\<close>

fun link_offset :: "cpu_exception \<Rightarrow> u32" where
  "link_offset DataAbort = 8"
| "link_offset _ = 4"

text \<open>
  Taking an exception at the instruction at \<open>pc\<close>: the one that is undefined, calls or aborts, or the
  one an interrupt comes before.
\<close>

definition take_exception :: "u32 \<Rightarrow> cpu_exception \<Rightarrow> core \<Rightarrow> core" where
  "take_exception base e c =
     (let m = exception_mode e
      in c\<lparr>lr := (lr c)(m := pc c + link_offset e), spsr := (spsr c)(m := cpsr c),
           cpsr := (cpsr c)\<lparr>psr_mode := m, irq_masked := True,
             fiq_masked := (e = FastInterrupt \<or> fiq_masked (cpsr c)),
             abort_masked := (e \<in> {PrefetchAbort, DataAbort, Interrupt, FastInterrupt} \<or> abort_masked (cpsr c))\<rparr>,
           pc := base + vector_offset e\<rparr>)"

subsection \<open>Calls of compiled functions\<close>

datatype handler = Undef_handler | Svc_handler | Prefetch_handler | Data_handler | Irq_handler | Fiq_handler

text \<open>What the C++ functions of \<open>Boot\<close> do to the shared state, with their arguments in registers.\<close>

fun handled :: "handler \<Rightarrow> core \<Rightarrow> kstate" where
  "handled Undef_handler c = undef_instr_handler (r c 0) (shared c)"
| "handled Svc_handler c = snd (svc_entry (r c 0) (r c 1) (r c 2) (r c 3) (shared c))"
| "handled Prefetch_handler c = prefetch_abort_handler (r c 0) (shared c)"
| "handled Data_handler c = data_abort_handler (r c 0) (shared c)"
| "handled Irq_handler c = irq_handler (shared c)"
| "handled Fiq_handler c = fiq_handler (shared c)"

text \<open>
  The procedure call standard: a function returns to the link register in the mode it was called in,
  keeps \<open>r4\<close> to \<open>r11\<close> and the stack pointer, and keeps its own data below the stack pointer; \<open>r0\<close> to
  \<open>r3\<close>, \<open>r12\<close>, the link register and the flags are its to change, and its result is in \<open>r0\<close>.  Registers
  that are not visible in the mode stay.  That 2 KiB of stack are enough holds for these handlers, which
  print a few lines.
\<close>

definition aapcs :: "(handler \<Rightarrow> core \<Rightarrow> core) \<Rightarrow> bool" where
  "aapcs call \<longleftrightarrow> (\<forall>f c.
     pc (call f c) = lr c (current c) \<and>
     (\<exists>fl. cpsr (call f c) = (cpsr c)\<lparr>psr_flags := fl\<rparr>) \<and>
     sp (call f c) = sp c \<and> spsr (call f c) = spsr c \<and>
     (\<forall>m. m \<noteq> current c \<longrightarrow> lr (call f c) m = lr c m) \<and>
     (\<forall>n. 4 \<le> n \<and> n \<le> 11 \<longrightarrow> r (call f c) n = r c n) \<and>
     (if current c = FiqMode then \<forall>n \<ge> 8. general (call f c) n = general c n
      else fiq_general (call f c) = fiq_general c) \<and>
     (f = Svc_handler \<longrightarrow> r (call f c) 0 = fst (svc_entry (r c 0) (r c 1) (r c 2) (r c 3) (shared c))) \<and>
     console (shared (call f c)) = console (handled f c) \<and>
     palloc (shared (call f c)) = palloc (handled f c) \<and> held (shared (call f c)) = held (handled f c) \<and>
     (\<forall>a. \<not> (unat (sp c (current c)) - 2048 \<le> unat a \<and> unat a < unat (sp c (current c))) \<longrightarrow>
        mem (shared (call f c)) a = mem (shared c) a))"

subsection \<open>Instructions\<close>

datatype instr =
    B nat
  | Bl handler
  | Push_lr
  | Pop_lr
  | Sub_r0_lr u32
  | Movs_pc_lr
  | Subs_pc_lr u32
  | Nop

text \<open>\<open>B n\<close> branches to instruction \<open>n\<close> of the table; moving to \<open>pc\<close> with \<open>s\<close> also restores the status.\<close>

fun execute :: "(handler \<Rightarrow> core \<Rightarrow> core) \<Rightarrow> u32 \<Rightarrow> instr \<Rightarrow> core \<Rightarrow> core" where
  "execute call base (B n) c = c\<lparr>pc := base + 4 * of_nat n\<rparr>"
| "execute call base (Bl f) c = call f (c\<lparr>lr := (lr c)(current c := pc c + 4)\<rparr>)"
| "execute call base Push_lr c =
     (let a = sp c (current c) - 4
      in c\<lparr>sp := (sp c)(current c := a), shared := st a (lr c (current c)) (shared c), pc := pc c + 4\<rparr>)"
| "execute call base Pop_lr c =
     (let a = sp c (current c)
      in c\<lparr>lr := (lr c)(current c := ld (shared c) a), sp := (sp c)(current c := a + 4), pc := pc c + 4\<rparr>)"
| "execute call base (Sub_r0_lr n) c = c\<lparr>general := (general c)(0 := lr c (current c) - n), pc := pc c + 4\<rparr>"
| "execute call base Movs_pc_lr c = c\<lparr>pc := lr c (current c), cpsr := spsr c (current c)\<rparr>"
| "execute call base (Subs_pc_lr n) c = c\<lparr>pc := lr c (current c) - n, cpsr := spsr c (current c)\<rparr>"
| "execute call base Nop c = c\<lparr>pc := pc c + 4\<rparr>"

end
