(* ===== verification/Vectors.thy ===== *)
theory Vectors
  imports Arm
begin

unbundle bit_operations_syntax

text \<open>
  \<^verbatim>\<open>src/src/interrupts.S\<close>: the exception vectors, instruction by instruction, and their execution.
\<close>

definition ivt :: "instr list" where
  "ivt =
    [B 8, B 8, B 13, B 17, B 22, Nop, B 27, B 31,
     Push_lr, Sub_r0_lr 4, Bl Undef_handler, Pop_lr, Movs_pc_lr,
     Push_lr, Bl Svc_handler, Pop_lr, Movs_pc_lr,
     Push_lr, Sub_r0_lr 4, Bl Prefetch_handler, Pop_lr, Subs_pc_lr 4,
     Push_lr, Sub_r0_lr 8, Bl Data_handler, Pop_lr, Subs_pc_lr 8,
     Push_lr, Bl Irq_handler, Pop_lr, Subs_pc_lr 4,
     Push_lr, Bl Fiq_handler, Pop_lr, Subs_pc_lr 4]"

text \<open>One instruction of the table at \<open>base\<close>; \<open>run_ivt\<close> executes a number of them.\<close>

definition step_ivt :: "(handler \<Rightarrow> core \<Rightarrow> core) \<Rightarrow> u32 \<Rightarrow> core \<Rightarrow> core" where
  "step_ivt call base c = execute call base (ivt ! (unat (pc c - base) div 4)) c"

fun run_ivt :: "(handler \<Rightarrow> core \<Rightarrow> core) \<Rightarrow> u32 \<Rightarrow> nat \<Rightarrow> core \<Rightarrow> core" where
  "run_ivt call base 0 c = c"
| "run_ivt call base (Suc n) c = run_ivt call base n (step_ivt call base c)"

text \<open>How many instructions a vector has, with the branch to it.\<close>

fun vector_length :: "cpu_exception \<Rightarrow> nat" where
  "vector_length UndefinedInstruction = 6"
| "vector_length SupervisorCall = 5"
| "vector_length PrefetchAbort = 6"
| "vector_length DataAbort = 6"
| "vector_length Interrupt = 5"
| "vector_length FastInterrupt = 5"

text \<open>An exception from the instruction it is taken at to the return from the vector.\<close>

definition exception_run :: "(handler \<Rightarrow> core \<Rightarrow> core) \<Rightarrow> u32 \<Rightarrow> cpu_exception \<Rightarrow> core \<Rightarrow> core" where
  "exception_run call base e c = run_ivt call base (vector_length e) (take_exception base e c)"

end
