(* ===== verification/Vectors_Correct.thy ===== *)
theory Vectors_Correct
  imports Vectors
begin

unbundle bit_operations_syntax

text \<open>
  What the exception vectors do, with handlers that keep to the procedure call standard: they print what
  happened, return to where they should in the state the exception was taken in, and lose the registers
  a compiled function may change.
\<close>

subsection \<open>Runs of the table\<close>

lemma step_at:
  assumes "pc c = base + 4 * of_nat n" "n < 35"
  shows "step_ivt call base c = execute call base (ivt ! n) c"
proof -
  have "unat (4 * of_nat n :: u32) = 4 * n"
    using unat_of_nat32 [of "4 * n"] assms(2) by simp
  then show ?thesis using assms(1) by (simp add: step_ivt_def)
qed

lemma ivt_nth [simp]:
  "ivt ! 0 = B 8" "ivt ! Suc 0 = B 8" "ivt ! 2 = B 13" "ivt ! 3 = B 17" "ivt ! 4 = B 22" "ivt ! 6 = B 27" "ivt ! 7 = B 31"
  "ivt ! 8 = Push_lr" "ivt ! 9 = Sub_r0_lr 4" "ivt ! 10 = Bl Undef_handler" "ivt ! 11 = Pop_lr" "ivt ! 12 = Movs_pc_lr"
  "ivt ! 13 = Push_lr" "ivt ! 14 = Bl Svc_handler" "ivt ! 15 = Pop_lr" "ivt ! 16 = Movs_pc_lr"
  "ivt ! 17 = Push_lr" "ivt ! 18 = Sub_r0_lr 4" "ivt ! 19 = Bl Prefetch_handler" "ivt ! 20 = Pop_lr" "ivt ! 21 = Subs_pc_lr 4"
  "ivt ! 22 = Push_lr" "ivt ! 23 = Sub_r0_lr 8" "ivt ! 24 = Bl Data_handler" "ivt ! 25 = Pop_lr" "ivt ! 26 = Subs_pc_lr 8"
  "ivt ! 27 = Push_lr" "ivt ! 28 = Bl Irq_handler" "ivt ! 29 = Pop_lr" "ivt ! 30 = Subs_pc_lr 4"
  "ivt ! 31 = Push_lr" "ivt ! 32 = Bl Fiq_handler" "ivt ! 33 = Pop_lr" "ivt ! 34 = Subs_pc_lr 4"
  unfolding ivt_def by simp_all

lemma current_simps [simp]:
  "current (c\<lparr>general := g\<rparr>) = current c" "current (c\<lparr>sp := s\<rparr>) = current c" "current (c\<lparr>lr := l\<rparr>) = current c"
  "current (c\<lparr>pc := p\<rparr>) = current c" "current (c\<lparr>shared := k\<rparr>) = current c" "current (c\<lparr>cpsr := q\<rparr>) = psr_mode q"
  "current (c\<lparr>spsr := t\<rparr>) = current c"
  by (simp_all add: current_def)

lemmas handler_simps = svc_entry_def undef_instr_handler_def prefetch_abort_handler_def data_abort_handler_def
  irq_handler_def fiq_handler_def emit_def

lemma handled_keeps [simp]: "palloc (handled f c) = palloc (shared c)" "held (handled f c) = held (shared c)"
  "mem (handled f c) = mem (shared c)"
  by (cases f; simp add: handler_simps)+

subsection \<open>A call between saving and restoring the link register\<close>

text \<open>What a call, and a vector, leaves as it was: registers, and memory away from the stack.\<close>

definition kept_registers :: "core \<Rightarrow> core \<Rightarrow> bool" where
  "kept_registers c d \<longleftrightarrow> sp d = sp c \<and>
     (\<forall>n. 4 \<le> n \<and> n \<le> 11 \<longrightarrow> general d n = general c n) \<and> (\<forall>n. 8 \<le> n \<and> n \<le> 11 \<longrightarrow> fiq_general d n = fiq_general c n)"

definition stack_only :: "u32 \<Rightarrow> core \<Rightarrow> core \<Rightarrow> bool" where
  "stack_only a0 c d \<longleftrightarrow> (\<forall>a. unat a < unat a0 - 2052 \<or> unat a0 \<le> unat a \<longrightarrow>
     mem (shared d) a = mem (shared c) a)"

lemma saved_call:
  fixes v base :: u32 and f :: handler
  assumes call: "aapcs call" and room: "2052 \<le> unat (sp c (current c))"
    and same: "current d = current c" "lr d = lr c" "sp d = sp c" "spsr d = spsr c" "fiq_general d = fiq_general c"
      "shared d = shared c" "\<And>n. 4 \<le> n \<Longrightarrow> general d n = general c n"
  defines "m \<equiv> current c"
  defines "b \<equiv> d\<lparr>sp := (sp d)(m := sp d m - 4), shared := st (sp d m - 4) (lr d m) (shared d), lr := (lr d)(m := v)\<rparr>"
  defines "e \<equiv> execute call base Pop_lr (call f b)"
  shows "pc e = v + 4" and "lr e = lr c" and "kept_registers c e" and "spsr e = spsr c" and "stack_only (sp c m) c e" and "current e = m"
    and "console (shared e) = console (handled f b)" and "palloc (shared e) = palloc (shared c)"
    and "held (shared e) = held (shared c)"
    and "f = Svc_handler \<Longrightarrow> r e 0 = 0"
    and "\<And>n. general e n = general (call f b) n"
proof -
  note C = call [unfolded aapcs_def, rule_format, of f b]
  have m: "current b = m" unfolding b_def m_def using same by simp
  have cm: "current (call f b) = m" using C m by (auto simp: current_def)
  have cl: "(lr (call f b))(m := w) = (lr c)(m := w)" for w
  proof
    have "lr (call f b) x = lr b x" if "x \<noteq> m" for x using C that m by blast
    then show "((lr (call f b))(m := w)) x = ((lr c)(m := w)) x" for x by (simp add: b_def same)
  qed
  let ?a = "sp c m - 4"
  have "sp (call f b) = sp b" "spsr (call f b) = spsr b" using C by blast+
  then have cs: "(sp (call f b))(m := ?a + 4) = sp c" "spsr (call f b) = spsr c" by (simp_all add: b_def same)
  have ua: "unat ?a = unat (sp c m) - 4"
    using room unat_sub [of 4 "sp c m"] unfolding m_def by (simp add: word_le_nat_alt)
  have e: "e = (call f b)\<lparr>lr := (lr (call f b))(m := ld (shared (call f b)) ?a),
      sp := (sp (call f b))(m := ?a + 4), pc := v + 4\<rparr>"
    using C m cm unfolding e_def by (simp add: b_def same m_def Let_def)
  have out: "mem (shared (call f b)) a = mem (shared b) a"
    if "unat a < unat (sp c m) - 2052 \<or> unat (sp c m) - 4 \<le> unat a" for a
  proof -
    have "sp b (current b) = ?a" unfolding m by (simp add: b_def same)
    then show ?thesis using C that ua by auto
  qed
  have k: "unat (?a + of_nat k) = unat ?a + k" if "k < 4" for k
  proof -
    have "unat ?a + k < 2 ^ 32" using that ua room unat_lt32 [of "sp c m"] unfolding m_def by linarith
    then show ?thesis using that by (subst unat_add32) auto
  qed
  have "ld (shared (call f b)) ?a = ld (shared b) ?a"
    unfolding ld_def
  proof (rule load32_cong)
    fix k :: nat assume "k < 4"
    from k [OF this] show "mem (shared (call f b)) (?a + of_nat k) = mem (shared b) (?a + of_nat k)"
      using out ua by simp
  qed
  then have l: "ld (shared (call f b)) ?a = lr c m" by (simp add: b_def same ld_def st_def)
  show "pc e = v + 4" by (simp add: e)
  show "lr e = lr c" unfolding e l cl by simp
  have g: "general (call f b) n = general c n" "8 \<le> n \<Longrightarrow> fiq_general (call f b) n = fiq_general c n"
    if "4 \<le> n" "n \<le> 11" for n
    using C that cm m by (cases "n < 8"; auto simp: r_def b_def same split: if_splits)+
  show "kept_registers c e"
    unfolding kept_registers_def e using cs g by simp
  show "spsr e = spsr c" using cs by (simp add: e)
  show "stack_only (sp c m) c e"
    unfolding stack_only_def
  proof (intro allI impI)
    fix x :: u32 assume x: "unat x < unat (sp c m) - 2052 \<or> unat (sp c m) \<le> unat x"
    have "unat (?a + of_nat k) \<noteq> unat x" if "k < 4" for k
      using k [OF that] that x ua room unfolding m_def by auto
    from this [of 0] this [of 1] this [of 2] this [of 3]
    have "mem (shared b) x = mem (shared c) x" by (auto simp: b_def same st_def store32_def)
    moreover have "unat x < unat (sp c m) - 2052 \<or> unat (sp c m) - 4 \<le> unat x" using x by linarith
    ultimately show "mem (shared e) x = mem (shared c) x" using out [of x] by (simp add: e)
  qed
  show "current e = m" by (simp add: e cm)
  show "console (shared e) = console (handled f b)" using C by (simp add: e)
  show "palloc (shared e) = palloc (shared c)" using C by (simp add: e b_def same st_def)
  show "held (shared e) = held (shared c)" using C by (simp add: e b_def same st_def)
  show "r e 0 = 0" if "f = Svc_handler" using C that by (simp add: e r_def cm svc_entry_def)
  show "general e n = general (call f b) n" for n by (simp add: e)
qed

lemma run_at:
  "pc c = base + 4 * of_nat k \<Longrightarrow> k < 35 \<Longrightarrow>
   run_ivt call base (Suc n) c = run_ivt call base n (execute call base (ivt ! k) c)"
  by (simp add: step_at)

text \<open>The core as a vector hands it to its handler, \<open>k\<close> being the instruction after the call.\<close>

definition entered :: "u32 \<Rightarrow> nat \<Rightarrow> core \<Rightarrow> core" where
  "entered base k c = (let m = current c in
     c\<lparr>sp := (sp c)(m := sp c m - 4), shared := st (sp c m - 4) (lr c m) (shared c), lr := (lr c)(m := base + 4 * of_nat k)\<rparr>)"

lemma vector_with_argument:
  assumes "pc c = base + 4 * of_nat i" "i < 8" "ivt ! i = B k" "ivt ! k = Push_lr" "ivt ! (k + 1) = Sub_r0_lr n"
    "ivt ! (k + 2) = Bl f" "ivt ! (k + 3) = Pop_lr" "k < 31" "aapcs call"
  defines "d \<equiv> c\<lparr>general := (general c)(0 := lr c (current c) - n), pc := base + 4 * of_nat (k + 2)\<rparr>"
  shows "run_ivt call base 6 c =
    execute call base (ivt ! (k + 4)) (execute call base Pop_lr (call f (entered base (k + 3) d)))"
proof -
  define c1 where "c1 = c\<lparr>pc := base + 4 * of_nat k\<rparr>"
  define c2 where "c2 = execute call base Push_lr c1"
  define c3 where "c3 = execute call base (Sub_r0_lr n) c2"
  have p: "pc c1 = base + 4 * of_nat k" "pc c2 = base + 4 * of_nat (k + 1)" "pc c3 = base + 4 * of_nat (k + 2)"
    by (simp_all add: c1_def c2_def c3_def Let_def algebra_simps)
  have "c3\<lparr>lr := (lr c3)(current c3 := pc c3 + 4)\<rparr> = entered base (k + 3) d"
    unfolding p by (rule core.equality) (simp_all add: c3_def c2_def c1_def entered_def d_def Let_def algebra_simps)
  then have b: "execute call base (Bl f) c3 = call f (entered base (k + 3) d)" by simp
  have p4: "pc (call f (entered base (k + 3) d)) = base + 4 * of_nat (k + 3)"
    using assms(9) by (simp add: aapcs_def entered_def Let_def)
  then have p5: "pc (execute call base Pop_lr (call f (entered base (k + 3) d))) = base + 4 * of_nat (k + 4)"
    by (simp add: Let_def algebra_simps)
  have run: "run_ivt call base (Suc m) c' = run_ivt call base m (execute call base (ivt ! j) c')"
    if "pc c' = base + 4 * of_nat j" "j < 35" for c' m j
    using that by (rule run_at)
  have "run_ivt call base 6 c = run_ivt call base 5 c1"
    using run [OF assms(1), of 5] assms(2,3) by (simp add: c1_def)
  also have "\<dots> = run_ivt call base 4 c2" using run [OF p(1), of 4] assms(4,8) by (simp add: c2_def)
  also have "\<dots> = run_ivt call base 3 c3" using run [OF p(2), of 3] assms(5,8) by (simp add: c3_def)
  also have "\<dots> = run_ivt call base 2 (call f (entered base (k + 3) d))"
    using run [OF p(3), of 2] assms(6,8) b by simp
  also have "\<dots> = run_ivt call base 1 (execute call base Pop_lr (call f (entered base (k + 3) d)))"
    using run [OF p4, of 1] assms(7,8) by (simp add: numeral_2_eq_2)
  also have "\<dots> = execute call base (ivt ! (k + 4)) (execute call base Pop_lr (call f (entered base (k + 3) d)))"
    using run [OF p5, of 0] assms(8) by simp
  finally show ?thesis .
qed

lemma vector_without_argument:
  assumes "pc c = base + 4 * of_nat i" "i < 8" "ivt ! i = B k" "ivt ! k = Push_lr"
    "ivt ! (k + 1) = Bl f" "ivt ! (k + 2) = Pop_lr" "k < 32" "aapcs call"
  defines "d \<equiv> c\<lparr>pc := base + 4 * of_nat (k + 1)\<rparr>"
  shows "run_ivt call base 5 c =
    execute call base (ivt ! (k + 3)) (execute call base Pop_lr (call f (entered base (k + 2) d)))"
proof -
  define c1 where "c1 = c\<lparr>pc := base + 4 * of_nat k\<rparr>"
  define c2 where "c2 = execute call base Push_lr c1"
  have p: "pc c1 = base + 4 * of_nat k" "pc c2 = base + 4 * of_nat (k + 1)"
    by (simp_all add: c1_def c2_def Let_def algebra_simps)
  have "c2\<lparr>lr := (lr c2)(current c2 := pc c2 + 4)\<rparr> = entered base (k + 2) d"
    unfolding p by (rule core.equality) (simp_all add: c2_def c1_def entered_def d_def Let_def algebra_simps)
  then have b: "execute call base (Bl f) c2 = call f (entered base (k + 2) d)" by simp
  have p4: "pc (call f (entered base (k + 2) d)) = base + 4 * of_nat (k + 2)"
    using assms(8) by (simp add: aapcs_def entered_def Let_def)
  then have p5: "pc (execute call base Pop_lr (call f (entered base (k + 2) d))) = base + 4 * of_nat (k + 3)"
    by (simp add: Let_def algebra_simps)
  have run: "run_ivt call base (Suc m) c' = run_ivt call base m (execute call base (ivt ! j) c')"
    if "pc c' = base + 4 * of_nat j" "j < 35" for c' m j
    using that by (rule run_at)
  have "run_ivt call base 5 c = run_ivt call base 4 c1"
    using run [OF assms(1), of 4] assms(2,3) by (simp add: c1_def)
  also have "\<dots> = run_ivt call base 3 c2" using run [OF p(1), of 3] assms(4,7) by (simp add: c2_def)
  also have "\<dots> = run_ivt call base 2 (call f (entered base (k + 2) d))"
    using run [OF p(2), of 2] assms(5,7) b by simp
  also have "\<dots> = run_ivt call base 1 (execute call base Pop_lr (call f (entered base (k + 2) d)))"
    using run [OF p4, of 1] assms(6,7) by (simp add: numeral_2_eq_2)
  also have "\<dots> = execute call base (ivt ! (k + 3)) (execute call base Pop_lr (call f (entered base (k + 2) d)))"
    using run [OF p5, of 0] assms(7) by simp
  finally show ?thesis .
qed

subsection \<open>From the exception to the return\<close>

fun answered :: "cpu_exception \<Rightarrow> core \<Rightarrow> kstate" where
  "answered UndefinedInstruction c = undef_instr_handler (pc c) (shared c)"
| "answered SupervisorCall c = snd (svc_entry (r c 0) (r c 1) (r c 2) (r c 3) (shared c))"
| "answered PrefetchAbort c = prefetch_abort_handler (pc c) (shared c)"
| "answered DataAbort c = data_abort_handler (pc c) (shared c)"
| "answered Interrupt c = irq_handler (shared c)"
| "answered FastInterrupt c = fiq_handler (shared c)"

lemma taken [simp]:
  "current (take_exception base e c) = exception_mode e" "pc (take_exception base e c) = base + vector_offset e"
  "lr (take_exception base e c) = (lr c)(exception_mode e := pc c + link_offset e)"
  "spsr (take_exception base e c) = (spsr c)(exception_mode e := cpsr c)"
  "sp (take_exception base e c) = sp c" "general (take_exception base e c) = general c"
  "fiq_general (take_exception base e c) = fiq_general c" "shared (take_exception base e c) = shared c"
  by (simp_all add: take_exception_def Let_def current_def)

lemma routine_end:
  fixes base :: u32
  assumes call: "aapcs call" and room: "2052 \<le> unat (sp c (exception_mode e))"
    and d: "d = (take_exception base e c)\<lparr>general := g, pc := p\<rparr>" "\<And>n. 4 \<le> n \<Longrightarrow> g n = general c n"
    and ret: "ret = (if n = 0 then Movs_pc_lr else Subs_pc_lr n)"
    and fin: "fin = execute call base ret (execute call base Pop_lr (call f (entered base k d)))"
  shows "pc fin = pc c + link_offset e - n" "cpsr fin = cpsr c" "kept_registers c fin"
    "lr fin = (lr c)(exception_mode e := pc c + link_offset e)" "spsr fin = (spsr c)(exception_mode e := cpsr c)"
    "stack_only (sp c (exception_mode e)) c fin" "console (shared fin) = console (handled f (entered base k d))"
    "palloc (shared fin) = palloc (shared c)" "held (shared fin) = held (shared c)"
    "f = Svc_handler \<Longrightarrow> general fin 0 = 0"
    "\<And>j. general fin j = general (call f (entered base k d)) j"
proof -
  let ?c = "take_exception base e c"
  let ?x = "execute call base Pop_lr (call f (entered base k d))"
  have eb: "entered base k d = d\<lparr>sp := (sp d)(current ?c := sp d (current ?c) - 4),
      shared := st (sp d (current ?c) - 4) (lr d (current ?c)) (shared d), lr := (lr d)(current ?c := base + 4 * of_nat k)\<rparr>"
    by (simp add: entered_def d Let_def)
  note S = saved_call [OF call, where c = ?c and d = d and v = "base + 4 * of_nat k" and base = base and f = f, folded eb]
  have side: "2052 \<le> unat (sp ?c (current ?c))" "current d = current ?c" "lr d = lr ?c" "sp d = sp ?c" "spsr d = spsr ?c"
    "fiq_general d = fiq_general ?c" "shared d = shared ?c" "\<And>n. 4 \<le> n \<Longrightarrow> general d n = general ?c n"
    using room d by simp_all
  note S = S [OF side]
  have m: "current ?x = exception_mode e" using S(6) by (simp only: taken)
  have f: "pc fin = lr ?x (exception_mode e) - n" "cpsr fin = spsr ?x (exception_mode e)" "general fin = general ?x"
    "fiq_general fin = fiq_general ?x" "sp fin = sp ?x" "lr fin = lr ?x" "spsr fin = spsr ?x" "shared fin = shared ?x"
    using m unfolding fin ret by (auto simp del: execute.simps(5))
  show "pc fin = pc c + link_offset e - n" "cpsr fin = cpsr c" "kept_registers c fin"
    "lr fin = (lr c)(exception_mode e := pc c + link_offset e)" "spsr fin = (spsr c)(exception_mode e := cpsr c)"
    "stack_only (sp c (exception_mode e)) c fin" "console (shared fin) = console (handled f (entered base k d))"
    "palloc (shared fin) = palloc (shared c)" "held (shared fin) = held (shared c)"
    using S(2-5,7-9) by (simp_all add: f kept_registers_def stack_only_def del: execute.simps)
  show "general fin j = general (call f (entered base k d)) j" for j
    using S(11) by (simp only: f)
  show "general fin 0 = 0" if "f = Svc_handler"
    using S(10) [OF _ that] by (simp add: f r_def del: execute.simps)
qed

text \<open>The call each vector makes and the instruction it ends with, on the core \<open>at_call\<close>.\<close>

definition at_call :: "u32 \<Rightarrow> cpu_exception \<Rightarrow> (nat \<Rightarrow> u32) \<Rightarrow> u32 \<Rightarrow> core \<Rightarrow> core" where
  "at_call base e g p c = (take_exception base e c)\<lparr>general := g, pc := p\<rparr>"

fun vector_handler :: "cpu_exception \<Rightarrow> handler" where
  "vector_handler UndefinedInstruction = Undef_handler"
| "vector_handler SupervisorCall = Svc_handler"
| "vector_handler PrefetchAbort = Prefetch_handler"
| "vector_handler DataAbort = Data_handler"
| "vector_handler Interrupt = Irq_handler"
| "vector_handler FastInterrupt = Fiq_handler"

fun return_offset :: "cpu_exception \<Rightarrow> u32" where
  "return_offset UndefinedInstruction = 0"
| "return_offset SupervisorCall = 0"
| "return_offset PrefetchAbort = 4"
| "return_offset DataAbort = 8"
| "return_offset Interrupt = 4"
| "return_offset FastInterrupt = 4"

lemma vector_run:
  assumes "aapcs call"
  shows "\<exists>g p k. exception_run call base e c =
      execute call base (if return_offset e = 0 then Movs_pc_lr else Subs_pc_lr (return_offset e))
        (execute call base Pop_lr (call (vector_handler e) (entered base k (at_call base e g p c)))) \<and>
      (\<forall>j. j \<noteq> 0 \<longrightarrow> g j = general c j) \<and>
      console (handled (vector_handler e) (entered base k (at_call base e g p c))) = console (answered e c)"
proof -
  let ?c = "take_exception base e c"
  note A = vector_with_argument [where c = ?c and base = base, OF _ _ _ _ _ _ _ _ assms]
  note N = vector_without_argument [where c = ?c and base = base, OF _ _ _ _ _ _ _ assms]
  have same: "?c\<lparr>pc := p\<rparr> = at_call base e (general c) p c" for p
    by (rule core.equality) (simp_all add: at_call_def)
  note simps = exception_run_def at_call_def entered_def Let_def handler_simps r_def st_def
  show ?thesis
  proof (cases e)
    case UndefinedInstruction
    then show ?thesis using A [of 1 8 4 Undef_handler]
      by (intro exI [of _ "(general c)(0 := pc c)"] exI [of _ "base + 4 * of_nat 10"] exI [of _ 11]) (simp add: simps)
  next
    case PrefetchAbort
    then show ?thesis using A [of 3 17 4 Prefetch_handler]
      by (intro exI [of _ "(general c)(0 := pc c)"] exI [of _ "base + 4 * of_nat 19"] exI [of _ 20]) (simp add: simps)
  next
    case DataAbort
    then show ?thesis using A [of 4 22 8 Data_handler]
      by (intro exI [of _ "(general c)(0 := pc c)"] exI [of _ "base + 4 * of_nat 24"] exI [of _ 25]) (simp add: simps)
  next
    case SupervisorCall
    then show ?thesis using N [of 2 13 Svc_handler, unfolded same]
      by (intro exI [of _ "general c"] exI [of _ "base + 4 * of_nat 14"] exI [of _ 15]) (simp add: simps)
  next
    case Interrupt
    then show ?thesis using N [of 6 27 Irq_handler, unfolded same]
      by (intro exI [of _ "general c"] exI [of _ "base + 4 * of_nat 28"] exI [of _ 29]) (simp add: simps)
  next
    case FastInterrupt
    then show ?thesis using N [of 7 31 Fiq_handler, unfolded same]
      by (intro exI [of _ "general c"] exI [of _ "base + 4 * of_nat 32"] exI [of _ 33]) (simp add: simps)
  qed
qed

lemma vector_outcome:
  fixes base :: u32
  assumes call: "aapcs call" and room: "2052 \<le> unat (sp c (exception_mode e))"
  defines "d \<equiv> exception_run call base e c"
  shows "pc d = pc c + link_offset e - return_offset e" "cpsr d = cpsr c" "kept_registers c d"
    "lr d = (lr c)(exception_mode e := pc c + link_offset e)" "spsr d = (spsr c)(exception_mode e := cpsr c)"
    "stack_only (sp c (exception_mode e)) c d" "console (shared d) = console (answered e c)"
    "palloc (shared d) = palloc (shared c)" "held (shared d) = held (shared c)"
    "e = SupervisorCall \<Longrightarrow> general d 0 = 0"
    "\<exists>x. general d = general (call (vector_handler e) x)"
proof -
  obtain g p k where run: "d = execute call base (if return_offset e = 0 then Movs_pc_lr else Subs_pc_lr (return_offset e))
        (execute call base Pop_lr (call (vector_handler e) (entered base k (at_call base e g p c))))"
    and g: "\<forall>j. j \<noteq> 0 \<longrightarrow> g j = general c j"
    and con: "console (handled (vector_handler e) (entered base k (at_call base e g p c))) = console (answered e c)"
    using vector_run [OF call, of base e c] unfolding d_def by blast
  have g': "g n = general c n" if "4 \<le> n" for n using g that by simp
  note R = routine_end [OF call room at_call_def g' refl run]
  show "pc d = pc c + link_offset e - return_offset e" "cpsr d = cpsr c" "kept_registers c d"
    "lr d = (lr c)(exception_mode e := pc c + link_offset e)" "spsr d = (spsr c)(exception_mode e := cpsr c)"
    "stack_only (sp c (exception_mode e)) c d" "console (shared d) = console (answered e c)"
    "palloc (shared d) = palloc (shared c)" "held (shared d) = held (shared c)"
    using R(1-9) con by simp_all
  show "general d 0 = 0" if "e = SupervisorCall" using R(10) that by simp
  show "\<exists>x. general d = general (call (vector_handler e) x)"
    using R(11) by (intro exI [of _ "entered base k (at_call base e g p c)"]) (auto simp: fun_eq_iff)
qed

lemma kept_r: "kept_registers c d \<Longrightarrow> cpsr d = cpsr c \<Longrightarrow> 4 \<le> n \<Longrightarrow> n \<le> 11 \<Longrightarrow> r d n = r c n"
  by (auto simp: kept_registers_def r_def current_def)

text \<open>A compiled function that changes all it may of \<open>r0\<close> to \<open>r3\<close>: it leaves \<open>k\<close> in them.\<close>

definition clobbering :: "(nat \<Rightarrow> u32) \<Rightarrow> handler \<Rightarrow> core \<Rightarrow> core" where
  "clobbering k f c = c\<lparr>general := (\<lambda>n. if 3 < n then general c n
       else if f = Svc_handler \<and> n = 0 then fst (svc_entry (r c 0) (r c 1) (r c 2) (r c 3) (shared c)) else k n),
     pc := lr c (current c), shared := handled f c\<rparr>"

lemma psr_flags_same: "\<exists>fl. p = p\<lparr>psr_flags := fl\<rparr>"
  by (cases p) (auto simp: psr.defs)

lemma aapcs_clobbering: "aapcs (clobbering k)"
  unfolding aapcs_def by (auto simp: clobbering_def r_def current_def psr_flags_same)

subsection \<open>Properties\<close>

text \<open>
  C5: with handlers that keep to the procedure call standard and 2 KiB and a word of stack in the mode
  of the exception, every vector returns: to the next instruction after an undefined instruction or a
  supervisor call, else to the instruction itself, with the status, \<open>r4\<close> to \<open>r11\<close>, all stack pointers
  and the link registers of the other modes as they were, after the handler has printed its lines with
  the address of the instruction concerned, and with memory unchanged but for that stack.
\<close>

theorem vector_returns:
  assumes "aapcs call" "2052 \<le> unat (sp c (exception_mode e))"
  shows "let d = exception_run call base e c; m = exception_mode e in
    pc d = (if e = UndefinedInstruction \<or> e = SupervisorCall then pc c + 4 else pc c) \<and>
    cpsr d = cpsr c \<and> sp d = sp c \<and> (\<forall>n \<in> {4..11}. r d n = r c n) \<and>
    (\<forall>x. x \<noteq> m \<longrightarrow> lr d x = lr c x \<and> spsr d x = spsr c x) \<and>
    console (shared d) = console (answered e c) \<and> palloc (shared d) = palloc (shared c) \<and>
    held (shared d) = held (shared c) \<and> stack_only (sp c m) c d"
  using vector_outcome [OF assms, of base] kept_r [of c "exception_run call base e c"]
  by (cases e) (auto simp: Let_def kept_registers_def)

text \<open>A core in supervisor mode with the loader's temporary stacks, for the witnesses.\<close>

definition loader_core :: "kstate \<Rightarrow> core" where
  "loader_core s = \<lparr>general = of_nat, fiq_general = of_nat, sp = (\<lambda>_. 0x818000), lr = (\<lambda>_. 0x10400),
     spsr = (\<lambda>_. \<lparr>psr_mode = SupervisorMode, irq_masked = True, fiq_masked = True, abort_masked = True, psr_flags = 0\<rparr>),
     cpsr = \<lparr>psr_mode = SupervisorMode, irq_masked = True, fiq_masked = True, abort_masked = True, psr_flags = 0\<rparr>,
     pc = 0x10040, shared = s\<rparr>"

theorem vector_returns_witness:
  "\<forall>s. pc (exception_run (clobbering (\<lambda>_. 7)) 0x11000 DataAbort (loader_core s)) = 0x10040"
proof
  fix s
  show "pc (exception_run (clobbering (\<lambda>_. 7)) 0x11000 DataAbort (loader_core s)) = 0x10040"
    using vector_returns [OF aapcs_clobbering, of "loader_core s" DataAbort "\<lambda>_. 7" "0x11000"]
    by (simp add: loader_core_def Let_def)
qed

text \<open>
  C30: the vectors save only the link register: whatever is interrupted, by whichever exception, a handler
  that keeps to the procedure call standard may leave each of \<open>r0\<close> to \<open>r3\<close> changed (but for the result of
  a supervisor call).
\<close>

theorem vectors_lose_registers:
  assumes "2052 \<le> unat (sp c (exception_mode e))"
  shows "\<exists>call. aapcs call \<and>
    (\<forall>n \<in> {0..3} - (if e = SupervisorCall then {0} else {}). r (exception_run call base e c) n \<noteq> r c n)"
proof (intro exI conjI ballI)
  let ?k = "\<lambda>n. general c n + 1"
  show "aapcs (clobbering ?k)" by (rule aapcs_clobbering)
  fix n :: nat assume n: "n \<in> {0..3} - (if e = SupervisorCall then {0} else {})"
  obtain x where x: "general (exception_run (clobbering ?k) base e c) = general (clobbering ?k (vector_handler e) x)"
    using vector_outcome(11) [OF aapcs_clobbering assms] by blast
  show "r (exception_run (clobbering ?k) base e c) n \<noteq> r c n"
    using n x by (cases e) (auto simp: r_def clobbering_def split: if_splits)
qed

theorem vectors_lose_registers_witness:
  "\<forall>s. \<exists>call. aapcs call \<and> r (exception_run call 0x11000 Interrupt (loader_core s)) 3 \<noteq> 3"
proof
  fix s
  obtain call where c: "aapcs call"
    "\<forall>n \<in> {0..3}. r (exception_run call 0x11000 Interrupt (loader_core s)) n \<noteq> r (loader_core s) n"
    using vectors_lose_registers [of "loader_core s" Interrupt "0x11000"] by (auto simp: loader_core_def)
  have "r (exception_run call 0x11000 Interrupt (loader_core s)) 3 \<noteq> r (loader_core s) 3" using c(2) by simp
  moreover have "r (loader_core s) 3 = 3" by (simp add: r_def loader_core_def)
  ultimately show "\<exists>call. aapcs call \<and> r (exception_run call 0x11000 Interrupt (loader_core s)) 3 \<noteq> 3"
    using c(1) by auto
qed

text \<open>
  C31: a supervisor call made in supervisor mode, as the loader makes one, puts the return address into the
  caller's own link register and the result into its \<open>r0\<close>.
\<close>

theorem svc_overwrites_link:
  assumes "aapcs call" "2052 \<le> unat (sp c SupervisorMode)" "current c = SupervisorMode"
  shows "let d = exception_run call base SupervisorCall c in
    current d = SupervisorMode \<and> lr d SupervisorMode = pc c + 4 \<and> r d 0 = 0"
  using vector_outcome [of call c SupervisorCall base] assms by (simp add: Let_def current_def r_def)

theorem svc_overwrites_link_witness:
  "\<forall>s. lr (exception_run (clobbering of_nat) 0x11000 SupervisorCall (loader_core s)) SupervisorMode = 0x10044"
proof
  fix s
  have "pc (loader_core s) = 0x10040" by (simp add: loader_core_def)
  then show "lr (exception_run (clobbering of_nat) 0x11000 SupervisorCall (loader_core s)) SupervisorMode = 0x10044"
    using svc_overwrites_link [OF aapcs_clobbering, of "loader_core s" of_nat "0x11000"]
    by (simp add: Let_def) (simp add: loader_core_def current_def)
qed

end
