(* ===== verification/Exceptions_Correct.thy ===== *)
theory Exceptions_Correct
  imports Vectors_Correct Image
begin

unbundle bit_operations_syntax

text \<open>
  Exceptions while the kernel is being loaded: on the stacks the loader has set up, any sequence of them
  leaves page tables, reference counts and translation as they are.
\<close>

subsection \<open>Sequences of exceptions\<close>

text \<open>Between two exceptions code may run that changes registers; it stays off memory and the stack pointers.\<close>

inductive exceptions :: "(handler \<Rightarrow> core \<Rightarrow> core) \<Rightarrow> u32 \<Rightarrow> core \<Rightarrow> core \<Rightarrow> bool" for call base c where
  no_exception: "exceptions call base c c"
| exception: "exceptions call base c d \<Longrightarrow> e \<noteq> SupervisorCall \<Longrightarrow> exceptions call base c (exception_run call base e d)"
| other_code: "exceptions call base c d \<Longrightarrow> shared d' = shared d \<Longrightarrow> sp d' = sp d \<Longrightarrow> exceptions call base c d'"

definition on_stacks :: "mode_stacks \<Rightarrow> core \<Rightarrow> bool" where
  "on_stacks sps c \<longleftrightarrow> sp c FiqMode = fiq_stack sps \<and> sp c IrqMode = irq_stack sps \<and>
     sp c AbortMode = abort_stack sps \<and> sp c UndefinedMode = undef_stack sps"

lemma on_stacks_top: "on_stacks sps c \<Longrightarrow> e \<noteq> SupervisorCall \<Longrightarrow> sp c (exception_mode e) \<in> set (stack_tops sps)"
  by (cases e) (auto simp: on_stacks_def stack_tops_def)

text \<open>A stack is the page below its top.\<close>

lemma stack_window:
  assumes "aligned 12 t0" "stack_frame t0 < 2 ^ 20 - 1"
  shows "unat t0 = 4096 * Suc (stack_frame t0)"
proof -
  have "4096 dvd unat t0" using assms(1) by (simp add: aligned_def dvd_eq_mod_eq_0)
  then obtain q where q: "unat t0 = 4096 * q" by (elim dvdE)
  show ?thesis
  proof (cases q)
    case 0
    then have "t0 = 0" using q by (simp add: word_eq_iff_unat32)
    then have "stack_frame t0 = 2 ^ 20 - 1" by (simp add: stack_frame_def frame_def)
    then show ?thesis using assms(2) by simp
  next
    case (Suc f)
    then have "unat (t0 - PAGE_SIZE) = 4096 * f" using q by (subst unat_sub) (simp_all add: word_le_nat_alt)
    then show ?thesis using q Suc by (simp add: stack_frame_def frame_def)
  qed
qed

lemma stack_only_frame:
  assumes "stack_only a c d" "unat a = 4096 * Suc f" "frame b \<noteq> f"
  shows "mem (shared d) b = mem (shared c) b"
proof -
  have "unat b < 4096 * f \<or> 4096 * Suc f \<le> unat b"
  proof (rule ccontr)
    assume "\<not> ?thesis"
    then have "unat b div 4096 = f" by (intro div_nat_eqI) simp_all
    then show False using assms(3) by (simp add: frame_def)
  qed
  then have "unat b < unat a - 2052 \<or> unat a \<le> unat b" using assms(2) by auto
  then show ?thesis using assms(1) by (auto simp: stack_only_def)
qed

subsection \<open>What every exception keeps\<close>

definition kept :: "PageTable set \<Rightarrow> (nat \<Rightarrow> nat) \<Rightarrow> mode_stacks \<Rightarrow> kstate \<Rightarrow> core \<Rightarrow> bool" where
  "kept T outside sps s c \<longleftrightarrow> on_stacks sps c \<and> books T outside (shared c) \<and> npages (shared c) = npages s \<and>
     (\<forall>pt \<in> T. undisturbed pt s (shared c)) \<and> (\<forall>f. owned s f \<longrightarrow> owned (shared c) f) \<and>
     (\<forall>b. frame b \<notin> set (stack_frames sps) \<longrightarrow> mem (shared c) b = mem s b)"

lemma kept_exception:
  assumes call: "aapcs call" and e: "e \<noteq> SupervisorCall" and k: "kept T outside sps s c"
    and stk: "stacks_ok sps s" "\<forall>f \<in> set (stack_frames sps). \<forall>pt \<in> T. f \<notin> table_frames pt s" and n: "npages s < 2 ^ 20"
  shows "kept T outside sps s (exception_run call base e c)"
    and "pc (exception_run call base e c) = (if e = UndefinedInstruction then pc c + 4 else pc c)"
    and "cpsr (exception_run call base e c) = cpsr c"
proof -
  note K = k [unfolded kept_def]
  let ?d = "exception_run call base e c" and ?top = "sp c (exception_mode e)"
  let ?f = "stack_frame ?top"
  have top: "?top \<in> set (stack_tops sps)" using K e on_stacks_top by blast
  then have f: "?f \<in> set (stack_frames sps)" by (simp add: stack_frames_def)
  have al: "aligned 12 ?top" and own0: "owned s ?f" using stk(1) top f by (auto simp: stacks_ok_def list_all_iff)
  have own: "owned (shared c) ?f" using K own0 by blast
  have "?f < 2 ^ 20 - 1" using owned_less [OF own0] n by simp
  note w = stack_window [OF al this]
  have room: "2052 \<le> unat ?top" using w by simp
  note V = vector_outcome [OF call room, of base]
  define u where "u = (shared ?d)\<lparr>console := console (shared c)\<rparr>"
  obtain bs where bs: "console (shared ?d) = console (shared c) @ bs"
    using V(7) by (cases e) (auto simp: handler_simps)
  have t: "shared ?d = emit bs u" using bs by (simp add: emit_def u_def)
  have same: "mem (shared ?d) b = mem (shared c) b" if "frame b \<noteq> ?f" for b
    by (rule stack_only_frame [OF V(6) w that])
  have wr: "writes {?f} (shared c) u" using V(8,9) same by (simp add: writes_def u_def)
  have free: "?f \<notin> table_frames pt (shared c)" if "pt \<in> T" for pt
    using that K stk(2) f by (auto simp: undisturbed_def)
  have B: "books T outside u" "\<And>pt. pt \<in> T \<Longrightarrow> undisturbed pt (shared c) u"
    using books_writes [of T outside "shared c" "{?f}" u] K wr own free by blast+
  note C = writes_counts [OF wr, simplified]
  have keep: "undisturbed pt s (shared ?d)" if "pt \<in> T" for pt
  proof -
    have "undisturbed pt s u" using undisturbed_trans [of pt s "shared c" u] K B(2) that by blast
    then show ?thesis unfolding t by (simp add: undisturbed_def)
  qed
  have "sp ?d = sp c" using V(3) by (simp add: kept_registers_def)
  moreover have "npages (shared ?d) = npages s" "owned (shared ?d) = owned (shared c)"
    using C(1,5) own K unfolding t by simp_all
  moreover have "books T outside (shared ?d)" using B(1) unfolding t by simp
  moreover have "mem (shared ?d) b = mem s b" if "frame b \<notin> set (stack_frames sps)" for b
    using same [of b] f that K by metis
  ultimately show "kept T outside sps s ?d" using K keep by (simp add: kept_def on_stacks_def)
  show "pc ?d = (if e = UndefinedInstruction then pc c + 4 else pc c)" using V(1) e by (cases e) simp_all
  show "cpsr ?d = cpsr c" by (rule V(2))
qed

lemma kept_exceptions:
  assumes "exceptions call base c d" "aapcs call" "kept T outside sps s c" "stacks_ok sps s"
    "\<forall>f \<in> set (stack_frames sps). \<forall>pt \<in> T. f \<notin> table_frames pt s" "npages s < 2 ^ 20"
  shows "kept T outside sps s d"
  using assms
proof (induction rule: exceptions.induct)
  case (exception d e)
  then show ?case using kept_exception(1) by blast
next
  case (other_code d d')
  then show ?case by (simp add: kept_def on_stacks_def)
qed

lemma kept_boot_tables:
  assumes "kept {lower, upper} outside sps s c" "boot_tables memory lower upper s"
  shows "boot_tables memory lower upper (shared c)"
proof -
  have B: "books {lower, upper} outside (shared c)" and u: "undisturbed lower s (shared c)" "undisturbed upper s (shared c)"
    using assms(1) by (simp_all add: kept_def)
  have "ready lower (shared c)" "ready upper (shared c)" using booksD(4) [OF B] by simp_all
  then show ?thesis using assms(2) u by (simp add: boot_tables_def ready_def undisturbed_def)
qed

text \<open>
  C4: exceptions leave the system intact.  Once the loader has turned paging on, whatever sequence of
  undefined instructions, aborts and interrupts is taken on the stacks it allocated, with code between
  them that only changes registers, and handlers that keep to the procedure call standard: the reference
  counts stay accounted for, the translation of every address stays the identity on RAM and devices, the
  stack pointers stay, and memory changes in the four pages of the stacks only.
\<close>

theorem exceptions_keep_kernel:
  assumes b: "bootable env a memory m" and room: "roomy env memory" and tr: "obeys_tables (mmu env)"
    and le: "unat (get_num_allocation_units memory GSection) \<le> 512" and call: "aapcs call"
  shows "\<exists>lower upper m'. loader_main env r0 r1 a status m = start_kernel env lower upper m' \<and>
    (\<forall>c d. shared c = sys m' \<and> on_stacks (stacks m') c \<and> exceptions call (vector_base m') c d \<longrightarrow>
       books {lower, upper} (boot_references env memory (stacks m')) (shared d) \<and> on_stacks (stacks m') d \<and>
       (\<forall>va. mmu env (coproc m') (shared d) va =
          (if frame va \<in> identity_pages memory \<and> unat va < 2 ^ 31 then Some va else None)) \<and>
       (\<forall>b. frame b \<notin> set (stack_frames (stacks m')) \<longrightarrow> mem (shared d) b = mem (sys m') b))"
proof -
  obtain lower upper m1 where k: "loader_main env r0 r1 a status m = start_kernel env lower upper (enable_paging lower upper m1)"
    "boot_tables memory lower upper (sys m1)" "stacks_ok (stacks m1) (sys m1)"
    "books {lower, upper} (boot_references env memory (stacks m1)) (sys m1)" "boot_leaves env memory (mem (sys m)) lower upper (sys m1)"
    and free: "\<forall>f \<in> set (stack_frames (stacks m1)). f \<notin> table_frames lower (sys m1) \<and> f \<notin> table_frames upper (sys m1)"
    by (rule loader_enters [OF b room le, of r0 r1 status]) blast
  let ?m = "enable_paging lower upper m1"
  have s: "sys ?m = emit (line_of ''Paging enabled'') (sys m1)" "stacks ?m = stacks m1"
    by (simp_all add: enable_paging_def say_def Let_def)
  have bt: "boot_tables memory lower upper (sys ?m)" using k(2) by (simp add: s boot_tables_def)
  have n: "npages (sys ?m) < 2 ^ 20"
    using k(5) frame_less [of memory] by (simp add: s boot_leaves_def frame_def)
  have sok: "stacks_ok (stacks ?m) (sys ?m)" using k(3) by (simp add: s stacks_ok_def)
  have fr: "\<forall>f \<in> set (stack_frames (stacks ?m)). \<forall>pt \<in> {lower, upper}. f \<notin> table_frames pt (sys ?m)"
    using free by (simp add: s)
  have "kept {lower, upper} (boot_references env memory (stacks ?m)) (stacks ?m) (sys ?m) d"
    if "shared c = sys ?m" "on_stacks (stacks ?m) c" "exceptions call (vector_base ?m) c d" for c d
  proof (rule kept_exceptions [OF that(3) call _ sok fr n])
    show "kept {lower, upper} (boot_references env memory (stacks ?m)) (stacks ?m) (sys ?m) c"
      using that(1,2) k(4) by (simp add: kept_def undisturbed_def s)
  qed
  then have "books {lower, upper} (boot_references env memory (stacks ?m)) (shared d) \<and> on_stacks (stacks ?m) d \<and>
      (\<forall>va. mmu env (coproc ?m) (shared d) va = (if frame va \<in> identity_pages memory \<and> unat va < 2 ^ 31 then Some va else None)) \<and>
      (\<forall>b. frame b \<notin> set (stack_frames (stacks ?m)) \<longrightarrow> mem (shared d) b = mem (sys ?m) b)"
    if "shared c = sys ?m \<and> on_stacks (stacks ?m) c \<and> exceptions call (vector_base ?m) c d" for c d
    using that boot_translation [OF kept_boot_tables [OF _ bt] tr, of _ _ d m1] unfolding kept_def by blast
  then show ?thesis using k(1) by blast
qed

definition core_of :: "machine \<Rightarrow> core" where
  "core_of m = (loader_core (sys m))\<lparr>sp := (\<lambda>x. case x of FiqMode \<Rightarrow> fiq_stack (stacks m) | IrqMode \<Rightarrow> irq_stack (stacks m)
     | AbortMode \<Rightarrow> abort_stack (stacks m) | UndefinedMode \<Rightarrow> undef_stack (stacks m) | _ \<Rightarrow> 0x8000)\<rparr>"

theorem exceptions_keep_kernel_witness:
  "\<exists>lower upper m' d. loader_main pi_env 0 0xc42 0x100 0 (pi (tagged 0 0x80000)) = start_kernel pi_env lower upper m' \<and>
     d = exception_run (clobbering of_nat) (vector_base m') Interrupt
           (exception_run (clobbering of_nat) (vector_base m') DataAbort (core_of m')) \<and>
     mmu pi_env (coproc m') (shared d) 0x7fffc = Some 0x7fffc"
proof -
  have le: "unat (get_num_allocation_units 0x80000 GSection) \<le> 512" by (simp add: pi_sections)
  obtain lower upper m' where k: "loader_main pi_env 0 0xc42 0x100 0 (pi (tagged 0 0x80000)) = start_kernel pi_env lower upper m'"
    and keep: "\<And>c d. shared c = sys m' \<Longrightarrow> on_stacks (stacks m') c \<Longrightarrow> exceptions (clobbering of_nat) (vector_base m') c d \<Longrightarrow>
      \<forall>va. mmu pi_env (coproc m') (shared d) va =
        (if frame va \<in> identity_pages 0x80000 \<and> unat va < 2 ^ 31 then Some va else None)"
    using exceptions_keep_kernel [OF pi_ram(1,2) pi_simps(4) le aapcs_clobbering, of 0 "0xc42" 0 of_nat] by blast
  let ?d = "exception_run (clobbering of_nat) (vector_base m') Interrupt
    (exception_run (clobbering of_nat) (vector_base m') DataAbort (core_of m'))"
  have "exceptions (clobbering of_nat) (vector_base m') (core_of m') ?d"
    by (intro exceptions.intros) simp_all
  then have "mmu pi_env (coproc m') (shared ?d) 0x7fffc = Some 0x7fffc"
    using keep [of "core_of m'" ?d]
    by (simp add: core_of_def loader_core_def on_stacks_def identity_pages_def pi_sections frame_def)
  then show ?thesis using k by blast
qed

end
