(* ===== verification/Spec2Isabelle.thy ===== *)
theory Spec2Isabelle
  imports Alloc_Correct Table_Correct Lifetime_Correct Boot_Correct Elf_Correct Loader_Tests Platform_Correct
    Kernel_Correct Map_Correct Listing_Correct Image_Correct Load_Correct
    Start_Correct Exceptions_Correct
begin

text \<open>
  \<^bold>\<open>Phlogiston\<close>: a bare-metal kernel and its loader for the Raspberry Pi (ARMv6, 32-bit, little
  endian).  The firmware starts \<^verbatim>\<open>boot.S\<close>, which calls \<open>loader_main\<close>.  The loader reads the tags the
  firmware left (\<^verbatim>\<open>atags.cc\<close>), puts the physical page allocator over the RAM they describe
  (\<^verbatim>\<open>page_alloc.cc\<close>), takes stacks for the exception modes from it, builds two page tables
  (\<^verbatim>\<open>pagetable.cc\<close>), one that maps RAM and the devices to themselves and an empty one for the upper
  half, turns paging on, loads the ELF image of the kernel into the upper half (\<^verbatim>\<open>elf_loader.cc\<close>) and
  jumps to it (\<^verbatim>\<open>kernel_entry.cc\<close>).  Built with \<open>RUN_TESTS\<close> it runs the tests of the page tables instead
  (\<^verbatim>\<open>pagetable_tests.cc\<close>) and then sends back every byte it receives.  All files are in \<^verbatim>\<open>src/src/\<close>.

  \<^bold>\<open>The state.\<close>  Machine integers are words of their width.  Memory is one byte per 32-bit address;
  the tables, headers and reference counts lie in it as they do on the machine, so aliasing is part of
  the model.  \<open>kstate\<close> is what the kernel objects share: memory, the bytes sent to the console, the
  members of the allocator, the locks held.  \<open>machine\<close> adds the registers the inline assembly sets.  An
  operation returns an \<open>outcome\<close>: \<open>Ok\<close> with a value and a state, \<open>Panic\<close> with the code and the state
  in which the panic loops, \<open>Spin\<close> when the run never ends, \<open>Undef\<close> where the C++ has no meaning.
  Loops that need not end are partial functions, whose \<open>None\<close> is the endless run; there is no fuel and
  no bound chosen for the model; only the loop that is meant never to end, the echo of the test build, is
  given by its first \<open>n\<close> rounds, and what is shown of it holds for every \<open>n\<close>.

  \<^bold>\<open>The theories\<close>, definitions first.
  \<^item> \<open>Prelude\<close>, \<open>Memory\<close>: the types of \<^verbatim>\<open>common.h\<close>, alignment and page frames; bytes and words in
    memory, and \<^verbatim>\<open>utility.cc\<close>.  The laws of a store are the locale \<open>addressed_store\<close>, interpreted for
    words and for bytes.
  \<^item> \<open>Uart\<close>: \<^verbatim>\<open>mmio.cc\<close> and \<^verbatim>\<open>uart.cc\<close> over a trace of register accesses; the device is a parameter.
    The locale \<open>byte_sink\<close> is what printing needs of a byte output, interpreted for \<open>uart_putc\<close>.
  \<^item> \<open>Spinlock\<close>: \<^verbatim>\<open>spinlock.h\<close>, \<^verbatim>\<open>spinlock.cc\<close>, as a step relation over any number of contexts and as
    the scope \<open>with_lock\<close> the other parts use.
  \<^item> \<open>Kernel\<close>: \<open>kstate\<close>, outcomes, \<^verbatim>\<open>panic.h\<close>, \<^verbatim>\<open>panic.cc\<close>.
  \<^item> \<open>Page_Alloc\<close>: \<^verbatim>\<open>page_alloc.h\<close>, \<^verbatim>\<open>page_alloc.cc\<close>, one definition per method.  \<open>Page_Alloc_Inv\<close> and
    \<open>Page_Alloc_Ops\<close>: the invariant \<open>pa_wf\<close>, the counts as a function on pages, the scan of \<open>alloc\<close>, the
    effect of every operation.  \<open>Alloc_Room\<close>: when an allocation cannot fail.  \<open>Alloc_Correct\<close>: the
    properties.
  \<^item> \<open>Page_Provider\<close>: the interface of the page tables to the allocator, a locale interpreted on
    \<open>alloc\<close>: a block handed out was owned by nobody, and what is owned keeps its contents.
  \<^item> \<open>Page_Table\<close>, \<open>Table_Print\<close>, \<open>Paging_Manager\<close>: the classes \<open>PageTable\<close> and \<open>PagingManager\<close> of
    \<^verbatim>\<open>pagetable.h\<close> and \<^verbatim>\<open>pagetable.cc\<close>.  \<open>Descriptors\<close>: the fields of the words they write.
  \<^item> \<open>Page_Table_Inv\<close>, \<open>Page_Table_Step\<close>: the invariant \<open>pt_wf\<close>, the abstract view \<open>pview\<close> (each virtual
    page is free, reserved or mapped to a physical page), the effect of one descriptor write.
    \<open>Table_Reserve\<close>, \<open>Table_Commit\<close>, \<open>Table_Allocate\<close>, \<open>Table_Life\<close>, \<open>Table_Ops\<close>: the operations,
    reduced to the view.  \<open>Table_Correct\<close>: the properties.
  \<^item> \<open>Table_Search\<close>: the searches of \<open>reserve\<close> without an address, complete for every granularity.
    \<open>Reserver\<close>: the interface of both forms of \<open>reserve\<close> to those who use the address space, a locale
    interpreted on each.  \<open>Table_Room\<close>, \<open>Allocate_Room\<close>: the memory second-level tables and
    allocated units take, and that with it no request runs out.  \<open>Table_Destroy\<close>: the list of pages the
    destructor releases, counted.
  \<^item> \<open>Table_Change\<close>: what any operation on a table does to the rest, a relation \<open>change\<close> that composes:
    other tables stay, what is in use stays in use, counts move with the references of the table.
    \<open>Table_System\<close>: the \<open>books\<close> of any number of tables over one allocator, kept by every change, by
    construction and destruction, and by references taken and given back outside of the tables.
    \<open>Kernel_Requests\<close>: the interface of \<open>PageTable\<close> as requests, what a caller has to respect
    (\<open>proper\<close>), and the kernel as a step relation over requests, allocations and references.
    \<open>Kernel_Correct\<close>, \<open>Map_Correct\<close>: the properties.
  \<^item> \<open>Table_Lifetime\<close>: the books of one table from its construction on, settled by its destructor.
    \<open>Lifetime_Correct\<close>: the properties.
  \<^item> \<open>Listing_Correct\<close>: the reference for the listing of a table, maximal runs of units, and that the one
    pass of the code prints it.
  \<^item> \<open>Table_Tests\<close>: \<^verbatim>\<open>pagetable_tests.cc\<close>, one definition per test over the three shapes they have.
    \<open>Tests_Steps\<close>: the state between two tests, and that a test of each shape passes.
    \<open>Tests_Correct\<close>: all of them in their order.  \<open>Loader_Tests\<close>: the build of the loader that runs
    them.
  \<^item> \<open>Atags\<close>, \<open>Elf\<close>, \<open>Elf_Loader\<close>: \<^verbatim>\<open>atags.cc\<close>, the part of \<^verbatim>\<open>elf.h\<close> in use, \<^verbatim>\<open>elf_loader.cc\<close>.
    \<open>Elf_Steps\<close>, \<open>Elf_Correct\<close>: loading segments and sections.  \<open>Load_Room\<close>: the memory the segments
    take, that with it they get their pages, and which files are turned down then.  \<open>Image\<close>: images and
    the loading of a whole one.  \<open>Image_Correct\<close>: from \<open>loader_main\<close> to the kernel.  \<open>Load_Correct\<close>:
    \<open>load_elf\<close> on its own, loaded or turned down.
  \<^item> \<open>Boot\<close>: \<^verbatim>\<open>loader_main.cc\<close>, the C++ exception handlers, \<^verbatim>\<open>kernel_entry.cc\<close>.  \<open>Mmu\<close>: the walk the
    architecture documents.  \<open>Boot_Steps\<close>, \<open>Boot_Correct\<close>: the sequence as a whole.
  \<^item> \<open>Start_Up\<close>: \<^verbatim>\<open>boot.S\<close> and the layout \<^verbatim>\<open>loader_link.ld\<close> gives the loader.  \<open>Start_Correct\<close>: from power-on
    to the kernel.
  \<^item> \<open>Arm\<close>: the registers of the processor with their banks, taking an exception, the instructions of
    the vectors, and \<open>aapcs\<close>, what the procedure call standard promises of a compiled function.
    \<open>Vectors\<close>: \<^verbatim>\<open>interrupts.S\<close>, instruction by instruction.  \<open>Vectors_Correct\<close>: a run of each vector.
    \<open>Exceptions_Correct\<close>: sequences of exceptions on the machine the loader has set up.
  \<^item> \<open>Kmalloc\<close>: the sizes of \<^verbatim>\<open>kmalloc.cc\<close>.  \<open>Platform_Correct\<close>: the properties of everything below the
    page tables.
\<close>

text \<open>
  \<^bold>\<open>What is shown.\<close>
  \<^item> Allocator: the constructor establishes \<open>pa_wf\<close> and every operation keeps it; on RAM of a whole number of blocks \<open>alloc\<close> hands out an
    aligned block of free pages and touches nothing in use, and succeeds exactly when there is a free
    block that is not the last candidate of its scan; reference counts count, and a range that is
    acquired and released is as before.  Three defects are stated as theorems: the last candidate is
    refused, the 256th reference wraps, the page just past RAM is accepted.  A lemma
    (\<open>alloc_past_ram\<close>) shows a fourth: on RAM that is not a whole number of blocks the scan leaves the
    table and can hand out pages past RAM.
  \<^item> Page tables: the operations refine functions on the view.  \<open>reserve\<close> takes exactly the free pages
    asked for or leaves the state as it was; \<open>map\<close> and \<open>reserve_allocate\<close> map exactly the reserved
    pages, the latter each to a page of its own; out of memory is an outcome only when the allocator
    lacks the blocks that the request takes; other tables are untouched; software translation is
    the view, and the listing prints it.  The reverse search is shown wrong, and a \<open>map\<close> that fails
    part of the way is shown to lose references.
  \<^item> Searches: \<open>reserve\<close> without an address finds a free range whenever there is one the code can
    return (for pages, one inside a section), and two ranges handed out never overlap.
  \<^item> The kernel as a system: any number of tables, constructed, used and destroyed in any order while
    pages are taken and references passed around.  Every proper request returns or runs out of
    memory; along any sequence every reference count is what the tables refer to plus what is held
    outside of them; pages of tables are never handed out, and a table nothing is requested of does not
    change.
  \<^item> Life of a table: construction, any proper requests (also allocations that fail half way) and
    destruction restore all counts.
  \<^item> Run-time tests: with room for 16 blocks of four pages they all pass, and leave the counts as they
    were; the build that runs them prints that they passed, and echoes from then on.
  \<^item> Paging: an MMU that follows the documented format agrees with the software translation.
  \<^item> Loader: given the memory, a program is loaded just when its segments are aligned, disjoint and free,
    each page of them then being a page of its own and each byte of a section where its address translates
    to; files with wrong headers are refused before anything is allocated, and a section with a byte
    that does not translate makes the copy abort.
  \<^item> Boot: with RAM from 0, at most 512 MiB and room for the tables, the kernel is entered with two
    well-formed disjoint tables, the identity mapping in place and the books right, so that all of the
    system properties hold from there on; otherwise the panic is the one the
    code has for it, and RAM above 512 MiB makes the loader panic on the devices.  With a well-formed
    image that fits, the entry point of the image is reached, every byte of its sections is where its
    virtual address translates to, and the books are right; the rest of the segments is not cleared.
    When the entry point is \<open>kernel_entry\<close>, all that such a boot prints is given.
  \<^item> Start-up: the loop that clears \<^verbatim>\<open>.bss\<close> ends and clears just that, and with the tags and the image outside
    of it the entry point reaches the kernel, whatever memory held before.
  \<^item> Exceptions: every vector returns to where it should with the status, the stack pointers and \<open>r4\<close> to
    \<open>r11\<close> kept and memory changed on its stack only; any sequence of exceptions once paging is on
    leaves reference counts, translation and all memory but the four stacks as they are.  Two
    defects are theorems: \<open>r0\<close> to \<open>r3\<close> of the interrupted code are not kept, and a supervisor call made in
    supervisor mode overwrites the caller's link register.
  \<^item> Console, strings, lock, tags: the bytes sent, numbers that read back, mutual exclusion, the first
    memory tag, and the loops that end or do not.

  \<^bold>\<open>Parameters and hypotheses.\<close>  The device behind the UART answers reads as a function of the trace
  (\<open>responsive\<close>: a ready bit comes in the end).  The MMU is a function of coprocessor 15 and memory
  (\<open>obeys_tables\<close>: with paging on it walks the tables as documented).  \<open>boot_env\<close> holds the symbols of
  the linker scripts, the registers at the supervisor call and the code at the entry address of the
  image; \<open>link_loader\<close> fills in the symbols from the sizes of the sections.  The compiled exception
  handlers are functions on the core (\<open>aapcs\<close>: they return to the link register, keep the registers and
  the stack they must, print what the C++ prints, and use less than 2 KiB of stack).  Every
  property with hypotheses has a witness on a concrete state.

  \<^bold>\<open>Not modelled.\<close>  Compiled code between two exceptions that changes memory, and interrupts in the middle of
  the C++ operations: the sequences of \<open>Exceptions_Correct\<close> interleave exceptions with code that changes
  registers, and interleavings beyond those are only those of the spinlock.  The supervisor stack,
  which compiled code manages; caches and TLB, whose maintenance is kept only as an ordered list of
  events; the body of \<open>kmalloc\<close>, which names identifiers nobody declares and does not compile; the rest
  of \<^verbatim>\<open>elf.h\<close>, a vendored header; \<^verbatim>\<open>make.sh\<close>, which calls the compiler and the linker, and
  \<^verbatim>\<open>phlogiston_link.ld\<close>, whose result, the kernel image, is a parameter.  \<open>VERBOSE\<close> prints are not
  compiled in and are left out.
\<close>

end
